(* ===== verification/Prelude.thy ===== *)
theory Prelude
  imports Main "HOL-Library.Word"
begin

text \<open>
  Shared vocabulary of the development: the collections of simplification rules that carry
  the component proofs, the result type of Python code that may raise, big-endian integers,
  the generic list lemmas that the codecs and the queues need.
\<close>

named_theorems codec_simps \<open>what a codec step returns on the bytes it expects\<close>
named_theorems wire_defs \<open>definitions of payload builders and reply decoders\<close>
named_theorems inv_intros \<open>an operation keeps the invariant of its component\<close>

type_synonym byte = "8 word"
type_synonym bytes = "byte list"

section \<open>Results of code that may raise\<close>

definition bind_r :: "'e + 'a \<Rightarrow> ('a \<Rightarrow> 'e + 'b) \<Rightarrow> 'e + 'b" where
  "bind_r m f = (case m of Inl e \<Rightarrow> Inl e | Inr x \<Rightarrow> f x)"

lemma bind_r_simps [simp]:
  "bind_r (Inl e) f = Inl e"
  "bind_r (Inr x) f = f x"
  by (simp_all add: bind_r_def)

lemma bind_r_Inr_iff: "bind_r m f = Inr y \<longleftrightarrow> (\<exists>x. m = Inr x \<and> f x = Inr y)"
  by (cases m) auto

lemma bind_r_Inl_iff: "bind_r m f = Inl e \<longleftrightarrow> m = Inl e \<or> (\<exists>x. m = Inr x \<and> f x = Inl e)"
  by (cases m) auto

lemma bind_r_assoc: "bind_r (bind_r m f) g = bind_r m (\<lambda>x. bind_r (f x) g)"
  by (cases m) auto

lemma bind_r_cong [fundef_cong]:
  "m = m' \<Longrightarrow> (\<And>x. m' = Inr x \<Longrightarrow> f x = f' x) \<Longrightarrow> bind_r m f = bind_r m' f'"
  by (cases m') auto

definition guard_r :: "bool \<Rightarrow> 'e \<Rightarrow> 'e + unit" where
  "guard_r b e = (if b then Inr () else Inl e)"

lemma guard_r_simps [simp]:
  "guard_r True e = Inr ()"
  "guard_r False e = Inl e"
  by (simp_all add: guard_r_def)

lemma guard_r_Inr_iff [simp]: "guard_r b e = Inr u \<longleftrightarrow> b"
  by (simp add: guard_r_def)

section \<open>Big-endian integers\<close>

text \<open>\<open>int.to_bytes(n, "big")\<close> and \<open>int.from_bytes(data, "big")\<close> on values in range.\<close>

fun be_bytes :: "nat \<Rightarrow> int \<Rightarrow> bytes" where
  "be_bytes 0 v = []"
| "be_bytes (Suc n) v = be_bytes n (v div 256) @ [word_of_int (v mod 256)]"

definition be_int :: "bytes \<Rightarrow> int" where
  "be_int bs = foldl (\<lambda>acc b. acc * 256 + uint b) 0 bs"

lemma length_be_bytes [simp]: "length (be_bytes n v) = n"
  by (induction n arbitrary: v) auto

lemma be_int_simps [simp]:
  "be_int [] = 0"
  "be_int (bs @ [b]) = be_int bs * 256 + uint b"
  by (simp_all add: be_int_def)

lemma uint_of_byte_mod [simp]: "uint (word_of_int (v mod 256) :: byte) = v mod 256"
  by (simp add: uint_word_of_int)

lemma be_int_be_bytes_mod: "be_int (be_bytes n v) = v mod 256 ^ n"
proof (induction n arbitrary: v)
  case 0
  then show ?case by simp
next
  case (Suc n)
  have "v mod (256 * 256 ^ n) = 256 * (v div 256 mod 256 ^ n) + v mod 256"
    by (rule zmod_zmult2_eq) simp
  then show ?case by (simp add: Suc.IH mult.commute)
qed

lemma be_int_be_bytes [simp]: "0 \<le> v \<Longrightarrow> v < 256 ^ n \<Longrightarrow> be_int (be_bytes n v) = v"
  by (simp add: be_int_be_bytes_mod)

lemma be_int_nonneg [simp]: "0 \<le> be_int bs"
  by (induction bs rule: rev_induct) auto

lemma byte_uint_bounds: "0 \<le> uint (b :: byte)" "uint (b :: byte) < 256"
  using uint_lt2p [of b] by simp_all

lemma be_int_less: "be_int bs < 256 ^ length bs"
proof (induction bs rule: rev_induct)
  case Nil
  then show ?case by simp
next
  case (snoc b bs)
  have "be_int bs + 1 \<le> 256 ^ length bs" using snoc by simp
  then have "(be_int bs + 1) * 256 \<le> 256 ^ length bs * 256" by simp
  then show ?case using byte_uint_bounds(2) [of b] by (simp add: algebra_simps)
qed

lemma be_bytes_be_int [simp]: "be_bytes (length bs) (be_int bs) = bs"
proof (induction bs rule: rev_induct)
  case Nil
  then show ?case by simp
next
  case (snoc b bs)
  have "(be_int bs * 256 + uint b) div 256 = be_int bs"
    using byte_uint_bounds [of b] by simp
  moreover have "(be_int bs * 256 + uint b) mod 256 = uint b"
    using byte_uint_bounds [of b] by simp
  ultimately show ?case using snoc by simp
qed

lemma be_bytes_be_int_len: "length bs = n \<Longrightarrow> be_bytes n (be_int bs) = bs"
  by auto

lemma be_int_single [simp]: "be_int [b] = uint b"
  using be_int_simps(2) [of "[]" b] by simp

lemma be_bytes_byte: "be_bytes (Suc 0) (uint b) = [b]"
  using byte_uint_bounds [of b] by simp

declare be_bytes.simps(2) [simp del]

text \<open>\<open>struct.pack\<close> of one unsigned field of \<open>n\<close> bytes refuses a value out of range.\<close>

definition pack :: "'e \<Rightarrow> nat \<Rightarrow> int \<Rightarrow> 'e + bytes" where
  "pack e n v = (if 0 \<le> v \<and> v < 256 ^ n then Inr (be_bytes n v) else Inl e)"

lemma pack_ok [simp]: "0 \<le> v \<Longrightarrow> v < 256 ^ n \<Longrightarrow> pack e n v = Inr (be_bytes n v)"
  by (simp add: pack_def)

lemma pack_Inr_iff: "pack e n v = Inr bs \<longleftrightarrow> 0 \<le> v \<and> v < 256 ^ n \<and> bs = be_bytes n v"
  by (auto simp: pack_def)

lemma pack_Inl_iff: "pack e n v = Inl e' \<longleftrightarrow> e' = e \<and> \<not> (0 \<le> v \<and> v < 256 ^ n)"
  by (auto simp: pack_def)

section \<open>Lists\<close>

definition seg :: "nat \<Rightarrow> nat \<Rightarrow> 'a list \<Rightarrow> 'a list" where
  "seg i n xs = take n (drop i xs)"

lemma length_seg [simp]: "i + n \<le> length xs \<Longrightarrow> length (seg i n xs) = n"
  by (simp add: seg_def)

lemma seg_append_mid [simp]: "length pre = i \<Longrightarrow> length mid = n \<Longrightarrow> seg i n (pre @ mid @ suf) = mid"
  by (simp add: seg_def)

lemma seg_skip: "length m \<le> k \<Longrightarrow> seg k n (m @ xs) = seg (k - length m) n xs"
  by (simp add: seg_def)

lemma seg_here: "length m = n \<Longrightarrow> seg 0 n (m @ xs) = m" "length m = n \<Longrightarrow> seg 0 n m = m"
  by (simp_all add: seg_def)

lemma drop_seg: "drop i xs = seg i n xs @ drop (i + n) xs"
  unfolding seg_def by (metis add.commute append_take_drop_id drop_drop)

lemma take_append_exact [simp]: "length xs = n \<Longrightarrow> take n (xs @ ys) = xs"
  by simp

lemma drop_append_exact [simp]: "length xs = n \<Longrightarrow> drop n (xs @ ys) = ys"
  by simp

section \<open>Ordered lists\<close>

lemma sorted_wrt_remove1: "sorted_wrt P xs \<Longrightarrow> sorted_wrt P (remove1 x xs)"
proof (induction xs)
  case (Cons y ys)
  then show ?case using set_remove1_subset [of x ys] by auto
qed simp

section \<open>Runs of operations and data refinement\<close>

fun exec_ops :: "('op \<Rightarrow> 's \<Rightarrow> 'r \<times> 's) \<Rightarrow> 'op list \<Rightarrow> 's \<Rightarrow> 'r list \<times> 's" where
  "exec_ops f [] s = ([], s)"
| "exec_ops f (a # as) s =
     (let (r, s') = f a s; (rs, s'') = exec_ops f as s' in (r # rs, s''))"

lemma exec_ops_append:
  "exec_ops f (as @ bs) s =
     (let (rs, s') = exec_ops f as s; (qs, s'') = exec_ops f bs s' in (rs @ qs, s''))"
  by (induction as arbitrary: s) (simp_all add: Let_def split_beta)

text \<open>A detailed component implements an abstract one: same answers, related states.\<close>

locale data_refinement =
  fixes inv :: "'c \<Rightarrow> bool"
    and abs :: "'c \<Rightarrow> 'a"
    and detailed :: "'op \<Rightarrow> 'c \<Rightarrow> 'r \<times> 'c"
    and abstract :: "'op \<Rightarrow> 'a \<Rightarrow> 'r \<times> 'a"
  assumes keeps: "inv c \<Longrightarrow> inv (snd (detailed op c))"
    and simulates: "inv c \<Longrightarrow> abstract op (abs c) = apsnd abs (detailed op c)"
begin

lemma run_keeps: "inv c \<Longrightarrow> inv (snd (exec_ops detailed ops c))"
  by (induction ops arbitrary: c) (simp_all add: Let_def split_beta keeps)

lemma run_simulates: "inv c \<Longrightarrow> exec_ops abstract ops (abs c) = apsnd abs (exec_ops detailed ops c)"
proof (induction ops arbitrary: c)
  case (Cons op ops)
  have "abstract op (abs c) = (fst (detailed op c), abs (snd (detailed op c)))"
    using simulates [OF Cons.prems] by (simp add: prod_eq_iff)
  then show ?case using Cons.IH [OF keeps [OF Cons.prems, of op]]
    by (simp add: Let_def split_beta)
qed simp

lemma run_answers: "inv c \<Longrightarrow> fst (exec_ops detailed ops c) = fst (exec_ops abstract ops (abs c))"
  by (simp add: run_simulates)

end

end
