(* ===== verification/Errors.thy ===== *)
theory Errors
  imports Prelude
begin

text \<open>
  The exception hierarchy of \<open>fitz_py/errors.py\<close> and the standard-library exceptions the
  code raises or lets through, as one datatype. An exception carries the structured context
  of the class (domain code, reason, error class, effect, cause), not its English message.
  \<open>is_retryable\<close> is the retry classification of \<open>errors.py\<close>; the lemmas show what it admits.
\<close>

section \<open>Exceptions\<close>

text \<open>Text is a list of Unicode code points, as Python's \<open>str\<close> is.\<close>

type_synonym ustr = "nat list"

definition lit :: "string \<Rightarrow> ustr" where
  "lit s = map of_char s"

text \<open>The subclasses of \<open>DomainError\<close>, named by their \<open>prefix\<close>.\<close>

datatype domain = AnyDomain | KV | QUEUE | NOTICE | RPC | LEASE | STREAM | SCHEDULE

fun domain_prefix :: "domain \<Rightarrow> string" where
  "domain_prefix AnyDomain = ''DOMAIN''"
| "domain_prefix KV = ''KV''"
| "domain_prefix QUEUE = ''QUEUE''"
| "domain_prefix NOTICE = ''NOTICE''"
| "domain_prefix RPC = ''RPC''"
| "domain_prefix LEASE = ''LEASE''"
| "domain_prefix STREAM = ''STREAM''"
| "domain_prefix SCHEDULE = ''SCHEDULE''"

datatype exn =
    FitzTransportError
  | FitzConnectionError
  | AuthenticationError "int option"  \<comment> \<open>the \<open>code\<close> of its context\<close>
  | FitzTimeoutError
  | ProtocolError "int option"  \<comment> \<open>domain code\<close>
  | CodecError
  | RequestQueueFullError
  | SubscriptionBackpressureError
  | StaleHandleError
  | ReconnectRestoreError string ustr exn  \<comment> \<open>domain, registration, cause\<close>
  | LeaseLostError
  | LeaseLifecycleError "exn list"  \<comment> \<open>causes\<close>
  | DomainError domain string "int option" "int option" "int option"
      \<comment> \<open>subclass, reason, domain code, error class, effect\<close>
  | PyTypeError
  | PyValueError
  | StructError  \<comment> \<open>\<open>struct.error\<close>\<close>
  | OverflowError  \<comment> \<open>\<open>int.to_bytes\<close>\<close>
  | UnicodeDecodeError
  | UnicodeEncodeError
  | CancelledError  \<comment> \<open>\<open>asyncio.CancelledError\<close>\<close>
  | PyTimeoutError  \<comment> \<open>the built-in \<open>TimeoutError\<close>\<close>
  | StopAsyncIteration
  | OtherException nat

text \<open>The stable \<open>code\<close> of a library failure; other exceptions have none.\<close>

fun error_code :: "exn \<Rightarrow> string option" where
  "error_code FitzTransportError = Some ''TRANSPORT_ERROR''"
| "error_code FitzConnectionError = Some ''CONNECTION_ERROR''"
| "error_code (AuthenticationError _) = Some ''AUTH_ERROR''"
| "error_code FitzTimeoutError = Some ''TIMEOUT''"
| "error_code (ProtocolError _) = Some ''PROTOCOL_ERROR''"
| "error_code CodecError = Some ''CODEC_ERROR''"
| "error_code RequestQueueFullError = Some ''REQUEST_QUEUE_FULL''"
| "error_code SubscriptionBackpressureError = Some ''SUBSCRIPTION_BACKPRESSURE''"
| "error_code StaleHandleError = Some ''STALE_HANDLE''"
| "error_code (ReconnectRestoreError _ _ _) = Some ''RECONNECT_RESTORE_FAILED''"
| "error_code LeaseLostError = Some ''LEASE_LOST''"
| "error_code (LeaseLifecycleError _) = Some ''LEASE_LIFECYCLE_MULTIPLE_FAILURES''"
| "error_code (DomainError d reason _ _ _) = Some (domain_prefix d @ ''_'' @ reason)"
| "error_code _ = None"

text \<open>\<open>isinstance(error, FitzError)\<close>\<close>

definition is_fitz_error :: "exn \<Rightarrow> bool" where
  "is_fitz_error e \<longleftrightarrow> error_code e \<noteq> None"

section \<open>Retry classification\<close>

definition RETRYABLE :: "(string \<times> int) list" where
  "RETRYABLE = [(''KV'', 1053), (''LEASE'', 5050), (''LEASE'', 5056), (''RPC'', 6051)]"

fun is_retryable :: "exn \<Rightarrow> bool" where
  "is_retryable FitzTransportError = True"
| "is_retryable FitzTimeoutError = True"
| "is_retryable RequestQueueFullError = True"
| "is_retryable (DomainError d reason domain_code error_class effect) =
     (case domain_code of
        None \<Rightarrow> False
      | Some code \<Rightarrow>
          if effect \<noteq> Some 0 then False
          else if error_class = Some 5 then True
          else (domain_prefix d, code) \<in> set RETRYABLE)"
| "is_retryable _ = False"

definition domain_error ::
  "domain \<Rightarrow> string \<Rightarrow> int \<Rightarrow> int option \<Rightarrow> int option \<Rightarrow> exn" where
  "domain_error error_type operation status error_class effect =
     DomainError error_type operation (Some status) error_class effect"

text \<open>
  A domain failure is retried only when the broker said that it had no effect; a failure
  of the connection is never retried by this classification, a broken transport always is.
\<close>

lemma retryable_domain_effect:
  "is_retryable (DomainError d reason code cls eff) \<Longrightarrow> eff = Some 0 \<and> code \<noteq> None"
  by (auto split: option.splits if_splits)

lemma retryable_is_fitz: "is_retryable e \<Longrightarrow> is_fitz_error e"
  by (cases e) (auto simp: is_fitz_error_def)

lemma domain_error_code [simp]:
  "error_code (domain_error d operation s c f) = Some (domain_prefix d @ ''_'' @ operation)"
  by (simp add: domain_error_def)

text \<open>Python's \<open>x or 0\<close> on an optional integer.\<close>

definition or_zero :: "int option \<Rightarrow> int" where
  "or_zero x = (case x of None \<Rightarrow> 0 | Some v \<Rightarrow> v)"

lemma or_zero_simps [simp]: "or_zero None = 0" "or_zero (Some v) = v"
  by (simp_all add: or_zero_def)

end
