(* ===== verification/Gate.thy ===== *)
theory Gate
  imports Errors
begin

text \<open>
  \<open>_runtime.RequestGate\<close>: the bounded admission gate of a connection. The gate's fields and
  its waiters' futures are one record; every method is a function on it, split where the
  coroutine suspends. The step relation \<open>gate_step\<close> interleaves any number of callers. Its
  parameter says whether the event loop may run other callers between the cancellation of a
  suspended caller and the resumption that handles it: without that window the number of
  admitted callers is the gate's count and never exceeds the maximum, with it the bound fails.
\<close>

section \<open>State\<close>

text \<open>An \<open>asyncio.Future\<close> as the gate uses it.\<close>

datatype fut = Pending | Granted | Failed exn | Cancelled

record gate =
  maximum :: int
  queue_size :: int
  active :: int
  closed :: bool
  waiters :: "nat list"
  futs :: "nat \<Rightarrow> fut"

definition new_gate :: "int \<Rightarrow> int \<Rightarrow> gate" where
  "new_gate m q = \<lparr>maximum = m, queue_size = q, active = 0, closed = False, waiters = [],
     futs = (\<lambda>_. Pending)\<rparr>"

section \<open>Methods\<close>

text \<open>The outcome of \<open>acquire\<close> up to its \<open>await\<close> and after it.\<close>

datatype admission = Admitted | Parked | Refused exn

definition gate_acquire :: "nat \<Rightarrow> gate \<Rightarrow> admission \<times> gate" where
  "gate_acquire w g =
     (if closed g then (Refused FitzConnectionError, g)
      else if active g < maximum g \<and> waiters g = [] then
        (Admitted, g\<lparr>active := active g + 1\<rparr>)
      else if int (length (waiters g)) \<ge> queue_size g then (Refused RequestQueueFullError, g)
      else (Parked, g\<lparr>waiters := waiters g @ [w], futs := (futs g)(w := Pending)\<rparr>))"

text \<open>\<open>_release_slot\<close>: hand the slot to the first waiter that is not done, else give it back.\<close>

fun release_loop :: "nat list \<Rightarrow> gate \<Rightarrow> gate" where
  "release_loop [] g =
     g\<lparr>waiters := [], active := (if active g > 0 then active g - 1 else active g)\<rparr>"
| "release_loop (w # ws) g =
     (if futs g w = Pending then g\<lparr>waiters := ws, futs := (futs g)(w := Granted)\<rparr>
      else release_loop ws g)"

definition release_slot :: "gate \<Rightarrow> gate" where
  "release_slot g = release_loop (waiters g) g"

text \<open>
  The continuation of \<open>acquire\<close> when its task runs again. \<open>cancelled\<close> is the task's own
  cancellation flag, set when it was cancelled after its future was done.
\<close>

definition awaited :: "bool \<Rightarrow> fut \<Rightarrow> exn option" where
  "awaited cancelled f =
     (if cancelled then Some CancelledError
      else case f of Failed e \<Rightarrow> Some e | Cancelled \<Rightarrow> Some CancelledError | _ \<Rightarrow> None)"

definition gate_resume :: "nat \<Rightarrow> bool \<Rightarrow> gate \<Rightarrow> admission \<times> gate" where
  "gate_resume w cancelled g =
     (case awaited cancelled (futs g w) of
        Some e \<Rightarrow>
          (Refused e,
           if w \<in> set (waiters g) then g\<lparr>waiters := remove1 w (waiters g)\<rparr>
           else release_slot g)
      | None \<Rightarrow>
          if closed g then (Refused FitzConnectionError, release_slot g) else (Admitted, g))"

definition gate_close :: "gate \<Rightarrow> gate" where
  "gate_close g =
     (if closed g then g
      else g\<lparr>closed := True, waiters := [],
             futs := (\<lambda>w. if w \<in> set (waiters g) \<and> futs g w = Pending
                          then Failed FitzConnectionError else futs g w)\<rparr>)"

section \<open>Callers\<close>

text \<open>
  Every call of \<open>acquire\<close> has a number, which also names its future and its release token.
  \<open>suspended\<close> holds the cancellation flag of the calls inside \<open>await waiter\<close>, \<open>holding\<close> the
  calls whose token has not been used. A token that is not in \<open>holding\<close> was used already,
  and using it again does nothing.
\<close>

record gsys =
  gt :: gate
  suspended :: "nat \<rightharpoonup> bool"
  holding :: "nat set"
  ticket :: nat

definition new_gsys :: "int \<Rightarrow> int \<Rightarrow> gsys" where
  "new_gsys m q = \<lparr>gt = new_gate m q, suspended = Map.empty, holding = {}, ticket = 0\<rparr>"

definition do_acquire :: "gsys \<Rightarrow> gsys" where
  "do_acquire s =
     (let n = ticket s; (r, g) = gate_acquire n (gt s); s' = s\<lparr>gt := g, ticket := Suc n\<rparr>
      in case r of
           Admitted \<Rightarrow> s'\<lparr>holding := insert n (holding s)\<rparr>
         | Parked \<Rightarrow> s'\<lparr>suspended := (suspended s)(n \<mapsto> False)\<rparr>
         | Refused e \<Rightarrow> s')"

definition do_resume :: "nat \<Rightarrow> gsys \<Rightarrow> gsys" where
  "do_resume w s =
     (let (r, g) = gate_resume w (suspended s w = Some True) (gt s);
          s' = s\<lparr>gt := g, suspended := (suspended s)(w := None)\<rparr>
      in case r of Admitted \<Rightarrow> s'\<lparr>holding := insert w (holding s)\<rparr> | _ \<Rightarrow> s')"

text \<open>\<open>task.cancel()\<close>: a pending future is cancelled, else the task remembers it.\<close>

definition do_cancel :: "nat \<Rightarrow> gsys \<Rightarrow> gsys" where
  "do_cancel w s =
     (if futs (gt s) w = Pending
      then s\<lparr>gt := (gt s)\<lparr>futs := (futs (gt s))(w := Cancelled)\<rparr>\<rparr>
      else s\<lparr>suspended := (suspended s)(w \<mapsto> True)\<rparr>)"

definition do_release :: "nat \<Rightarrow> gsys \<Rightarrow> gsys" where
  "do_release w s =
     (if w \<in> holding s
      then s\<lparr>gt := release_slot (gt s), holding := holding s - {w}\<rparr>
      else s)"

definition do_close :: "gsys \<Rightarrow> gsys" where
  "do_close s = s\<lparr>gt := gate_close (gt s)\<rparr>"

inductive gate_step :: "bool \<Rightarrow> gsys \<Rightarrow> gsys \<Rightarrow> bool" for window :: bool where
  acquire: "gate_step window s (do_acquire s)"
| resume: "suspended s w \<noteq> None \<Longrightarrow> futs (gt s) w \<noteq> Pending \<Longrightarrow> gate_step window s (do_resume w s)"
| release: "gate_step window s (do_release w s)"
| close: "gate_step window s (do_close s)"
| cancel_done: "suspended s w \<noteq> None \<Longrightarrow> futs (gt s) w \<noteq> Pending \<Longrightarrow>
    gate_step window s (do_cancel w s)"
| cancel_now: "suspended s w \<noteq> None \<Longrightarrow> futs (gt s) w = Pending \<Longrightarrow>
    gate_step window s (do_resume w (do_cancel w s))"
| cancel_later: "window \<Longrightarrow> suspended s w \<noteq> None \<Longrightarrow> futs (gt s) w = Pending \<Longrightarrow>
    gate_step window s (do_cancel w s)"

inductive gate_reach :: "bool \<Rightarrow> int \<Rightarrow> int \<Rightarrow> gsys \<Rightarrow> bool" for window m q where
  start: "gate_reach window m q (new_gsys m q)"
| step: "gate_reach window m q s \<Longrightarrow> gate_step window s s' \<Longrightarrow> gate_reach window m q s'"

lemmas reach_acquire = gate_reach.step [OF _ gate_step.acquire]

section \<open>The invariant\<close>

text \<open>Calls whose slot is reserved but whose task has not run yet.\<close>

definition reserved :: "gsys \<Rightarrow> nat set" where
  "reserved s = {w. suspended s w \<noteq> None \<and> futs (gt s) w = Granted}"

definition gate_wf :: "gsys \<Rightarrow> bool" where
  "gate_wf s \<longleftrightarrow>
     finite (holding s) \<and> finite (dom (suspended s)) \<and>
     distinct (waiters (gt s)) \<and>
     set (waiters (gt s)) = {w. suspended s w \<noteq> None \<and> futs (gt s) w = Pending} \<and>
     (\<forall>w. suspended s w \<noteq> None \<longrightarrow> w < ticket s \<and> w \<notin> holding s) \<and>
     (\<forall>w\<in>holding s. w < ticket s) \<and>
     (closed (gt s) \<longrightarrow> waiters (gt s) = []) \<and>
     (\<not> closed (gt s) \<longrightarrow>
        (\<forall>w. suspended s w \<noteq> None \<longrightarrow> futs (gt s) w = Pending \<or> futs (gt s) w = Granted))"

definition occupied :: "gsys \<Rightarrow> int" where
  "occupied s = int (card (holding s)) + int (card (reserved s))"

text \<open>\<open>gate_count k\<close> holds with \<open>k\<close> slots in the hands of the method that is running.\<close>

definition gate_count :: "int \<Rightarrow> gsys \<Rightarrow> bool" where
  "gate_count k s \<longleftrightarrow>
     (\<not> closed (gt s) \<longrightarrow> active (gt s) = occupied s + k) \<and>
     occupied s + k \<le> maximum (gt s) \<and>
     (waiters (gt s) \<noteq> [] \<longrightarrow> active (gt s) = maximum (gt s))"

lemma gate_wf_start: "gate_wf (new_gsys m q)"
  by (simp add: gate_wf_def new_gsys_def new_gate_def)

lemma gate_count_start: "0 \<le> m \<Longrightarrow> gate_count 0 (new_gsys m q)"
  by (simp add: gate_count_def new_gsys_def new_gate_def reserved_def occupied_def)

lemma occupied_nonneg [simp]: "0 \<le> occupied s"
  by (simp add: occupied_def)

lemma finite_reserved:
  assumes "gate_wf s"
  shows "finite (reserved s)"
proof (rule finite_subset)
  show "reserved s \<subseteq> dom (suspended s)" by (auto simp: reserved_def)
  show "finite (dom (suspended s))" using assms by (simp add: gate_wf_def)
qed

text \<open>Handing the slot over, at the level of the gate's own record.\<close>

lemma release_slot_Nil:
  "waiters g = [] \<Longrightarrow>
   release_slot g = g\<lparr>active := (if active g > 0 then active g - 1 else active g)\<rparr>"
  by (simp add: release_slot_def)

lemma release_slot_Cons:
  "waiters g = w # ws \<Longrightarrow> futs g w = Pending \<Longrightarrow>
   release_slot g = g\<lparr>waiters := ws, futs := (futs g)(w := Granted)\<rparr>"
  by (simp add: release_slot_def)

lemma release_loop_fields:
  "closed (release_loop ws g) = closed g" "maximum (release_loop ws g) = maximum g"
  "set (waiters (release_loop ws g)) \<subseteq> set ws"
  by (induction ws arbitrary: g) auto

lemma release_slot_fields:
  "closed (release_slot g) = closed g" "maximum (release_slot g) = maximum g"
  "waiters g = [] \<Longrightarrow> waiters (release_slot g) = []"
  by (simp_all add: release_slot_def release_loop_fields)

lemma gate_wf_head:
  assumes "gate_wf s" "waiters (gt s) = w # ws"
  shows "suspended s w \<noteq> None" "futs (gt s) w = Pending" "w \<notin> set ws" "\<not> closed (gt s)"
    "w \<notin> reserved s" "w \<notin> holding s"
proof -
  have "w \<in> set (waiters (gt s))" using assms by simp
  then show s: "suspended s w \<noteq> None" and f: "futs (gt s) w = Pending"
    using assms(1) unfolding gate_wf_def by blast+
  show "w \<notin> set ws" "\<not> closed (gt s)" using assms by (simp_all add: gate_wf_def)
  show "w \<notin> reserved s" using f by (simp add: reserved_def)
  show "w \<notin> holding s" using s assms(1) unfolding gate_wf_def by blast
qed

lemma gate_wf_release:
  assumes wf: "gate_wf s"
  shows "gate_wf (s\<lparr>gt := release_slot (gt s)\<rparr>)"
proof (cases "waiters (gt s)")
  case Nil
  then show ?thesis using wf by (simp add: release_slot_Nil gate_wf_def)
next
  case (Cons w ws)
  note h = gate_wf_head [OF wf Cons]
  have set: "set (w # ws) = {w. suspended s w \<noteq> None \<and> futs (gt s) w = Pending}"
    using wf Cons unfolding gate_wf_def by simp
  have "set ws = {v. suspended s v \<noteq> None \<and> ((futs (gt s))(w := Granted)) v = Pending}"
    using set h(3) by auto
  then show ?thesis using wf Cons h
    unfolding gate_wf_def by (simp add: release_slot_Cons)
qed

lemma occupied_release:
  assumes wf: "gate_wf s"
  shows "occupied (s\<lparr>gt := release_slot (gt s)\<rparr>) =
    occupied s + (if waiters (gt s) = [] then 0 else 1)"
proof (cases "waiters (gt s)")
  case Nil
  then show ?thesis by (simp add: release_slot_Nil occupied_def reserved_def)
next
  case (Cons w ws)
  note h = gate_wf_head [OF wf Cons]
  have "reserved (s\<lparr>gt := release_slot (gt s)\<rparr>) = insert w (reserved s)"
    using h(1,2) Cons by (auto simp: reserved_def release_slot_Cons)
  then show ?thesis using finite_reserved [OF wf] h(5) Cons by (simp add: occupied_def)
qed

lemma gate_count_release:
  assumes wf: "gate_wf s" and count: "gate_count (k + 1) s" and k: "0 \<le> k"
  shows "gate_count k (s\<lparr>gt := release_slot (gt s)\<rparr>)"
proof (cases "waiters (gt s)")
  case Nil
  have "\<not> closed (gt s) \<Longrightarrow> 0 < active (gt s)"
    using count k occupied_nonneg [of s] unfolding gate_count_def by linarith
  then have "\<not> closed (gt s) \<Longrightarrow> active (release_slot (gt s)) = active (gt s) - 1"
    using Nil by (simp add: release_slot_Nil)
  then show ?thesis using count Nil
    by (simp add: gate_count_def occupied_release [OF wf] release_slot_fields)
next
  case (Cons w ws)
  note h = gate_wf_head [OF wf Cons]
  have "active (release_slot (gt s)) = active (gt s)"
    using Cons h by (simp add: release_slot_Cons)
  then show ?thesis using count Cons h(4)
    by (simp add: gate_count_def occupied_release [OF wf] release_slot_fields)
qed

lemma gate_count_release_closed:
  assumes wf: "gate_wf s" and count: "gate_count k s" and c: "closed (gt s)"
  shows "gate_count k (s\<lparr>gt := release_slot (gt s)\<rparr>)"
proof -
  have "waiters (gt s) = []" using wf c by (simp add: gate_wf_def)
  then show ?thesis using count c
    by (simp add: gate_count_def occupied_release [OF wf] release_slot_fields)
qed

section \<open>Every step keeps the invariant\<close>

definition gate_inv :: "gsys \<Rightarrow> bool" where
  "gate_inv s \<longleftrightarrow> gate_wf s \<and> gate_count 0 s"

lemma gate_inv_start: "0 \<le> m \<Longrightarrow> gate_inv (new_gsys m q)"
  by (simp add: gate_inv_def gate_wf_start gate_count_start)

lemma gate_wf_fresh:
  assumes "gate_wf s"
  shows "suspended s (ticket s) = None" "ticket s \<notin> holding s"
    "suspended s w \<noteq> None \<Longrightarrow> w < Suc (ticket s)" "w \<in> holding s \<Longrightarrow> w < Suc (ticket s)"
    "ticket s \<notin> set (waiters (gt s))"
proof -
  have sub: "\<And>w. suspended s w \<noteq> None \<Longrightarrow> w < ticket s \<and> w \<notin> holding s"
    and hol: "\<And>w. w \<in> holding s \<Longrightarrow> w < ticket s"
    using assms unfolding gate_wf_def by blast+
  show n: "suspended s (ticket s) = None" using sub [of "ticket s"] by (cases "suspended s (ticket s)") auto
  show "ticket s \<notin> holding s" using hol by blast
  show "suspended s w \<noteq> None \<Longrightarrow> w < Suc (ticket s)" using sub [of w] by auto
  show "w \<in> holding s \<Longrightarrow> w < Suc (ticket s)" using hol [of w] by auto
  show "ticket s \<notin> set (waiters (gt s))" using assms n unfolding gate_wf_def by simp
qed

lemma gate_inv_refused: "gate_inv s \<Longrightarrow> gate_inv (s\<lparr>ticket := Suc (ticket s)\<rparr>)"
  unfolding gate_inv_def
proof (elim conjE, intro conjI)
  assume wf: "gate_wf s" and count: "gate_count 0 s"
  show "gate_wf (s\<lparr>ticket := Suc (ticket s)\<rparr>)"
    using wf unfolding gate_wf_def by (simp add: less_Suc_eq)
  show "gate_count 0 (s\<lparr>ticket := Suc (ticket s)\<rparr>)"
    using count by (simp add: gate_count_def occupied_def reserved_def)
qed

lemma do_acquire_cases:
  "do_acquire s =
     (case fst (gate_acquire (ticket s) (gt s)) of
        Admitted \<Rightarrow> s\<lparr>gt := (gt s)\<lparr>active := active (gt s) + 1\<rparr>, ticket := Suc (ticket s),
                      holding := insert (ticket s) (holding s)\<rparr>
      | Parked \<Rightarrow> s\<lparr>gt := (gt s)\<lparr>waiters := waiters (gt s) @ [ticket s],
                      futs := (futs (gt s))(ticket s := Pending)\<rparr>, ticket := Suc (ticket s),
                      suspended := (suspended s)(ticket s \<mapsto> False)\<rparr>
      | Refused e \<Rightarrow> s\<lparr>ticket := Suc (ticket s)\<rparr>)"
  by (simp add: do_acquire_def gate_acquire_def Let_def)

lemma gate_acquire_Admitted:
  "fst (gate_acquire w g) = Admitted \<longleftrightarrow>
     \<not> closed g \<and> active g < maximum g \<and> waiters g = []"
  by (simp add: gate_acquire_def)

lemma gate_acquire_Parked:
  "fst (gate_acquire w g) = Parked \<longleftrightarrow>
     \<not> closed g \<and> \<not> (active g < maximum g \<and> waiters g = []) \<and>
     int (length (waiters g)) < queue_size g"
  by (simp add: gate_acquire_def)

lemma gate_inv_acquire:
  assumes inv: "gate_inv s"
  shows "gate_inv (do_acquire s)"
proof -
  have wf: "gate_wf s" and count: "gate_count 0 s" using inv by (simp_all add: gate_inv_def)
  note n = gate_wf_fresh [OF wf]
  show ?thesis
  proof (cases "fst (gate_acquire (ticket s) (gt s))")
    case Admitted
    then have g: "\<not> closed (gt s)" "active (gt s) < maximum (gt s)" "waiters (gt s) = []"
      unfolding gate_acquire_Admitted by blast+
    have wf': "gate_wf (do_acquire s)"
      using wf n unfolding do_acquire_cases Admitted gate_wf_def
      by (auto simp: less_Suc_eq)
    have "occupied (do_acquire s) = occupied s + 1"
      using wf n(2) unfolding do_acquire_cases Admitted
      by (simp add: occupied_def reserved_def gate_wf_def)
    then have "gate_count 0 (do_acquire s)"
      using count g unfolding gate_count_def do_acquire_cases Admitted by simp
    then show ?thesis using wf' by (simp add: gate_inv_def)
  next
    case Parked
    then have g: "\<not> closed (gt s)" "waiters (gt s) = [] \<Longrightarrow> \<not> active (gt s) < maximum (gt s)"
      unfolding gate_acquire_Parked by blast+
    have full: "active (gt s) = maximum (gt s)"
      using g count unfolding gate_count_def by (cases "waiters (gt s) = []") auto
    have set: "insert (ticket s) (set (waiters (gt s))) =
        {w. ((suspended s)(ticket s \<mapsto> False)) w \<noteq> None \<and> ((futs (gt s))(ticket s := Pending)) w = Pending}"
      using wf n(1) unfolding gate_wf_def by auto
    have wf': "gate_wf (do_acquire s)"
      using wf n g(1) set unfolding do_acquire_cases Parked gate_wf_def
      by (simp add: less_Suc_eq)
    have "reserved (do_acquire s) = reserved s"
      using n(1) unfolding do_acquire_cases Parked reserved_def by auto
    then have "gate_count 0 (do_acquire s)"
      using count g full unfolding gate_count_def occupied_def do_acquire_cases Parked by simp
    then show ?thesis using wf' by (simp add: gate_inv_def)
  next
    case (Refused e)
    then show ?thesis using gate_inv_refused [OF inv] by (simp add: do_acquire_cases)
  qed
qed

text \<open>A suspended call that runs again takes its reservation with it.\<close>

lemma resume_leaves:
  assumes inv: "gate_inv s" and w: "suspended s w \<noteq> None" "futs (gt s) w \<noteq> Pending"
  defines "s1 \<equiv> s\<lparr>suspended := (suspended s)(w := None)\<rparr>"
  shows "gate_wf s1" "closed (gt s) \<Longrightarrow> gate_count 0 s1"
    "\<not> closed (gt s) \<Longrightarrow> futs (gt s) w = Granted \<and> gate_count 1 s1"
    "w \<notin> set (waiters (gt s))" "w \<notin> holding s" "w < ticket s"
proof -
  have wf: "gate_wf s" and count: "gate_count 0 s" using inv by (simp_all add: gate_inv_def)
  show nw: "w \<notin> set (waiters (gt s))" and "w \<notin> holding s" "w < ticket s"
    using wf w unfolding gate_wf_def by blast+
  have "set (waiters (gt s)) = {v. ((suspended s)(w := None)) v \<noteq> None \<and> futs (gt s) v = Pending}"
    using wf w(2) unfolding gate_wf_def by auto
  then show "gate_wf s1" using wf unfolding gate_wf_def s1_def by simp
  have r: "reserved s1 = reserved s - {w}" by (auto simp: s1_def reserved_def)
  have fin: "finite (reserved s)" by (rule finite_reserved [OF wf])
  have le: "card (reserved s1) \<le> card (reserved s)" unfolding r by (rule card_Diff1_le)
  show "closed (gt s) \<Longrightarrow> gate_count 0 s1"
    using count le unfolding gate_count_def occupied_def by (simp add: s1_def)
  show "futs (gt s) w = Granted \<and> gate_count 1 s1" if o: "\<not> closed (gt s)"
  proof -
    have g: "futs (gt s) w = Granted" using wf w o unfolding gate_wf_def by blast
    then have "w \<in> reserved s" using w by (simp add: reserved_def)
    then have "card (reserved s) = Suc (card (reserved s1))"
      unfolding r by (rule card.remove [OF fin])
    then have "occupied s = occupied s1 + 1" by (simp add: occupied_def s1_def)
    then show ?thesis using g count unfolding gate_count_def by (simp add: s1_def)
  qed
qed

lemma do_resume_outcome:
  assumes "w \<notin> set (waiters (gt s))"
  shows "do_resume w s =
    (let s1 = s\<lparr>suspended := (suspended s)(w := None)\<rparr>
     in if awaited (suspended s w = Some True) (futs (gt s) w) = None \<and> \<not> closed (gt s)
        then s1\<lparr>holding := insert w (holding s)\<rparr>
        else s1\<lparr>gt := release_slot (gt s1)\<rparr>)"
  using assms by (simp add: do_resume_def gate_resume_def Let_def split: option.split)

lemma gate_inv_resume:
  assumes inv: "gate_inv s" and w: "suspended s w \<noteq> None" "futs (gt s) w \<noteq> Pending"
  shows "gate_inv (do_resume w s)"
proof -
  let ?s1 = "s\<lparr>suspended := (suspended s)(w := None)\<rparr>"
  note l = resume_leaves [OF inv w]
  show ?thesis
  proof (cases "awaited (suspended s w = Some True) (futs (gt s) w) = None \<and> \<not> closed (gt s)")
    case True
    then have eq: "do_resume w s = ?s1\<lparr>holding := insert w (holding s)\<rparr>"
      unfolding do_resume_outcome [OF l(4)] Let_def by (rule if_P)
    have o: "\<not> closed (gt s)" using True by simp
    have fin: "finite (holding s)" using l(1) unfolding gate_wf_def by simp
    have wf: "gate_wf (do_resume w s)"
      using l(1,6) unfolding eq gate_wf_def by auto
    have "occupied (do_resume w s) = occupied ?s1 + 1"
      using l(5) fin unfolding eq occupied_def by (simp add: reserved_def)
    then have "gate_count 0 (do_resume w s)"
      using l(3) [OF o] unfolding eq gate_count_def by simp
    then show ?thesis using wf by (simp add: gate_inv_def)
  next
    case False
    then have eq: "do_resume w s = ?s1\<lparr>gt := release_slot (gt ?s1)\<rparr>"
      unfolding do_resume_outcome [OF l(4)] Let_def by (rule if_not_P)
    have "gate_count 0 (do_resume w s)"
    proof (cases "closed (gt s)")
      case True
      then show ?thesis unfolding eq by (intro gate_count_release_closed l(1,2)) simp_all
    next
      case False
      then have "gate_count (0 + 1) ?s1" using l(3) by simp
      then show ?thesis unfolding eq by (rule gate_count_release [OF l(1)]) simp
    qed
    then show ?thesis unfolding gate_inv_def eq using gate_wf_release [OF l(1)] by simp
  qed
qed

lemma gate_inv_cancel_done:
  assumes inv: "gate_inv s" and w: "suspended s w \<noteq> None" "futs (gt s) w \<noteq> Pending"
  shows "gate_inv (do_cancel w s)"
proof -
  have same: "((suspended s)(w \<mapsto> True)) v \<noteq> None \<longleftrightarrow> suspended s v \<noteq> None" for v
    using w(1) by auto
  have eq: "do_cancel w s = s\<lparr>suspended := (suspended s)(w \<mapsto> True)\<rparr>"
    using w(2) by (simp add: do_cancel_def)
  have dom: "dom ((suspended s)(w \<mapsto> True)) = dom (suspended s)" using w(1) by auto
  have wf: "gate_wf (do_cancel w s)"
    using inv unfolding gate_inv_def gate_wf_def eq
    by (simp del: fun_upd_apply not_None_eq dom_fun_upd add: dom same)
  have "reserved (do_cancel w s) = reserved s"
    unfolding reserved_def eq by (simp del: fun_upd_apply not_None_eq add: same)
  then show ?thesis using inv wf by (simp add: gate_inv_def gate_count_def occupied_def eq)
qed

lemma gate_inv_cancel_now:
  assumes inv: "gate_inv s" and w: "suspended s w \<noteq> None" "futs (gt s) w = Pending"
  shows "gate_inv (do_resume w (do_cancel w s))"
proof -
  have wf: "gate_wf s" and count: "gate_count 0 s" using inv by (simp_all add: gate_inv_def)
  have set: "set (waiters (gt s)) = {w. suspended s w \<noteq> None \<and> futs (gt s) w = Pending}"
    and d: "distinct (waiters (gt s))" using wf unfolding gate_wf_def by blast+
  have mem: "w \<in> set (waiters (gt s))" using set w by blast
  have eq: "do_resume w (do_cancel w s) =
      s\<lparr>gt := (gt s)\<lparr>futs := (futs (gt s))(w := Cancelled), waiters := remove1 w (waiters (gt s))\<rparr>,
        suspended := (suspended s)(w := None)\<rparr>"
    using w(2) mem by (simp add: do_resume_def do_cancel_def gate_resume_def awaited_def)
  have set': "set (remove1 w (waiters (gt s))) =
      {v. ((suspended s)(w := None)) v \<noteq> None \<and> ((futs (gt s))(w := Cancelled)) v = Pending}"
    unfolding set_remove1_eq [OF d] set by auto
  have wf': "gate_wf (do_resume w (do_cancel w s))"
    using wf set' d unfolding eq gate_wf_def by (simp add: distinct_remove1)
  have "reserved (do_resume w (do_cancel w s)) = reserved s"
    using w(2) unfolding eq reserved_def by auto
  moreover have "waiters (gt s) \<noteq> []" using mem by auto
  moreover have "\<not> closed (gt s)" using wf mem unfolding gate_wf_def by auto
  ultimately have "gate_count 0 (do_resume w (do_cancel w s))"
    using count unfolding gate_count_def occupied_def eq by simp
  then show ?thesis using wf' by (simp add: gate_inv_def)
qed

lemma gate_inv_do_release:
  assumes inv: "gate_inv s"
  shows "gate_inv (do_release w s)"
proof (cases "w \<in> holding s")
  case True
  let ?s1 = "s\<lparr>holding := holding s - {w}\<rparr>"
  have wf: "gate_wf s" and count: "gate_count 0 s" using inv by (simp_all add: gate_inv_def)
  have fin: "finite (holding s)" using wf by (simp add: gate_wf_def)
  have wf1: "gate_wf ?s1" using wf unfolding gate_wf_def by simp
  have "card (holding s) = Suc (card (holding s - {w}))"
    by (rule card.remove [OF fin True])
  then have "occupied s = occupied ?s1 + 1" by (simp add: occupied_def reserved_def)
  then have "gate_count (0 + 1) ?s1" using count by (simp add: gate_count_def)
  then have "gate_count 0 (?s1\<lparr>gt := release_slot (gt ?s1)\<rparr>)"
    by (rule gate_count_release [OF wf1]) simp
  moreover have "do_release w s = ?s1\<lparr>gt := release_slot (gt ?s1)\<rparr>"
    using True by (simp add: do_release_def)
  ultimately show ?thesis using gate_wf_release [OF wf1] by (simp add: gate_inv_def)
qed (simp add: do_release_def inv)

lemma gate_inv_close:
  assumes inv: "gate_inv s"
  shows "gate_inv (do_close s)"
proof (cases "closed (gt s)")
  case False
  have wf: "gate_wf s" and count: "gate_count 0 s" using inv by (simp_all add: gate_inv_def)
  have set: "set (waiters (gt s)) = {w. suspended s w \<noteq> None \<and> futs (gt s) w = Pending}"
    using wf unfolding gate_wf_def by blast
  let ?f = "\<lambda>w. if w \<in> set (waiters (gt s)) \<and> futs (gt s) w = Pending
    then Failed FitzConnectionError else futs (gt s) w"
  have none: "suspended s v \<noteq> None \<Longrightarrow> ?f v \<noteq> Pending" for v using set by auto
  have eq: "do_close s = s\<lparr>gt := (gt s)\<lparr>closed := True, waiters := [], futs := ?f\<rparr>\<rparr>"
    using False by (simp add: do_close_def gate_close_def)
  have empty: "{} = {v. suspended s v \<noteq> None \<and> ?f v = Pending}" using none by blast
  have wf': "gate_wf (do_close s)"
    using wf empty unfolding eq gate_wf_def by simp
  have "reserved (do_close s) = reserved s"
    unfolding eq reserved_def by auto
  then have "gate_count 0 (do_close s)"
    using count unfolding gate_count_def occupied_def by (simp add: eq)
  then show ?thesis using wf' by (simp add: gate_inv_def)
qed (simp add: do_close_def gate_close_def inv)

lemma gate_inv_step: "gate_step False s s' \<Longrightarrow> gate_inv s \<Longrightarrow> gate_inv s'"
  by (induction rule: gate_step.induct)
    (blast intro: gate_inv_acquire gate_inv_resume gate_inv_do_release gate_inv_close
       gate_inv_cancel_done gate_inv_cancel_now)+

lemma gate_inv_reach: "gate_reach False m q s \<Longrightarrow> 0 \<le> m \<Longrightarrow> gate_inv s"
  by (induction rule: gate_reach.induct) (blast intro: gate_inv_start gate_inv_step)+

section \<open>What the gate guarantees\<close>

lemma gate_step_maximum: "gate_step window s s' \<Longrightarrow> maximum (gt s') = maximum (gt s)"
  by (induction rule: gate_step.induct)
    (auto simp: do_acquire_def gate_acquire_def do_resume_def gate_resume_def do_cancel_def
       do_release_def do_close_def gate_close_def release_slot_fields Let_def
       split: option.split)

lemma gate_reach_maximum: "gate_reach window m q s \<Longrightarrow> maximum (gt s) = m"
  by (induction rule: gate_reach.induct)
    (simp_all add: new_gsys_def new_gate_def gate_step_maximum)

text \<open>Arrival order: the waiters are always in the order of their calls.\<close>

lemma release_loop_sorted:
  "sorted_wrt (<) ws \<Longrightarrow> sorted_wrt (<) (waiters (release_loop ws g))"
  by (induction ws arbitrary: g) auto

lemma gate_sorted_step:
  assumes "gate_step False s s'" "gate_inv s" "sorted_wrt (<) (waiters (gt s))"
  shows "sorted_wrt (<) (waiters (gt s'))"
  using assms
proof (cases rule: gate_step.cases)
  case acquire
  have "w \<in> set (waiters (gt s)) \<Longrightarrow> w < ticket s" for w
    using assms(2) unfolding gate_inv_def gate_wf_def by blast
  then show ?thesis using assms(3) acquire
    by (simp add: do_acquire_cases sorted_wrt_append split: admission.split)
next
  case (resume w)
  then show ?thesis using assms(3) resume_leaves(4) [OF assms(2) resume(2,3)]
    by (simp add: do_resume_outcome Let_def release_slot_def release_loop_sorted)
next
  case (cancel_now w)
  then show ?thesis using assms(3)
    by (simp add: do_resume_def do_cancel_def gate_resume_def awaited_def release_slot_def
        release_loop_sorted sorted_wrt_remove1 Let_def)
qed (auto simp: do_release_def do_close_def gate_close_def do_cancel_def release_slot_def
       release_loop_sorted)

lemma gate_reach_sorted:
  "gate_reach False m q s \<Longrightarrow> 0 \<le> m \<Longrightarrow> sorted_wrt (<) (waiters (gt s))"
proof (induction rule: gate_reach.induct)
  case start
  show ?case by (simp add: new_gsys_def new_gate_def)
next
  case (step s s')
  then show ?case using gate_sorted_step [OF step.hyps(2)] gate_inv_reach [OF step.hyps(1)] by blast
qed

text \<open>
  C6. When a cancelled caller is resumed before anything else runs, the number of admitted callers
  never exceeds the maximum, the open gate counts the admitted and reserved slots exactly, and
  somebody waits only while all slots are taken.
\<close>

lemma gate_capacity:
  assumes "0 \<le> m" "gate_reach False m q s"
  shows "int (card (holding s)) \<le> m \<and>
    (\<not> closed (gt s) \<longrightarrow> active (gt s) = occupied s \<and> occupied s \<le> m) \<and>
    (waiters (gt s) \<noteq> [] \<longrightarrow> occupied s = m)"
proof -
  have wf: "gate_wf s" and count: "gate_count 0 s" and m: "maximum (gt s) = m"
    using gate_inv_reach [OF assms(2,1)] gate_reach_maximum [OF assms(2)]
    by (simp_all add: gate_inv_def)
  have "int (card (holding s)) \<le> occupied s" by (simp add: occupied_def)
  moreover have "waiters (gt s) \<noteq> [] \<Longrightarrow> \<not> closed (gt s)" using wf unfolding gate_wf_def by blast
  ultimately show ?thesis using count m unfolding gate_count_def by auto
qed

lemma gate_capacity_witness:
  "int (card (holding (do_acquire (do_acquire (new_gsys 1 1))))) \<le> 1"
proof -
  have "gate_reach False 1 1 (do_acquire (do_acquire (new_gsys 1 1)))"
    by (intro reach_acquire gate_reach.start)
  from gate_capacity [OF _ this] show ?thesis by simp
qed

text \<open>
  A released slot goes to the oldest waiting caller, and a newcomer cannot overtake the
  waiting ones.
\<close>

lemma gate_fifo:
  assumes "0 \<le> m" "gate_reach False m q s" "waiters (gt s) = w # ws"
  shows "futs (gt (s\<lparr>gt := release_slot (gt s)\<rparr>)) = (futs (gt s))(w := Granted) \<and>
    futs (gt s) w = Pending \<and>
    (\<forall>v. suspended s v \<noteq> None \<and> futs (gt s) v = Pending \<longrightarrow> w \<le> v) \<and>
    holding (do_acquire s) = holding s"
proof -
  have wf: "gate_wf s" using gate_inv_reach [OF assms(2,1)] by (simp add: gate_inv_def)
  note h = gate_wf_head [OF wf assms(3)]
  have "sorted_wrt (<) (w # ws)" using gate_reach_sorted [OF assms(2,1)] assms(3) by simp
  moreover have "set (w # ws) = {w. suspended s w \<noteq> None \<and> futs (gt s) w = Pending}"
    using wf assms(3) unfolding gate_wf_def by simp
  ultimately have "suspended s v \<noteq> None \<Longrightarrow> futs (gt s) v = Pending \<Longrightarrow> w \<le> v" for v
    by (metis (mono_tags, lifting) mem_Collect_eq less_imp_le order_refl set_ConsD sorted_wrt.simps(2))
  moreover have "holding (do_acquire s) = holding s"
    using assms(3) gate_acquire_Admitted [of "ticket s" "gt s"]
    by (simp add: do_acquire_cases split: admission.split)
  ultimately show ?thesis using h assms(3) by (simp add: release_slot_Cons)
qed

definition gate_full :: gsys where
  "gate_full = do_acquire (do_acquire (new_gsys 1 1))"

lemma gate_fifo_witness:
  "waiters (gt gate_full) = [1] \<and> futs (gt gate_full) 1 = Pending"
proof -
  have w: "waiters (gt gate_full) = [1]" by code_simp
  have "gate_reach False 1 1 gate_full"
    unfolding gate_full_def by (intro reach_acquire gate_reach.start)
  from gate_fifo [OF _ this w] w show ?thesis by simp
qed

text \<open>
  Closing the gate wakes every waiting caller without admitting it, and admits nobody
  afterwards.
\<close>

lemma gate_close_wakes:
  assumes "0 \<le> m" "gate_reach False m q s" "suspended s w \<noteq> None"
  shows "futs (gt (do_close s)) w \<noteq> Pending \<and>
    holding (do_resume w (do_close s)) = holding s \<and>
    holding (do_acquire (do_close s)) = holding s"
proof -
  have inv: "gate_inv (do_close s)"
    by (rule gate_inv_close [OF gate_inv_reach [OF assms(2,1)]])
  have c: "closed (gt (do_close s))" by (simp add: do_close_def gate_close_def)
  have s: "suspended (do_close s) w \<noteq> None" "holding (do_close s) = holding s"
    using assms(3) by (simp_all add: do_close_def)
  have p: "futs (gt (do_close s)) w \<noteq> Pending"
    using inv c s(1) unfolding gate_inv_def gate_wf_def by auto
  have "holding (do_resume w (do_close s)) = holding s"
    using do_resume_outcome [OF resume_leaves(4) [OF inv s(1) p]] c s(2) by (simp add: Let_def)
  moreover have "holding (do_acquire (do_close s)) = holding s"
    using c s(2) by (simp add: do_acquire_def gate_acquire_def)
  ultimately show ?thesis using p by simp
qed

lemma gate_close_wakes_witness: "futs (gt (do_close gate_full)) 1 \<noteq> Pending"
proof -
  have "suspended gate_full 1 \<noteq> None" by code_simp
  moreover have "gate_reach False 1 1 gate_full"
    unfolding gate_full_def by (intro reach_acquire gate_reach.start)
  ultimately show ?thesis using gate_close_wakes [of 1 1 gate_full 1] by simp
qed

definition window_run :: gsys where
  "window_run =
     do_acquire (do_acquire (do_resume 2 (do_release 0 (do_cancel 2
       (do_acquire (do_acquire (do_acquire (new_gsys 2 1))))))))"

definition window_wait :: gsys where
  "window_wait = do_acquire (do_acquire (do_acquire (new_gsys 2 1)))"

text \<open>
  When other callers run between the cancellation of a waiting caller and its resumption, the
  gate of two slots admits three callers at once.
\<close>

lemma gate_window_overflow:
  "gate_reach True 2 1 window_run \<and> maximum (gt window_run) = 2 \<and>
   holding window_run = {4, 3, 1}"
proof -
  let ?w = window_wait
  let ?r = "do_release 0 (do_cancel 2 ?w)"
  have run: "window_run = do_acquire (do_acquire (do_resume 2 ?r))"
    by (simp add: window_run_def window_wait_def)
  have "gate_reach True 2 1 ?w"
    unfolding window_wait_def by (intro reach_acquire gate_reach.start)
  moreover have "suspended ?w 2 \<noteq> None" by code_simp
  moreover have "futs (gt ?w) 2 = Pending" by code_simp
  ultimately have "gate_reach True 2 1 (do_cancel 2 ?w)"
    by (blast intro: gate_reach.step cancel_later)
  then have "gate_reach True 2 1 ?r" by (rule gate_reach.step [OF _ gate_step.release])
  moreover have "suspended ?r 2 \<noteq> None" by code_simp
  moreover have "futs (gt ?r) 2 \<noteq> Pending" by code_simp
  ultimately have "gate_reach True 2 1 (do_resume 2 ?r)"
    by (blast intro: gate_reach.step resume)
  then have "gate_reach True 2 1 window_run"
    unfolding run by (intro reach_acquire)
  moreover have "maximum (gt window_run) = 2" by code_simp
  moreover have "holding window_run = {4, 3, 1}" by code_simp
  ultimately show ?thesis by blast
qed

end
