(* ===== verification/Dispatcher.thy ===== *)
theory Dispatcher
  imports Errors
begin

text \<open>
  \<open>_runtime.AsyncDispatcher\<close>: callbacks run as tasks, at most \<open>maximum\<close> at a time, and wait in
  a bounded queue otherwise. A unit of work is a value of the type variable; a task is a
  number and the work it runs. \<open>d_started\<close> and \<open>d_reported\<close> record the calls of
  \<open>create_task\<close> and of \<open>on_error\<close>.
\<close>

record 'w dispatcher =
  d_maximum :: int
  d_queue_size :: int
  d_active :: "(nat \<times> 'w) list"
  d_queued :: "'w list"
  d_closed :: bool
  d_next :: nat
  d_started :: "'w list"
  d_reported :: "exn list"

definition new_dispatcher :: "int \<Rightarrow> int \<Rightarrow> 'w dispatcher" where
  "new_dispatcher m q = \<lparr>d_maximum = m, d_queue_size = q, d_active = [], d_queued = [],
     d_closed = False, d_next = 0, d_started = [], d_reported = []\<rparr>"

definition start_work :: "'w \<Rightarrow> 'w dispatcher \<Rightarrow> 'w dispatcher" where
  "start_work w d =
     d\<lparr>d_active := d_active d @ [(d_next d, w)], d_next := Suc (d_next d),
       d_started := d_started d @ [w]\<rparr>"

definition dispatch :: "'w \<Rightarrow> 'w dispatcher \<Rightarrow> bool \<times> 'w dispatcher" where
  "dispatch w d =
     (if d_closed d then (False, d)
      else if int (length (d_active d)) < d_maximum d then (True, start_work w d)
      else if int (length (d_queued d)) \<ge> d_queue_size d then (False, d)
      else (True, d\<lparr>d_queued := d_queued d @ [w]\<rparr>))"

text \<open>
  \<open>_run\<close>: \<open>outcome\<close> is what \<open>await work()\<close> raised under the timeout, if anything
  (\<open>PyTimeoutError\<close> when the limit expired). Only a cancellation is swallowed.
\<close>

definition run_work :: "exn option \<Rightarrow> 'w dispatcher \<Rightarrow> 'w dispatcher" where
  "run_work outcome d =
     (case outcome of
        None \<Rightarrow> d
      | Some e \<Rightarrow> if e = CancelledError then d else d\<lparr>d_reported := d_reported d @ [e]\<rparr>)"

definition completed :: "nat \<Rightarrow> 'w dispatcher \<Rightarrow> 'w dispatcher" where
  "completed t d =
     (let d' = d\<lparr>d_active := filter (\<lambda>p. fst p \<noteq> t) (d_active d)\<rparr>
      in if \<not> d_closed d' \<and> d_queued d' \<noteq> []
         then start_work (hd (d_queued d')) (d'\<lparr>d_queued := tl (d_queued d')\<rparr>)
         else d')"

text \<open>\<open>close\<close> up to its \<open>gather\<close>; the cancelled tasks then end through \<open>completed\<close>.\<close>

definition close_dispatcher :: "'w dispatcher \<Rightarrow> 'w dispatcher" where
  "close_dispatcher d = d\<lparr>d_closed := True, d_queued := []\<rparr>"

text \<open>The list holds the work \<open>dispatch\<close> accepted, in the order of the calls.\<close>

inductive disp_reach :: "int \<Rightarrow> int \<Rightarrow> 'w list \<Rightarrow> 'w dispatcher \<Rightarrow> bool" for m q where
  start: "disp_reach m q [] (new_dispatcher m q)"
| accept: "disp_reach m q ws d \<Longrightarrow> dispatch w d = (True, d') \<Longrightarrow> disp_reach m q (ws @ [w]) d'"
| refuse: "disp_reach m q ws d \<Longrightarrow> dispatch w d = (False, d') \<Longrightarrow> disp_reach m q ws d'"
| finish: "disp_reach m q ws d \<Longrightarrow> t \<in> fst ` set (d_active d) \<Longrightarrow>
    disp_reach m q ws (completed t (run_work outcome d))"
| close: "disp_reach m q ws d \<Longrightarrow> disp_reach m q ws (close_dispatcher d)"

inductive_cases disp_reachE: "disp_reach m q ws d"

section \<open>The invariant\<close>

definition disp_inv :: "'w list \<Rightarrow> 'w dispatcher \<Rightarrow> bool" where
  "disp_inv ws d \<longleftrightarrow>
     distinct (map fst (d_active d)) \<and> (\<forall>p\<in>set (d_active d). fst p < d_next d) \<and>
     int (length (d_active d)) \<le> d_maximum d \<and>
     int (length (d_queued d)) \<le> d_queue_size d \<and>
     (d_queued d \<noteq> [] \<longrightarrow> int (length (d_active d)) = d_maximum d \<and> \<not> d_closed d) \<and>
     (if d_closed d then \<exists>lost. ws = d_started d @ lost else ws = d_started d @ d_queued d)"

lemma disp_inv_start: "0 \<le> m \<Longrightarrow> 0 \<le> q \<Longrightarrow> disp_inv [] (new_dispatcher m q)"
  by (simp add: disp_inv_def new_dispatcher_def)

lemma disp_inv_dispatch:
  assumes "disp_inv ws d"
  shows "disp_inv (if fst (dispatch w d) then ws @ [w] else ws) (snd (dispatch w d))"
proof -
  consider "d_closed d" | "\<not> d_closed d" "int (length (d_active d)) < d_maximum d"
    | "\<not> d_closed d" "\<not> int (length (d_active d)) < d_maximum d"
        "int (length (d_queued d)) \<ge> d_queue_size d"
    | "\<not> d_closed d" "\<not> int (length (d_active d)) < d_maximum d"
        "\<not> int (length (d_queued d)) \<ge> d_queue_size d"
    by blast
  then show ?thesis
  proof cases
    case 2
    then have "d_queued d = []" using assms by (auto simp: disp_inv_def)
    then show ?thesis using assms 2
      by (auto simp: disp_inv_def dispatch_def start_work_def less_Suc_eq)
  qed (use assms in \<open>auto simp: disp_inv_def dispatch_def\<close>)
qed

lemma run_work_fields [simp]:
  "d_active (run_work e d) = d_active d" "d_queued (run_work e d) = d_queued d"
  "d_closed (run_work e d) = d_closed d" "d_started (run_work e d) = d_started d"
  "d_maximum (run_work e d) = d_maximum d" "d_queue_size (run_work e d) = d_queue_size d"
  "d_next (run_work e d) = d_next d"
  by (simp_all add: run_work_def split: option.split)

lemma disp_inv_run_work: "disp_inv ws (run_work e d) = disp_inv ws d"
  by (simp add: disp_inv_def)

lemma length_filter_key:
  assumes "distinct (map fst ps)" "t \<in> fst ` set ps"
  shows "Suc (length (filter (\<lambda>p. fst p \<noteq> t) ps)) = length ps"
  using assms
proof (induction ps)
  case (Cons p ps)
  show ?case
  proof (cases "fst p = t")
    case True
    then have "filter (\<lambda>p. fst p \<noteq> t) ps = ps"
      using Cons.prems(1) by (auto simp: filter_id_conv image_iff)
    then show ?thesis using True by simp
  qed (use Cons in auto)
qed simp

lemma disp_inv_completed:
  assumes inv: "disp_inv ws d" and t: "t \<in> fst ` set (d_active d)"
  shows "disp_inv ws (completed t d)"
proof -
  let ?a = "filter (\<lambda>p. fst p \<noteq> t) (d_active d)"
  have d: "distinct (map fst (d_active d))" using inv by (simp add: disp_inv_def)
  have len: "Suc (length ?a) = length (d_active d)" by (rule length_filter_key [OF d t])
  have a: "distinct (map fst ?a)" using d by (simp add: distinct_map_filter)
  show ?thesis
  proof (cases "d_closed d \<or> d_queued d = []")
    case True
    then have "completed t d = d\<lparr>d_active := ?a\<rparr>" by (auto simp: completed_def)
    then show ?thesis using inv a len True by (auto simp: disp_inv_def)
  next
    case False
    then obtain w ws' where q: "d_queued d = w # ws'" by (cases "d_queued d") auto
    then have "completed t d = start_work w (d\<lparr>d_active := ?a, d_queued := ws'\<rparr>)"
      using False by (simp add: completed_def)
    then show ?thesis using inv a len False q
      by (auto simp: disp_inv_def start_work_def less_Suc_eq)
  qed
qed

lemma disp_inv_reach: "disp_reach m q ws d \<Longrightarrow> 0 \<le> m \<Longrightarrow> 0 \<le> q \<Longrightarrow> disp_inv ws d"
proof (induction rule: disp_reach.induct)
  case start
  then show ?case by (simp add: disp_inv_start)
next
  case (accept ws d w d')
  then show ?case using disp_inv_dispatch [of ws d w] by simp
next
  case (refuse ws d w d')
  then show ?case using disp_inv_dispatch [of ws d w] by simp
next
  case (finish ws d t outcome)
  then show ?case by (intro disp_inv_completed) (simp_all add: disp_inv_run_work)
next
  case (close ws d)
  then show ?case by (auto simp: disp_inv_def close_dispatcher_def split: if_splits)
qed

lemma dispatch_fixed [simp]:
  "d_maximum (snd (dispatch w d)) = d_maximum d" "d_queue_size (snd (dispatch w d)) = d_queue_size d"
  "d_maximum (completed t d) = d_maximum d" "d_queue_size (completed t d) = d_queue_size d"
  "d_maximum (close_dispatcher d) = d_maximum d"
  "d_queue_size (close_dispatcher d) = d_queue_size d"
  by (simp_all add: dispatch_def completed_def close_dispatcher_def start_work_def Let_def)

lemma disp_reach_limits: "disp_reach m q ws d \<Longrightarrow> d_maximum d = m \<and> d_queue_size d = q"
proof (induction rule: disp_reach.induct)
  case (accept ws d w d')
  then show ?case using dispatch_fixed(1,2) [of w d] by simp
next
  case (refuse ws d w d')
  then show ?case using dispatch_fixed(1,2) [of w d] by simp
qed (simp_all add: new_dispatcher_def)

section \<open>What the dispatcher guarantees\<close>

text \<open>
  C36. The dispatcher never runs more than its concurrency nor queues more than its queue size,
  queues only while all workers run, and starts accepted work in order.
\<close>

lemma dispatcher_bounded_fifo:
  assumes "disp_reach m q ws d" "0 \<le> m" "0 \<le> q"
  shows "int (length (d_active d)) \<le> m \<and> int (length (d_queued d)) \<le> q \<and>
    (d_queued d \<noteq> [] \<longrightarrow> int (length (d_active d)) = m) \<and>
    (\<not> d_closed d \<longrightarrow> ws = d_started d @ d_queued d) \<and>
    (d_closed d \<longrightarrow> (\<exists>lost. ws = d_started d @ lost))"
  using disp_inv_reach [OF assms] disp_reach_limits [OF assms(1)] by (simp add: disp_inv_def)

definition two_dispatched :: "nat dispatcher" where
  "two_dispatched = snd (dispatch 8 (snd (dispatch 7 (new_dispatcher 1 1))))"

lemma two_dispatched_reach: "disp_reach 1 1 [7, 8] two_dispatched"
proof -
  have "disp_reach 1 1 ([] @ [7]) (snd (dispatch (7::nat) (new_dispatcher 1 1)))"
    by (rule disp_reach.accept [OF disp_reach.start])
      (simp add: dispatch_def new_dispatcher_def start_work_def)
  then have "disp_reach 1 1 (([] @ [7]) @ [8]) two_dispatched"
    by (rule disp_reach.accept)
      (simp add: two_dispatched_def dispatch_def new_dispatcher_def start_work_def)
  then show ?thesis by simp
qed

lemma dispatcher_bounded_fifo_witness:
  "d_queued two_dispatched = [8] \<and> int (length (d_active two_dispatched)) \<le> 1"
proof -
  have "d_queued two_dispatched = [8]"
    by (simp add: two_dispatched_def dispatch_def new_dispatcher_def start_work_def)
  then show ?thesis using dispatcher_bounded_fifo [OF two_dispatched_reach] by simp
qed

end
