(* ===== verification/Subscription.thy ===== *)
theory Subscription
  imports Errors "HOL-Library.Sublist"
begin

text \<open>
  \<open>_runtime.AsyncSubscription\<close>: the bounded local queue between the connection's reader and
  one consumer. \<open>s_observed\<close> and \<open>s_failures\<close> record what the optional callbacks \<open>on_push\<close>
  and \<open>on_failure\<close> are given. The detailed queue, whose entries are items, errors and the end
  marker, implements the four phases of \<open>phase\<close>.
\<close>

datatype 'a entry = Item 'a | Err exn | End_marker

record 'a asub =
  s_capacity :: int
  s_queue :: "'a entry list"
  s_closed :: bool
  s_wire_closed :: bool
  s_observed :: "'a list"
  s_failures :: "exn list"

definition new_sub :: "int \<Rightarrow> 'a asub" where
  "new_sub c = \<lparr>s_capacity = c, s_queue = [], s_closed = False, s_wire_closed = False,
     s_observed = [], s_failures = []\<rparr>"

text \<open>\<open>asyncio.Queue\<close> is unbounded for a size that is not positive.\<close>

definition queue_full :: "'a asub \<Rightarrow> bool" where
  "queue_full s \<longleftrightarrow> 0 < s_capacity s \<and> s_capacity s \<le> int (length (s_queue s))"

definition sub_fail :: "exn \<Rightarrow> 'a asub \<Rightarrow> 'a asub" where
  "sub_fail e s =
     (if s_closed s then s
      else s\<lparr>s_failures := s_failures s @ [e], s_closed := True, s_queue := [Err e]\<rparr>)"

definition sub_finish :: "'a asub \<Rightarrow> 'a asub" where
  "sub_finish s = (if s_closed s then s else s\<lparr>s_closed := True, s_queue := [End_marker]\<rparr>)"

definition push :: "'a \<Rightarrow> 'a asub \<Rightarrow> bool \<times> 'a asub" where
  "push x s =
     (if s_closed s then (False, s)
      else let s = s\<lparr>s_observed := s_observed s @ [x]\<rparr>
           in if queue_full s then (False, sub_fail SubscriptionBackpressureError s)
              else (True, s\<lparr>s_queue := s_queue s @ [Item x]\<rparr>))"

text \<open>\<open>__anext__\<close>: on an empty open queue the consumer stays suspended.\<close>

datatype 'a awaited_item = Suspended | Yields 'a | Raises exn

definition sub_next :: "'a asub \<Rightarrow> 'a awaited_item \<times> 'a asub" where
  "sub_next s =
     (if s_closed s \<and> s_queue s = [] then (Raises StopAsyncIteration, s)
      else case s_queue s of
             [] \<Rightarrow> (Suspended, s)
           | Item x # q \<Rightarrow> (Yields x, s\<lparr>s_queue := q\<rparr>)
           | End_marker # q \<Rightarrow> (Raises StopAsyncIteration, s\<lparr>s_queue := q\<rparr>)
           | Err e # q \<Rightarrow> (Raises e, s\<lparr>s_queue := q, s_closed := True\<rparr>))"

text \<open>
  \<open>aclose\<close>: the first call decides to close the wire subscription; the second half runs when
  that await returned or raised.
\<close>

definition aclose_enter :: "'a asub \<Rightarrow> bool \<times> 'a asub" where
  "aclose_enter s = (if s_wire_closed s then (False, s) else (True, s\<lparr>s_wire_closed := True\<rparr>))"

definition aclose_leave :: "'a asub \<Rightarrow> 'a asub" where
  "aclose_leave s = sub_finish s"

section \<open>The contract\<close>

datatype 'a phase = Live "'a list" | Failing exn | Ending | Over

datatype 'a sub_op = Push 'a | Fail exn | Finish | Next

datatype 'a sub_answer = Pushed bool | Done | Got "'a awaited_item"

fun sub_exec :: "'a sub_op \<Rightarrow> 'a asub \<Rightarrow> 'a sub_answer \<times> 'a asub" where
  "sub_exec (Push x) s = apfst Pushed (push x s)"
| "sub_exec (Fail e) s = (Done, sub_fail e s)"
| "sub_exec Finish s = (Done, sub_finish s)"
| "sub_exec Next s = apfst Got (sub_next s)"

fun phase_exec :: "int \<Rightarrow> 'a sub_op \<Rightarrow> 'a phase \<Rightarrow> 'a sub_answer \<times> 'a phase" where
  "phase_exec c (Push x) (Live xs) =
     (if 0 < c \<and> c \<le> int (length xs) then (Pushed False, Failing SubscriptionBackpressureError)
      else (Pushed True, Live (xs @ [x])))"
| "phase_exec c (Push x) p = (Pushed False, p)"
| "phase_exec c (Fail e) (Live xs) = (Done, Failing e)"
| "phase_exec c (Fail e) p = (Done, p)"
| "phase_exec c Finish (Live xs) = (Done, Ending)"
| "phase_exec c Finish p = (Done, p)"
| "phase_exec c Next (Live []) = (Got Suspended, Live [])"
| "phase_exec c Next (Live (x # xs)) = (Got (Yields x), Live xs)"
| "phase_exec c Next (Failing e) = (Got (Raises e), Over)"
| "phase_exec c Next Ending = (Got (Raises StopAsyncIteration), Over)"
| "phase_exec c Next Over = (Got (Raises StopAsyncIteration), Over)"

fun item_of :: "'a entry \<Rightarrow> 'a list" where
  "item_of (Item x) = [x]"
| "item_of _ = []"

definition phase_of :: "'a asub \<Rightarrow> 'a phase" where
  "phase_of s =
     (if s_closed s then
        (case s_queue s of [] \<Rightarrow> Over | Err e # q \<Rightarrow> Failing e | _ \<Rightarrow> Ending)
      else Live (concat (map item_of (s_queue s))))"

definition sub_inv :: "int \<Rightarrow> 'a asub \<Rightarrow> bool" where
  "sub_inv c s \<longleftrightarrow> s_capacity s = c \<and>
     (if s_closed s then s_queue s = [] \<or> s_queue s = [End_marker] \<or> (\<exists>e. s_queue s = [Err e])
      else (\<exists>xs. s_queue s = map Item xs \<and> (0 < c \<longrightarrow> int (length xs) \<le> c)))"

lemma item_of_Item [simp]: "concat (map (item_of \<circ> Item) xs) = xs"
  by (induction xs) auto

lemma sub_inv_cases [consumes 1, case_names open_ over ending failing]:
  assumes "sub_inv c s"
  obtains xs where "\<not> s_closed s" "s_queue s = map Item xs" "s_capacity s = c"
      "0 < c \<longrightarrow> int (length xs) \<le> c"
  | "s_closed s" "s_queue s = []" "s_capacity s = c"
  | "s_closed s" "s_queue s = [End_marker]" "s_capacity s = c"
  | e where "s_closed s" "s_queue s = [Err e]" "s_capacity s = c"
  using assms unfolding sub_inv_def by (cases "s_closed s") auto

lemmas sub_defs = push_def sub_fail_def sub_finish_def sub_next_def queue_full_def phase_of_def
  Let_def

lemma sub_inv_exec: "sub_inv c s \<Longrightarrow> sub_inv c (snd (sub_exec op s))"
proof (induction rule: sub_inv_cases)
  case (open_ xs)
  show ?case
  proof (cases op)
    case (Push x)
    have "map Item xs @ [Item x] = map Item (xs @ [x])" by simp
    then show ?thesis using open_ Push by (auto simp: sub_inv_def sub_defs simp del: map_append)
  next
    case Next
    then show ?thesis using open_ by (cases xs) (auto simp: sub_inv_def sub_defs)
  qed (use open_ in \<open>auto simp: sub_inv_def sub_defs\<close>)
qed (cases op; simp add: sub_inv_def sub_defs)+

lemma phase_of_open [simp]:
  "\<not> s_closed s \<Longrightarrow> s_queue s = map Item xs \<Longrightarrow> phase_of s = Live xs"
  by (simp add: phase_of_def)

lemma sub_simulates:
  "sub_inv c s \<Longrightarrow> phase_exec c op (phase_of s) = apsnd phase_of (sub_exec op s)"
proof (induction rule: sub_inv_cases)
  case (open_ xs)
  show ?case
  proof (cases op)
    case (Push x)
    show ?thesis
    proof (cases "0 < c \<and> c \<le> int (length xs)")
      case True
      then show ?thesis using open_ Push by (simp add: sub_defs)
    next
      case False
      then show ?thesis using open_ Push by (simp add: sub_defs)
    qed
  next
    case Next
    then show ?thesis using open_ by (cases xs) (simp_all add: sub_defs)
  qed (use open_ in \<open>simp_all add: sub_defs\<close>)
qed (cases op; simp add: sub_defs)+

interpretation subq: data_refinement "sub_inv c" phase_of sub_exec "phase_exec c" for c
  by unfold_locales (simp_all only: sub_inv_exec sub_simulates)

lemma sub_inv_new [simp]: "sub_inv c (new_sub c)" and phase_of_new [simp]: "phase_of (new_sub c) = Live []"
  by (simp_all add: sub_inv_def new_sub_def phase_of_def)

section \<open>What a consumer sees\<close>

fun accepted :: "'a sub_op list \<Rightarrow> 'a sub_answer list \<Rightarrow> 'a list" where
  "accepted (Push x # as) (Pushed True # rs) = x # accepted as rs"
| "accepted (a # as) (r # rs) = accepted as rs"
| "accepted _ _ = []"

fun yielded :: "'a sub_answer list \<Rightarrow> 'a list" where
  "yielded [] = []"
| "yielded (Got (Yields x) # rs) = x # yielded rs"
| "yielded (r # rs) = yielded rs"

fun backlog :: "'a phase \<Rightarrow> 'a list" where
  "backlog (Live xs) = xs"
| "backlog _ = []"

definition ended :: "'a phase \<Rightarrow> bool" where
  "ended p \<longleftrightarrow> (case p of Live xs \<Rightarrow> False | _ \<Rightarrow> True)"

lemma ended_exec: "ended p \<Longrightarrow> ended (snd (phase_exec c a p)) \<and>
    yielded [fst (phase_exec c a p)] = []"
  by (cases p; cases a) (simp_all add: ended_def)

lemma yielded_Cons: "yielded (r # rs) = yielded [r] @ yielded rs"
proof (cases r)
  case (Got w)
  then show ?thesis by (cases w) auto
qed auto

lemma ended_yields: "ended p \<Longrightarrow> yielded (fst (exec_ops (phase_exec c) as p)) = []"
proof (induction as arbitrary: p)
  case (Cons a as)
  let ?r = "phase_exec c a p"
  have "fst (exec_ops (phase_exec c) (a # as) p) =
      fst ?r # fst (exec_ops (phase_exec c) as (snd ?r))"
    by (simp add: Let_def split_beta)
  then show ?case using ended_exec [OF Cons.prems, of c a] Cons.IH
    by (simp only: yielded_Cons [of _ "fst (exec_ops (phase_exec c) as (snd ?r))"]) simp
qed simp

lemma phase_delivery:
  "prefix (yielded (fst (exec_ops (phase_exec c) as p)))
     (backlog p @ accepted as (fst (exec_ops (phase_exec c) as p)))"
proof (induction as arbitrary: p)
  case (Cons a as)
  show ?case
  proof (cases p)
    case (Live xs)
    show ?thesis
    proof (cases a)
      case (Push x)
      show ?thesis using Cons.IH [of "Live (xs @ [x])"] Live Push
        by (auto simp: Let_def split_beta ended_yields ended_def)
    next
      case Next
      show ?thesis using Cons.IH [of "Live (tl xs)"] Live Next
        by (cases xs) (auto simp: Let_def split_beta)
    qed (simp_all add: Live Let_def split_beta ended_yields ended_def)
  qed (simp_all only: ended_yields ended_def phase.case, simp_all)
qed simp

lemma over_forever: "fst (exec_ops (phase_exec c) (replicate n Next) Over) =
    replicate n (Got (Raises StopAsyncIteration))"
  by (induction n) (simp_all add: Let_def split_beta)

section \<open>Properties\<close>

text \<open>
  C16. Every sequence of operations on a subscription gives the answers of the abstract queue with
  the phases live, failed, finished and closed.
\<close>

lemma subscription_refines:
  "fst (exec_ops sub_exec ops (new_sub c)) = fst (exec_ops (phase_exec c) ops (Live []))"
  using subq.run_answers [OF sub_inv_new] by simp

text \<open>
  What a consumer receives is a prefix of what was accepted for it, in order, without loss or
  repetition.
\<close>

lemma subscription_delivers_in_order:
  "prefix (yielded (fst (exec_ops sub_exec ops (new_sub c))))
     (accepted ops (fst (exec_ops sub_exec ops (new_sub c))))"
  unfolding subq.run_answers [OF sub_inv_new] using phase_delivery [of c ops "Live []"] by simp

text \<open>
  A failure drops the queue, is raised once, and afterwards the iteration ends.
\<close>

lemma subscription_failure_is_final:
  assumes "sub_inv c s" "\<not> s_closed s"
  shows "fst (exec_ops sub_exec (Fail e # replicate (Suc n) Next) s) =
    Done # Got (Raises e) # replicate n (Got (Raises StopAsyncIteration))"
proof -
  obtain xs where "phase_of s = Live xs" using assms by (simp add: phase_of_def)
  then show ?thesis unfolding subq.run_answers [OF assms(1)]
    by (simp add: Let_def split_beta over_forever)
qed

lemma subscription_failure_is_final_witness:
  "fst (exec_ops sub_exec [Fail (OtherException 1), Next, Next] (new_sub 2 :: nat asub)) =
    [Done, Got (Raises (OtherException 1)), Got (Raises StopAsyncIteration)]"
proof -
  have "\<not> s_closed (new_sub 2 :: nat asub)" by (simp add: new_sub_def)
  from subscription_failure_is_final [OF sub_inv_new this, of "OtherException 1" 1] show ?thesis
    by (simp add: numeral_eq_Suc)
qed

end
