(* ===== verification/Registry.thy ===== *)
theory Registry
  imports Subscription "HOL-Library.AList"
begin

text \<open>
  \<open>domains/_subscriptions.SubscriptionRegistry\<close>: one wire subscription per registration,
  shared by any number of consumers. Wire subscriptions and consumers are objects the code
  aliases, so both live in stores and the tables hold their numbers. The dictionary
  \<open>_by_registration\<close> keeps its insertion order. What an \<open>await\<close> of the wire answered is an
  argument of the operation; the operations are split at those awaits.
\<close>

section \<open>Telling every consumer\<close>

text \<open>Give each object its share of an operation; those that answer False are returned.\<close>

fun broadcast :: "('s \<Rightarrow> bool \<times> 's) \<Rightarrow> nat list \<Rightarrow> (nat \<Rightarrow> 's) \<Rightarrow> nat list \<times> (nat \<Rightarrow> 's)" where
  "broadcast f [] st = ([], st)"
| "broadcast f (c # cs) st =
     (let (ok, s) = f (st c); (dead, st') = broadcast f cs (st(c := s))
      in (if ok then dead else c # dead, st'))"

lemma broadcast_store:
  "distinct cs \<Longrightarrow> snd (broadcast f cs st) = (\<lambda>c. if c \<in> set cs then snd (f (st c)) else st c)"
  by (induction cs arbitrary: st) (auto simp: Let_def split_beta)

lemma broadcast_dead:
  "distinct cs \<Longrightarrow> fst (broadcast f cs st) = filter (\<lambda>c. \<not> fst (f (st c))) cs"
proof (induction cs arbitrary: st)
  case (Cons c cs)
  have "filter (\<lambda>d. \<not> fst (f ((st(c := s)) d))) cs = filter (\<lambda>d. \<not> fst (f (st d))) cs" for s
    using Cons.prems by (intro filter_cong) auto
  then show ?case using Cons by (auto simp: Let_def split_beta)
qed simp

text \<open>What the registry relies on of a consumer.\<close>

locale consumer =
  fixes give :: "'x \<Rightarrow> 's \<Rightarrow> bool \<times> 's" and shut :: "'s \<Rightarrow> bool"
  assumes give_shut: "shut s \<Longrightarrow> give x s = (False, s)"
    and give_refused: "\<not> fst (give x s) \<Longrightarrow> shut (snd (give x s))"
    and give_accepted: "fst (give x s) \<Longrightarrow> \<not> shut (snd (give x s))"
begin

lemma broadcast_survivors:
  assumes "distinct cs"
  shows "set cs - set (fst (broadcast (give x) cs st)) =
    {c \<in> set cs. \<not> shut (snd (broadcast (give x) cs st) c)}"
  using give_refused give_accepted by (auto simp: broadcast_store broadcast_dead assms)

lemma broadcast_dead_shut:
  "distinct cs \<Longrightarrow> c \<in> set (fst (broadcast (give x) cs st)) \<Longrightarrow>
   shut (snd (broadcast (give x) cs st) c)"
  using give_refused by (auto simp: broadcast_store broadcast_dead)

lemma broadcast_shut_same:
  "distinct cs \<Longrightarrow> shut (st c) \<Longrightarrow> snd (broadcast (give x) cs st) c = st c"
  using give_shut by (simp add: broadcast_store)

end

lemma push_cases:
  "push x s = (False, s) \<and> s_closed s \<or>
   \<not> fst (push x s) \<and> \<not> s_closed s \<and> s_closed (snd (push x s)) \<or>
   fst (push x s) \<and> \<not> s_closed s \<and> \<not> s_closed (snd (push x s))"
  by (cases "s_closed s"; cases "queue_full (s\<lparr>s_observed := s_observed s @ [x]\<rparr>)")
    (simp_all add: push_def sub_fail_def Let_def)

interpretation subs: consumer push s_closed
proof
  fix x :: 'a and s :: "'a asub"
  show "s_closed s \<Longrightarrow> push x s = (False, s)" using push_cases [of x s] by auto
  show "\<not> fst (push x s) \<Longrightarrow> s_closed (snd (push x s))" using push_cases [of x s] by auto
  show "fst (push x s) \<Longrightarrow> \<not> s_closed (snd (push x s))" using push_cases [of x s] by auto
qed

section \<open>State\<close>

record wire =
  sub_id :: int
  consumers :: "nat list"

record 'a registry =
  r_capacity :: nat
  by_registration :: "(ustr \<times> nat) list"
  by_id :: "int \<rightharpoonup> ustr"
  wires :: "nat \<Rightarrow> wire"
  subs :: "nat \<Rightarrow> 'a asub"
  pending :: "(int \<times> 'a) list"
  cleanups :: "nat list"
  next_ref :: nat

definition new_registry :: "nat \<Rightarrow> 'a registry" where
  "new_registry c = \<lparr>r_capacity = c, by_registration = [], by_id = Map.empty,
     wires = (\<lambda>_. \<lparr>sub_id = 0, consumers = []\<rparr>), subs = (\<lambda>_. new_sub (int c)), pending = [],
     cleanups = [], next_ref = 0\<rparr>"

text \<open>\<open>deque(maxlen=c)\<close>: appending to a full one drops the oldest entry.\<close>

definition deque_append :: "nat \<Rightarrow> 'b \<Rightarrow> 'b list \<Rightarrow> 'b list" where
  "deque_append c x q = (let q' = q @ [x] in drop (length q' - c) q')"

section \<open>Operations\<close>

text \<open>\<open>_flush_pending\<close>: here the answers of \<open>push\<close> are ignored.\<close>

fun flush_loop :: "nat \<Rightarrow> int \<Rightarrow> nat list \<Rightarrow> (int \<times> 'a) list \<Rightarrow> (int \<times> 'a) list \<Rightarrow> (nat \<Rightarrow> 'a asub)
    \<Rightarrow> (int \<times> 'a) list \<times> (nat \<Rightarrow> 'a asub)" where
  "flush_loop c sid cs [] retained st = (retained, st)"
| "flush_loop c sid cs ((i, x) # ps) retained st =
     (if i = sid then flush_loop c sid cs ps retained (snd (broadcast (push x) cs st))
      else flush_loop c sid cs ps (deque_append c (i, x) retained) st)"

definition flush_pending :: "nat \<Rightarrow> 'a registry \<Rightarrow> 'a registry" where
  "flush_pending w r =
     (let (ps, st) = flush_loop (r_capacity r) (sub_id (wires r w)) (consumers (wires r w))
            (pending r) [] (subs r)
      in r\<lparr>pending := ps, subs := st\<rparr>)"

text \<open>A new consumer of a wire subscription, and a new wire subscription.\<close>

definition attach :: "nat \<Rightarrow> 'a registry \<Rightarrow> nat \<times> 'a registry" where
  "attach w r =
     (let c = next_ref r
      in (c, flush_pending w
        (r\<lparr>next_ref := Suc c, subs := (subs r)(c := new_sub (int (r_capacity r))),
           wires := (wires r)(w := (wires r w)\<lparr>consumers := consumers (wires r w) @ [c]\<rparr>)\<rparr>)))"

definition add_wire :: "ustr \<Rightarrow> int \<Rightarrow> 'a registry \<Rightarrow> nat \<times> 'a registry" where
  "add_wire reg sid r =
     (let w = next_ref r
      in (w, r\<lparr>next_ref := Suc w, wires := (wires r)(w := \<lparr>sub_id = sid, consumers = []\<rparr>),
               by_registration := AList.update reg w (by_registration r),
               by_id := (by_id r)(sid \<mapsto> reg)\<rparr>))"

text \<open>
  What the awaits of \<open>subscribe\<close> ended with: the id, an error, or a cancellation of the caller
  followed by the outcome of the shielded subscribe and of the unsubscribe that undoes it.
\<close>

datatype wire_reply =
  Replied int | Rejected exn | CancelledRejected | CancelledReplied int "exn option"

definition subscribe :: "ustr \<Rightarrow> wire_reply \<Rightarrow> 'a registry \<Rightarrow> (exn + nat) \<times> 'a registry" where
  "subscribe reg reply r =
     (case map_of (by_registration r) reg of
        Some w \<Rightarrow> apfst Inr (attach w r)
      | None \<Rightarrow>
          (case reply of
             Replied sid \<Rightarrow> (let (w, r') = add_wire reg sid r in apfst Inr (attach w r'))
           | Rejected e \<Rightarrow> (Inl e, r)
           | CancelledRejected \<Rightarrow> (Inl CancelledError, r)
           | CancelledReplied sid None \<Rightarrow> (Inl CancelledError, r)
           | CancelledReplied sid (Some _) \<Rightarrow> (Inl CancelledError, snd (add_wire reg sid r))))"

text \<open>\<open>subscribe.close\<close>: up to the unsubscribe of the last consumer, and after it.\<close>

definition close_begin :: "ustr \<Rightarrow> nat \<Rightarrow> 'a registry \<Rightarrow> nat option \<times> 'a registry" where
  "close_begin reg c r =
     (case map_of (by_registration r) reg of
        None \<Rightarrow> (None, r)
      | Some w \<Rightarrow>
          let cs = removeAll c (consumers (wires r w));
              r' = r\<lparr>wires := (wires r)(w := (wires r w)\<lparr>consumers := cs\<rparr>)\<rparr>
          in (if cs \<noteq> [] then None else Some w, r'))"

definition close_end :: "ustr \<Rightarrow> nat \<Rightarrow> exn option \<Rightarrow> 'a registry \<Rightarrow> 'a registry" where
  "close_end reg w failed r =
     (if failed = None
      then r\<lparr>by_registration := AList.delete reg (by_registration r),
             by_id := (by_id r)(sub_id (wires r w) := None)\<rparr>
      else r)"

text \<open>The whole of a consumer's \<open>aclose\<close>, with the outcome of the wire's unsubscribe.\<close>

definition consumer_aclose :: "ustr \<Rightarrow> nat \<Rightarrow> exn option \<Rightarrow> 'a registry \<Rightarrow> 'a registry" where
  "consumer_aclose reg c failed r =
     (let (go, s) = aclose_enter (subs r c); r = r\<lparr>subs := (subs r)(c := s)\<rparr>
      in if \<not> go then r
         else let (w, r) = close_begin reg c r;
                  r = (case w of None \<Rightarrow> r | Some w \<Rightarrow> close_end reg w failed r)
              in r\<lparr>subs := (subs r)(c := aclose_leave (subs r c))\<rparr>)"

definition publish :: "int \<Rightarrow> 'a \<Rightarrow> 'a registry \<Rightarrow> 'a registry" where
  "publish sid x r =
     (case by_id r sid of
        None \<Rightarrow> r\<lparr>pending := deque_append (r_capacity r) (sid, x) (pending r)\<rparr>
      | Some reg \<Rightarrow>
          (case map_of (by_registration r) reg of
             None \<Rightarrow> r
           | Some w \<Rightarrow>
               let cs = consumers (wires r w); (dead, st) = broadcast (push x) cs (subs r)
               in r\<lparr>subs := st,
                    wires := (wires r)(w := (wires r w)\<lparr>consumers :=
                      filter (\<lambda>c. c \<notin> set dead) cs\<rparr>),
                    cleanups := cleanups r @ dead\<rparr>))"

text \<open>\<open>fail_registration\<close> and \<open>terminate\<close>.\<close>

definition tell_all :: "('a asub \<Rightarrow> 'a asub) \<Rightarrow> nat list \<Rightarrow> (nat \<Rightarrow> 'a asub) \<Rightarrow> nat \<Rightarrow> 'a asub" where
  "tell_all f cs st = snd (broadcast (\<lambda>s. (True, f s)) cs st)"

definition fail_registration :: "ustr \<Rightarrow> exn \<Rightarrow> 'a registry \<Rightarrow> 'a registry" where
  "fail_registration reg e r =
     (case map_of (by_registration r) reg of
        None \<Rightarrow> r
      | Some w \<Rightarrow>
          r\<lparr>by_registration := AList.delete reg (by_registration r),
            by_id := (by_id r)(sub_id (wires r w) := None),
            subs := tell_all (sub_fail e) (consumers (wires r w)) (subs r)\<rparr>)"

definition terminate :: "exn option \<Rightarrow> 'a registry \<Rightarrow> 'a registry" where
  "terminate e r =
     (let cs = concat (map (\<lambda>(reg, w). consumers (wires r w)) (by_registration r));
          f = (case e of None \<Rightarrow> sub_finish | Some e \<Rightarrow> sub_fail e)
      in r\<lparr>by_registration := [], by_id := Map.empty, pending := [],
           subs := tell_all f cs (subs r)\<rparr>)"

text \<open>
  One round of \<open>restore\<close>, and its loop over a snapshot of the registrations. The loop also
  returns the calls of \<open>on_error\<close>; a cancellation ends it.
\<close>

definition restore_one :: "string \<Rightarrow> ustr \<Rightarrow> nat \<Rightarrow> exn + int \<Rightarrow> 'a registry \<Rightarrow> 'a registry" where
  "restore_one dmn reg w answer r =
     (case answer of
        Inl e \<Rightarrow> fail_registration reg (ReconnectRestoreError dmn reg e) r
      | Inr sid \<Rightarrow>
          let old = sub_id (wires r w);
              r' = r\<lparr>wires := (wires r)(w := (wires r w)\<lparr>sub_id := sid\<rparr>),
                     by_id := ((by_id r)(old := None))(sid \<mapsto> reg)\<rparr>
          in flush_pending w r')"

fun restore_loop :: "string \<Rightarrow> (ustr \<times> nat) list \<Rightarrow> (ustr \<Rightarrow> exn + int) \<Rightarrow> 'a registry
    \<Rightarrow> exn option \<times> (ustr \<times> exn) list \<times> 'a registry" where
  "restore_loop dmn [] answers r = (None, [], r)"
| "restore_loop dmn ((reg, w) # snapshot) answers r =
     (if answers reg = Inl CancelledError then (Some CancelledError, [], r)
      else let (stop, errs, r') = restore_loop dmn snapshot answers (restore_one dmn reg w (answers reg) r)
           in (stop,
               (case answers reg of
                  Inl e \<Rightarrow> (reg, ReconnectRestoreError dmn reg e) # errs
                | Inr _ \<Rightarrow> errs),
               r'))"

definition restore :: "string \<Rightarrow> (ustr \<Rightarrow> exn + int) \<Rightarrow> 'a registry
    \<Rightarrow> exn option \<times> (ustr \<times> exn) list \<times> 'a registry" where
  "restore dmn answers r = restore_loop dmn (by_registration r) answers r"

definition registrations :: "'a registry \<Rightarrow> ustr list" where
  "registrations r = map fst (by_registration r)"

section \<open>Early notifications\<close>

definition push_all :: "'a list \<Rightarrow> 'a asub \<Rightarrow> 'a asub" where
  "push_all xs s = fold (\<lambda>x s. snd (push x s)) xs s"

lemma push_all_simps [simp]:
  "push_all [] s = s" "push_all (x # xs) s = push_all xs (snd (push x s))"
  by (simp_all add: push_all_def)

lemma deque_append_fits: "length q < c \<Longrightarrow> deque_append c x q = q @ [x]"
  by (simp add: deque_append_def)

lemma length_deque_append [simp]: "length (deque_append c x q) = min c (Suc (length q))"
  by (simp add: deque_append_def Let_def)

lemma flush_loop_spec:
  assumes "distinct cs" "length retained + length ps \<le> cap"
  shows "flush_loop cap sid cs ps retained st =
    (retained @ filter (\<lambda>p. fst p \<noteq> sid) ps,
     \<lambda>c. if c \<in> set cs then push_all (map snd (filter (\<lambda>p. fst p = sid) ps)) (st c) else st c)"
  using assms(2)
proof (induction ps arbitrary: retained st)
  case (Cons p ps)
  obtain i x where p: "p = (i, x)" by (cases p)
  show ?case
  proof (cases "i = sid")
    case True
    then show ?thesis using Cons p by (simp add: broadcast_store [OF assms(1)] fun_eq_iff)
  next
    case False
    then show ?thesis using Cons p by (simp add: deque_append_fits cong: if_cong)
  qed
qed (simp add: fun_eq_iff)

section \<open>The tables agree\<close>

definition wires_ok :: "'a registry \<Rightarrow> bool" where
  "wires_ok r \<longleftrightarrow>
     distinct (map fst (by_registration r)) \<and> distinct (map snd (by_registration r)) \<and>
     length (pending r) \<le> r_capacity r \<and>
     (\<forall>w\<in>snd ` set (by_registration r).
        w < next_ref r \<and> distinct (consumers (wires r w)) \<and>
        (\<forall>c\<in>set (consumers (wires r w)). c < next_ref r)) \<and>
     (\<forall>v\<in>snd ` set (by_registration r). \<forall>w\<in>snd ` set (by_registration r).
        v \<noteq> w \<longrightarrow> set (consumers (wires r v)) \<inter> set (consumers (wires r w)) = {})"

definition ids_ok :: "'a registry \<Rightarrow> bool" where
  "ids_ok r \<longleftrightarrow>
     (\<forall>i reg. by_id r i = Some reg \<longleftrightarrow>
        (\<exists>w. map_of (by_registration r) reg = Some w \<and> sub_id (wires r w) = i))"

definition reg_inv :: "'a registry \<Rightarrow> bool" where
  "reg_inv r \<longleftrightarrow> wires_ok r \<and> ids_ok r"

lemma reg_inv_new: "reg_inv (new_registry c)"
  by (simp add: reg_inv_def wires_ok_def ids_ok_def new_registry_def)

lemma flush_pending_fields [simp]:
  "by_registration (flush_pending w r) = by_registration r" "by_id (flush_pending w r) = by_id r"
  "wires (flush_pending w r) = wires r" "r_capacity (flush_pending w r) = r_capacity r"
  "next_ref (flush_pending w r) = next_ref r" "cleanups (flush_pending w r) = cleanups r"
  by (simp_all add: flush_pending_def Let_def split_beta)

lemma flush_loop_bound:
  "length retained \<le> cap \<Longrightarrow> length (fst (flush_loop cap sid cs ps retained st)) \<le> cap"
proof (induction ps arbitrary: retained st)
  case (Cons p ps)
  then show ?case by (cases p) simp
qed simp

lemma flush_pending_bound: "length (pending (flush_pending w r)) \<le> r_capacity r"
  using flush_loop_bound [of "[]" "r_capacity r"]
  by (simp add: flush_pending_def Let_def split_beta)

lemma reg_inv_flush: "reg_inv r \<Longrightarrow> reg_inv (flush_pending w r)"
  using flush_pending_bound [of w r] by (simp add: reg_inv_def wires_ok_def ids_ok_def)

lemma map_of_wire:
  "map_of (by_registration r) reg = Some w \<Longrightarrow> w \<in> snd ` set (by_registration r)"
  by (force dest: map_of_SomeD)

lemma wire_registration:
  assumes "reg_inv r" "map_of (by_registration r) reg = Some w" "map_of (by_registration r) reg' = Some w"
  shows "reg' = reg"
proof -
  have "(reg, w) \<in> set (by_registration r)" "(reg', w) \<in> set (by_registration r)"
    using assms(2,3) by (simp_all add: map_of_SomeD)
  moreover have "inj_on snd (set (by_registration r))"
    using assms(1) by (simp add: reg_inv_def wires_ok_def distinct_map)
  ultimately show ?thesis using inj_onD [of snd _ "(reg, w)" "(reg', w)"] by auto
qed

lemma wires_ok_disjoint:
  assumes "wires_ok r" "v \<in> snd ` set (by_registration r)" "w \<in> snd ` set (by_registration r)" "v \<noteq> w"
  shows "set (consumers (wires r v)) \<inter> set (consumers (wires r w)) = {}"
proof -
  have "\<forall>v\<in>snd ` set (by_registration r). \<forall>w\<in>snd ` set (by_registration r).
        v \<noteq> w \<longrightarrow> set (consumers (wires r v)) \<inter> set (consumers (wires r w)) = {}"
    using assms(1) unfolding wires_ok_def by - (elim conjE, assumption)
  from this [rule_format, OF assms(2-4)] show ?thesis .
qed

lemma wires_ok_live:
  assumes "wires_ok r" "w \<in> snd ` set (by_registration r)"
  shows "w < next_ref r" "distinct (consumers (wires r w))"
    "c \<in> set (consumers (wires r w)) \<Longrightarrow> c < next_ref r"
proof -
  have "\<forall>w\<in>snd ` set (by_registration r).
        w < next_ref r \<and> distinct (consumers (wires r w)) \<and>
        (\<forall>c\<in>set (consumers (wires r w)). c < next_ref r)"
    using assms(1) unfolding wires_ok_def by - (elim conjE, assumption)
  from bspec [OF this assms(2)]
  show "w < next_ref r" "distinct (consumers (wires r w))"
    "c \<in> set (consumers (wires r w)) \<Longrightarrow> c < next_ref r" by simp_all
qed

lemma wires_ok_shrink:
  assumes "wires_ok r" "set (by_registration r') \<subseteq> set (by_registration r)"
    "distinct (map fst (by_registration r'))" "distinct (map snd (by_registration r'))"
    "length (pending r') \<le> r_capacity r'" "next_ref r \<le> next_ref r'"
    "\<And>w. set (consumers (wires r' w)) \<subseteq> set (consumers (wires r w))"
    "\<And>w. distinct (consumers (wires r w)) \<Longrightarrow> distinct (consumers (wires r' w))"
  shows "wires_ok r'"
proof -
  have sub: "snd ` set (by_registration r') \<subseteq> snd ` set (by_registration r)"
    using assms(2) by blast
  have one: "w < next_ref r' \<and> distinct (consumers (wires r' w)) \<and>
      (\<forall>c\<in>set (consumers (wires r' w)). c < next_ref r')" if "w \<in> snd ` set (by_registration r')" for w
  proof -
    have "w \<in> snd ` set (by_registration r)" using sub that by blast
    from wires_ok_live [OF assms(1) this] show ?thesis using assms(6-8) by (meson order_less_le_trans subsetD)
  qed
  have two: "set (consumers (wires r' v)) \<inter> set (consumers (wires r' w)) = {}"
    if "v \<in> snd ` set (by_registration r')" "w \<in> snd ` set (by_registration r')" "v \<noteq> w" for v w
  proof -
    have "set (consumers (wires r v)) \<inter> set (consumers (wires r w)) = {}"
      using that sub by (intro wires_ok_disjoint [OF assms(1)]) blast+
    then show ?thesis using assms(7) [of v] assms(7) [of w] by blast
  qed
  show ?thesis unfolding wires_ok_def by (intro conjI ballI impI assms(3-5) two) (use one in blast)+
qed

lemma wires_ok_distinct:
  assumes "wires_ok r"
  shows "distinct (map fst (by_registration r))" "distinct (map snd (by_registration r))"
    "length (pending r) \<le> r_capacity r"
  using assms unfolding wires_ok_def by blast+

lemma reg_inv_shrink:
  assumes "reg_inv r" "by_registration r' = by_registration r" "by_id r' = by_id r"
    "length (pending r') \<le> r_capacity r'" "next_ref r \<le> next_ref r'"
    "\<And>w. set (consumers (wires r' w)) \<subseteq> set (consumers (wires r w))"
    "\<And>w. distinct (consumers (wires r w)) \<Longrightarrow> distinct (consumers (wires r' w))"
    "\<And>w. sub_id (wires r' w) = sub_id (wires r w)"
  shows "reg_inv r'"
proof -
  have "wires_ok r'"
    by (rule wires_ok_shrink [of r]) (use assms wires_ok_distinct [of r] in \<open>auto simp: reg_inv_def\<close>)
  then show ?thesis using assms by (simp add: reg_inv_def ids_ok_def)
qed

text \<open>Removing a registration, whatever happens to its consumers.\<close>

lemma reg_inv_forget:
  assumes inv: "reg_inv r" and w: "map_of (by_registration r) reg = Some w"
  shows "reg_inv (r\<lparr>by_registration := AList.delete reg (by_registration r),
    by_id := (by_id r)(sub_id (wires r w) := None), subs := st\<rparr>)" (is "reg_inv ?r")
proof -
  have wok: "wires_ok r" and ids: "ids_ok r" using inv by (simp_all add: reg_inv_def)
  have "wires_ok ?r"
    by (rule wires_ok_shrink [OF wok])
      (use wires_ok_distinct [OF wok] in \<open>auto simp: AList.delete_eq distinct_map_filter\<close>)
  moreover have "ids_ok ?r"
    unfolding ids_ok_def
  proof (intro allI)
    fix i g
    have "by_id r (sub_id (wires r w)) = Some reg" using ids w unfolding ids_ok_def by blast
    then have "i \<noteq> sub_id (wires r w) \<and> by_id r i = Some g \<longleftrightarrow> g \<noteq> reg \<and> by_id r i = Some g"
      using ids w unfolding ids_ok_def by (metis option.inject)
    moreover have "by_id r i = Some g \<longleftrightarrow>
        (\<exists>w. map_of (by_registration r) g = Some w \<and> sub_id (wires r w) = i)"
      using ids unfolding ids_ok_def by blast
    ultimately show "by_id ?r i = Some g \<longleftrightarrow>
        (\<exists>v. map_of (by_registration ?r) g = Some v \<and> sub_id (wires ?r v) = i)"
      by (cases "g = reg") (auto simp: AList.delete_conv')
  qed
  ultimately show ?thesis by (simp add: reg_inv_def)
qed

lemma reg_inv_fail: "reg_inv r \<Longrightarrow> reg_inv (fail_registration reg e r)"
  using reg_inv_forget [of r reg]
  by (simp add: fail_registration_def split: option.split)

lemma reg_inv_terminate: "reg_inv r \<Longrightarrow> reg_inv (terminate e r)"
  by (simp add: reg_inv_def wires_ok_def ids_ok_def terminate_def Let_def)

lemma reg_inv_publish: "reg_inv r \<Longrightarrow> reg_inv (publish sid x r)"
proof (cases "by_id r sid")
  case None
  assume "reg_inv r"
  then show ?thesis
    by (rule reg_inv_shrink) (simp_all add: publish_def None)
next
  case (Some reg)
  assume inv: "reg_inv r"
  then have "length (pending r) \<le> r_capacity r" by (simp add: reg_inv_def wires_ok_distinct)
  then show ?thesis using inv
    by (cases "map_of (by_registration r) reg")
      (simp_all add: publish_def Some Let_def split_beta, rule reg_inv_shrink [OF inv], auto)
qed

lemma reg_inv_aclose: "reg_inv r \<Longrightarrow> reg_inv (consumer_aclose reg c failed r)"
proof -
  assume inv: "reg_inv r"
  obtain go s where go: "aclose_enter (subs r c) = (go, s)" by (cases "aclose_enter (subs r c)")
  let ?r = "r\<lparr>subs := (subs r)(c := s)\<rparr>"
  have len: "length (pending r) \<le> r_capacity r" using inv by (simp add: reg_inv_def wires_ok_distinct)
  have subs: "reg_inv (q\<lparr>subs := st\<rparr>)" if "reg_inv q" for q :: "'a registry" and st
    using that by (simp add: reg_inv_def wires_ok_def ids_ok_def)
  have begin_: "reg_inv (snd (close_begin reg c ?r))"
  proof (cases "map_of (by_registration r) reg")
    case (Some w)
    then show ?thesis
      by (intro reg_inv_shrink [OF inv])
        (auto simp: close_begin_def Let_def len distinct_removeAll)
  qed (simp add: close_begin_def subs inv)
  have end_: "reg_inv (close_end reg w failed (snd (close_begin reg c ?r)))"
    if w: "fst (close_begin reg c ?r) = Some w" for w
  proof -
    let ?q = "snd (close_begin reg c ?r)"
    have "map_of (by_registration ?q) reg = Some w"
      using w by (auto simp: close_begin_def Let_def split: option.splits if_splits)
    from reg_inv_forget [OF begin_ this, of "subs ?q"]
    show ?thesis using begin_ by (simp add: close_end_def)
  qed
  show ?thesis
    by (simp add: consumer_aclose_def go Let_def split_beta subs inv begin_ end_ split: option.split)
qed

text \<open>A new registration under an id nobody uses.\<close>

lemma update_absent: "k \<notin> fst ` set al \<Longrightarrow> AList.update k v al = al @ [(k, v)]"
  by (induction al) auto

lemma reg_inv_attach:
  assumes inv: "reg_inv r" and w: "w \<in> snd ` set (by_registration r)"
  shows "reg_inv (snd (attach w r))"
proof -
  let ?c = "next_ref r"
  let ?r = "r\<lparr>next_ref := Suc ?c, subs := (subs r)(?c := new_sub (int (r_capacity r))),
    wires := (wires r)(w := (wires r w)\<lparr>consumers := consumers (wires r w) @ [?c]\<rparr>)\<rparr>"
  have wok: "wires_ok r" using inv by (simp add: reg_inv_def)
  have live: "v < next_ref r \<and> distinct (consumers (wires r v)) \<and>
      (\<forall>c\<in>set (consumers (wires r v)). c < next_ref r)" if "v \<in> snd ` set (by_registration r)" for v
    using wires_ok_live [OF wok that] by blast
  have new: "?c \<notin> set (consumers (wires r v))" if "v \<in> snd ` set (by_registration r)" for v
    using live [OF that] by blast
  have one: "v < Suc ?c \<and> distinct (consumers (wires ?r v)) \<and>
      (\<forall>c\<in>set (consumers (wires ?r v)). c < Suc ?c)" if "v \<in> snd ` set (by_registration r)" for v
    using live [OF that] new [OF that] by (auto simp: less_Suc_eq)
  have two: "set (consumers (wires ?r u)) \<inter> set (consumers (wires ?r v)) = {}"
    if "u \<in> snd ` set (by_registration r)" "v \<in> snd ` set (by_registration r)" "u \<noteq> v" for u v
  proof -
    have "set (consumers (wires r u)) \<inter> set (consumers (wires r v)) = {}"
      by (rule wires_ok_disjoint [OF wok that])
    then show ?thesis using new [OF that(1)] new [OF that(2)] that(3) by auto
  qed
  have "wires_ok ?r"
    using wires_ok_distinct [OF wok] one two unfolding wires_ok_def by simp
  moreover have same: "sub_id (wires ?r v) = sub_id (wires r v)" for v by simp
  have "ids_ok ?r" using inv unfolding reg_inv_def ids_ok_def same by simp
  ultimately show ?thesis using reg_inv_flush [of ?r w] by (simp add: reg_inv_def attach_def Let_def)
qed

lemma reg_inv_add_wire:
  assumes inv: "reg_inv r" and new: "map_of (by_registration r) reg = None"
    and fresh: "by_id r sid = None"
  shows "reg_inv (snd (add_wire reg sid r))"
proof -
  let ?w = "next_ref r" and ?r = "snd (add_wire reg sid r)"
  have wok: "wires_ok r" and ids: "ids_ok r" using inv by (simp_all add: reg_inv_def)
  have k: "reg \<notin> fst ` set (by_registration r)" using new by (simp add: map_of_eq_None_iff)
  have live: "v < next_ref r \<and> distinct (consumers (wires r v)) \<and>
      (\<forall>c\<in>set (consumers (wires r v)). c < next_ref r)" if "v \<in> snd ` set (by_registration r)" for v
    using wires_ok_live [OF wok that] by blast
  have nw: "?w \<notin> snd ` set (by_registration r)" using live by blast
  have br: "by_registration ?r = by_registration r @ [(reg, ?w)]"
    using k by (simp add: add_wire_def Let_def update_absent)
  have wires: "wires ?r v = wires r v" if "v \<in> snd ` set (by_registration r)" for v
  proof -
    have "v \<noteq> ?w" using nw that by blast
    then show ?thesis by (simp add: add_wire_def Let_def)
  qed
  have at: "wires ?r ?w = \<lparr>sub_id = sid, consumers = []\<rparr>" and nr: "next_ref ?r = Suc ?w"
    and bid: "by_id ?r = (by_id r)(sid \<mapsto> reg)"
    and rest: "pending ?r = pending r" "r_capacity ?r = r_capacity r"
    by (simp_all add: add_wire_def Let_def)
  have "wires_ok ?r" unfolding wires_ok_def
  proof (intro conjI)
    show "\<forall>w\<in>snd ` set (by_registration ?r). w < next_ref ?r \<and>
        distinct (consumers (wires ?r w)) \<and> (\<forall>c\<in>set (consumers (wires ?r w)). c < next_ref ?r)"
      using live wires by (fastforce simp: br at nr less_Suc_eq)
    show "\<forall>v\<in>snd ` set (by_registration ?r). \<forall>w\<in>snd ` set (by_registration ?r).
        v \<noteq> w \<longrightarrow> set (consumers (wires ?r v)) \<inter> set (consumers (wires ?r w)) = {}"
    proof (intro ballI impI)
      fix v w
      assume "v \<in> snd ` set (by_registration ?r)" "w \<in> snd ` set (by_registration ?r)" "v \<noteq> w"
      then consider "v = ?w" | "w = ?w"
        | "v \<in> snd ` set (by_registration r)" "w \<in> snd ` set (by_registration r)"
        by (auto simp: br)
      then show "set (consumers (wires ?r v)) \<inter> set (consumers (wires ?r w)) = {}"
      proof cases
        case 3
        then show ?thesis unfolding wires [OF 3(1)] wires [OF 3(2)]
          by (rule wires_ok_disjoint [OF wok _ _ \<open>v \<noteq> w\<close>])
      qed (simp_all add: at)
    qed
  qed (use wires_ok_distinct [OF wok] k nw in \<open>simp_all add: br rest\<close>)
  moreover have "ids_ok ?r" unfolding ids_ok_def
  proof (intro allI)
    fix i g
    have old: "by_id r i = Some g \<longleftrightarrow>
        (\<exists>w. map_of (by_registration r) g = Some w \<and> sub_id (wires r w) = i)" for i g
      using ids unfolding ids_ok_def by blast
    have same: "wires ?r w = wires r w" if "map_of (by_registration r) g = Some w" for g w
      by (rule wires [OF map_of_wire [OF that]])
    show "by_id ?r i = Some g \<longleftrightarrow>
        (\<exists>w. map_of (by_registration ?r) g = Some w \<and> sub_id (wires ?r w) = i)"
    proof (cases "g = reg")
      case True
      have "by_id r i \<noteq> Some reg" using old [of i reg] new by simp
      then show ?thesis using True new by (auto simp: bid br map_add_def at)
    next
      case False
      have "by_id ?r i = Some g \<longleftrightarrow> by_id r i = Some g" using False fresh by (auto simp: bid)
      also have "\<dots> \<longleftrightarrow> (\<exists>w. map_of (by_registration r) g = Some w \<and> sub_id (wires ?r w) = i)"
        using old same by auto
      finally show ?thesis using False by (simp add: br map_add_def split: option.split)
    qed
  qed
  ultimately show ?thesis by (simp add: reg_inv_def)
qed

lemma add_wire_lookup:
  "map_of (by_registration r) reg = None \<Longrightarrow>
   map_of (by_registration (snd (add_wire reg sid r))) reg = Some (next_ref r)"
  by (simp add: add_wire_def Let_def AList.update_conv')

lemma reg_inv_subscribe:
  assumes inv: "reg_inv r"
    and fresh: "\<And>sid e. reply = Replied sid \<or> reply = CancelledReplied sid e \<Longrightarrow> by_id r sid = None"
  shows "reg_inv (snd (subscribe reg reply r))"
proof (cases "map_of (by_registration r) reg")
  case (Some w)
  then show ?thesis using reg_inv_attach [OF inv map_of_wire [OF Some]]
    by (simp add: subscribe_def)
next
  case None
  have added: "reg_inv (snd (add_wire reg sid r))"
    and attached: "reg_inv (snd (attach (next_ref r) (snd (add_wire reg sid r))))"
    if "by_id r sid = None" for sid
    using reg_inv_add_wire [OF inv None that]
      reg_inv_attach [OF _ map_of_wire [OF add_wire_lookup [OF None]]] by blast+
  have ref: "fst (add_wire reg sid r) = next_ref r" for sid by (simp add: add_wire_def Let_def)
  show ?thesis
  proof (cases reply)
    case (Replied sid)
    then show ?thesis using attached [of sid] fresh None ref by (simp add: subscribe_def split_beta)
  next
    case (CancelledReplied sid e)
    then show ?thesis using added [of sid] fresh None inv
      by (cases e) (simp_all add: subscribe_def)
  qed (simp_all add: subscribe_def None inv)
qed

text \<open>A restored registration under an id nobody else uses.\<close>

lemma reg_inv_restore_one:
  assumes inv: "reg_inv r" and w: "map_of (by_registration r) reg = Some w"
    and fresh: "\<And>sid. answer = Inr sid \<Longrightarrow> by_id r sid = None \<or> by_id r sid = Some reg"
  shows "reg_inv (restore_one d reg w answer r)"
proof (cases answer)
  case (Inl e)
  then show ?thesis using inv by (simp add: restore_one_def reg_inv_fail)
next
  case (Inr sid)
  let ?r = "r\<lparr>wires := (wires r)(w := (wires r w)\<lparr>sub_id := sid\<rparr>),
    by_id := ((by_id r)(sub_id (wires r w) := None))(sid \<mapsto> reg)\<rparr>"
  have wok: "wires_ok r" and ids: "ids_ok r" using inv by (simp_all add: reg_inv_def)
  have old: "by_id r i = Some g \<longleftrightarrow>
      (\<exists>w. map_of (by_registration r) g = Some w \<and> sub_id (wires r w) = i)" for i g
    using ids unfolding ids_ok_def by blast
  have "wires_ok ?r"
    by (rule wires_ok_shrink [OF wok]) (use wires_ok_distinct [OF wok] in auto)
  moreover have "by_id ?r i = Some g \<longleftrightarrow>
      (\<exists>v. map_of (by_registration ?r) g = Some v \<and> sub_id (wires ?r v) = i)" for i g
  proof (cases "g = reg")
    case True
    have "by_id r i = Some reg \<longleftrightarrow> i = sub_id (wires r w)" using old w by auto
    then show ?thesis using True w by auto
  next
    case False
    have nw: "v \<noteq> w" if "map_of (by_registration r) g = Some v" for v
      using wire_registration [OF inv w] that False by auto
    have "by_id r (sub_id (wires r w)) = Some reg" using old w by blast
    then have "by_id ?r i = Some g \<longleftrightarrow> by_id r i = Some g"
      using False fresh [OF Inr] by auto
    also have "\<dots> \<longleftrightarrow> (\<exists>v. map_of (by_registration ?r) g = Some v \<and> sub_id (wires ?r v) = i)"
      using old [of i g] nw by auto
    finally show ?thesis .
  qed
  ultimately have "reg_inv ?r" unfolding reg_inv_def ids_ok_def by blast
  then show ?thesis using Inr reg_inv_flush [of ?r w] by (simp add: restore_one_def Let_def)
qed

lemma restore_one_keeps_others:
  assumes inv: "reg_inv r" and w: "map_of (by_registration r) reg = Some w" and g: "g \<noteq> reg"
  shows "map_of (by_registration (restore_one d reg w a r)) g = map_of (by_registration r) g"
    "map_of (by_registration r) g = Some v \<Longrightarrow> wires (restore_one d reg w a r) v = wires r v"
proof -
  show "map_of (by_registration (restore_one d reg w a r)) g = map_of (by_registration r) g"
    using w g by (cases a) (simp_all add: restore_one_def fail_registration_def Let_def AList.delete_conv')
  assume v: "map_of (by_registration r) g = Some v"
  then have "v \<noteq> w" using wire_registration [OF inv w] g by auto
  then show "wires (restore_one d reg w a r) v = wires r v"
    using w by (cases a) (simp_all add: restore_one_def fail_registration_def Let_def)
qed

lemma restore_one_result:
  assumes w: "map_of (by_registration r) reg = Some w"
  shows "a = Inr sid \<Longrightarrow> map_of (by_registration (restore_one d reg w a r)) reg = Some w \<and>
      sub_id (wires (restore_one d reg w a r) w) = sid"
    "a = Inl e \<Longrightarrow> map_of (by_registration (restore_one d reg w a r)) reg = None"
  using w by (simp_all add: restore_one_def fail_registration_def Let_def AList.delete_conv')

lemma restore_one_ids:
  assumes w: "map_of (by_registration r) reg = Some w" and "by_id r i = None" "a \<noteq> Inr i"
  shows "by_id (restore_one d reg w a r) i = None"
  using assms by (cases a) (auto simp: restore_one_def fail_registration_def Let_def)

section \<open>Restoring a whole registry\<close>

text \<open>No answer is a cancellation, and no answered id is in use or answered twice.\<close>

definition fresh_answers :: "(ustr \<times> nat) list \<Rightarrow> (ustr \<Rightarrow> exn + int) \<Rightarrow> 'a registry \<Rightarrow> bool" where
  "fresh_answers ps answers r \<longleftrightarrow>
     (\<forall>reg\<in>fst ` set ps. answers reg \<noteq> Inl CancelledError \<and>
        (\<forall>i. answers reg = Inr i \<longrightarrow>
           by_id r i = None \<and> (\<forall>g\<in>fst ` set ps. answers g = Inr i \<longrightarrow> g = reg)))"

lemma fresh_answers_tail:
  assumes "fresh_answers (p # ps) answers r" "fst p \<notin> fst ` set ps"
    "\<And>i. by_id r i = None \<Longrightarrow> answers (fst p) \<noteq> Inr i \<Longrightarrow> by_id r' i = None"
  shows "fresh_answers ps answers r'"
  unfolding fresh_answers_def
proof
  fix g
  assume g: "g \<in> fst ` set ps"
  then have "g \<in> fst ` set (p # ps)" by simp
  with assms(1) have old: "answers g \<noteq> Inl CancelledError \<and> (\<forall>i. answers g = Inr i \<longrightarrow>
      by_id r i = None \<and> (\<forall>h\<in>fst ` set (p # ps). answers h = Inr i \<longrightarrow> h = g))"
    unfolding fresh_answers_def by (rule bspec)
  have "by_id r' i = None \<and> (\<forall>h\<in>fst ` set ps. answers h = Inr i \<longrightarrow> h = g)"
    if "answers g = Inr i" for i
  proof -
    have i: "by_id r i = None" and same: "\<And>h. h \<in> fst ` set (p # ps) \<Longrightarrow> answers h = Inr i \<Longrightarrow> h = g"
      using old that by blast+
    have "fst p \<noteq> g" using g assms(2) by blast
    then have "answers (fst p) \<noteq> Inr i" using same [of "fst p"] by auto
    then show ?thesis using assms(3) [OF i] same by simp
  qed
  then show "answers g \<noteq> Inl CancelledError \<and> (\<forall>i. answers g = Inr i \<longrightarrow>
      by_id r' i = None \<and> (\<forall>h\<in>fst ` set ps. answers h = Inr i \<longrightarrow> h = g))"
    using old by blast
qed

definition restored :: "(ustr \<Rightarrow> exn + int) \<Rightarrow> ustr \<Rightarrow> nat \<Rightarrow> 'a registry \<Rightarrow> bool" where
  "restored answers reg w r \<longleftrightarrow>
     (case answers reg of
        Inl e \<Rightarrow> map_of (by_registration r) reg = None
      | Inr i \<Rightarrow> map_of (by_registration r) reg = Some w \<and> sub_id (wires r w) = i)"

lemma restore_loop_result:
  assumes "reg_inv r" "fresh_answers ps answers r" "distinct (map fst ps)"
    "\<forall>(reg, w)\<in>set ps. map_of (by_registration r) reg = Some w"
  shows "case restore_loop d ps answers r of (stop, errs, r') \<Rightarrow>
    stop = None \<and> reg_inv r' \<and> (\<forall>(reg, w)\<in>set ps. restored answers reg w r') \<and>
    (\<forall>g. g \<notin> fst ` set ps \<longrightarrow>
       map_of (by_registration r') g = map_of (by_registration r) g \<and>
       (\<forall>v. map_of (by_registration r) g = Some v \<longrightarrow> wires r' v = wires r v))"
  using assms
proof (induction ps arbitrary: r)
  case (Cons p ps)
  obtain reg w where p: "p = (reg, w)" by (cases p)
  let ?r = "restore_one d reg w (answers reg) r"
  have w: "map_of (by_registration r) reg = Some w" using Cons.prems(4) p by simp
  note one = restore_one_keeps_others [OF Cons.prems(1) w]
  have stop: "answers reg \<noteq> Inl CancelledError"
    and new: "\<And>i. answers reg = Inr i \<Longrightarrow> by_id r i = None"
    using Cons.prems(2) p by (auto simp: fresh_answers_def)
  have inv: "reg_inv ?r"
    using new by (intro reg_inv_restore_one [OF Cons.prems(1) w]) blast
  have out: "reg \<notin> fst ` set ps" using Cons.prems(3) p by simp
  have fresh: "fresh_answers ps answers ?r"
    by (rule fresh_answers_tail [OF Cons.prems(2)])
      (use out restore_one_ids [OF w] in \<open>simp_all add: p\<close>)
  have tail: "\<forall>(g, v)\<in>set ps. map_of (by_registration ?r) g = Some v"
  proof clarify
    fix g v
    assume gv: "(g, v) \<in> set ps"
    then have "map_of (by_registration r) g = Some v" using Cons.prems(4) p by auto
    moreover have "g \<noteq> reg" using gv out by (metis fst_conv image_eqI)
    ultimately show "map_of (by_registration ?r) g = Some v" using one(1) by simp
  qed
  have "distinct (map fst ps)" using Cons.prems(3) by simp
  note IH = Cons.IH [OF inv fresh this tail]
  obtain stop' errs r' where run: "restore_loop d ps answers ?r = (stop', errs, r')"
    by (cases "restore_loop d ps answers ?r")
  have kept: "map_of (by_registration r') reg = map_of (by_registration ?r) reg"
    "\<And>v. map_of (by_registration ?r) reg = Some v \<Longrightarrow> wires r' v = wires ?r v"
    using IH run out by auto
  have "restored answers reg w r'"
    using restore_one_result [OF w, of "answers reg" _ d] kept
    by (simp add: restored_def split: sum.split)
  moreover have "map_of (by_registration r') g = map_of (by_registration r) g \<and>
      (\<forall>v. map_of (by_registration r) g = Some v \<longrightarrow> wires r' v = wires r v)"
    if "g \<notin> fst ` set (p # ps)" for g
    using IH run one that p by auto
  ultimately show ?case using IH run stop p by (auto simp: split_beta)
qed simp

text \<open>
  When the ids answered on reconnect are fresh and distinct, restore leaves exactly the
  restored registrations under exactly their new ids, and drops the failed ones.
\<close>

lemma registry_restore:
  assumes inv: "reg_inv r" and fresh: "fresh_answers (by_registration r) answers r"
  shows "case restore d answers r of (stop, errs, r') \<Rightarrow>
    stop = None \<and> reg_inv r' \<and>
    (\<forall>i reg. by_id r' i = Some reg \<longleftrightarrow> reg \<in> set (registrations r) \<and> answers reg = Inr i)"
proof -
  have d: "distinct (map fst (by_registration r))"
    using inv by (simp add: reg_inv_def wires_ok_distinct)
  then have tail: "\<forall>(reg, w)\<in>set (by_registration r). map_of (by_registration r) reg = Some w"
    by (auto intro: map_of_is_SomeI)
  obtain stop errs r' where run: "restore_loop d (by_registration r) answers r = (stop, errs, r')"
    by (cases "restore_loop d (by_registration r) answers r")
  note result = restore_loop_result [OF inv fresh d tail, of d, unfolded run prod.case]
  have ids: "by_id r' i = Some reg \<longleftrightarrow>
      (\<exists>w. map_of (by_registration r') reg = Some w \<and> sub_id (wires r' w) = i)" for i reg
    using result unfolding reg_inv_def ids_ok_def by blast
  have "by_id r' i = Some reg \<longleftrightarrow> reg \<in> set (registrations r) \<and> answers reg = Inr i" for i reg
  proof (cases "reg \<in> set (registrations r)")
    case True
    then obtain w where "(reg, w) \<in> set (by_registration r)" by (auto simp: registrations_def)
    then have "restored answers reg w r'" using result by blast
    then show ?thesis using ids True by (auto simp: restored_def split: sum.splits)
  next
    case False
    then have "map_of (by_registration r) reg = None"
      by (simp add: registrations_def map_of_eq_None_iff)
    moreover have "reg \<notin> fst ` set (by_registration r)" using False by (simp add: registrations_def)
    ultimately have "map_of (by_registration r') reg = None" using result by simp
    then show ?thesis using ids False by simp
  qed
  then show ?thesis using result by (simp add: restore_def run)
qed

section \<open>Delivery\<close>

text \<open>
  A notification reaches every consumer of the registration that holds its id and nobody else,
  and consumers that overflow are dropped.
\<close>

lemma registry_routes:
  assumes inv: "reg_inv r" and w: "map_of (by_registration r) reg = Some w"
  shows "subs (publish (sub_id (wires r w)) x r) c =
      (if c \<in> set (consumers (wires r w)) then snd (push x (subs r c)) else subs r c) \<and>
    set (consumers (wires (publish (sub_id (wires r w)) x r) w)) =
      {c \<in> set (consumers (wires r w)). \<not> s_closed (subs (publish (sub_id (wires r w)) x r) c)}"
proof -
  have d: "distinct (consumers (wires r w))"
    using inv wires_ok_live(2) [OF _ map_of_wire [OF w]] by (simp add: reg_inv_def)
  have "by_id r (sub_id (wires r w)) = Some reg"
    using inv w unfolding reg_inv_def ids_ok_def by blast
  then have p: "publish (sub_id (wires r w)) x r =
      (let cs = consumers (wires r w); (dead, st) = broadcast (push x) cs (subs r)
       in r\<lparr>subs := st,
            wires := (wires r)(w := (wires r w)\<lparr>consumers := filter (\<lambda>c. c \<notin> set dead) cs\<rparr>),
            cleanups := cleanups r @ dead\<rparr>)"
    using w by (simp add: publish_def)
  obtain dead st where b: "broadcast (push x) (consumers (wires r w)) (subs r) = (dead, st)"
    by (cases "broadcast (push x) (consumers (wires r w)) (subs r)")
  have st: "st c = (if c \<in> set (consumers (wires r w)) then snd (push x (subs r c)) else subs r c)" for c
    using broadcast_store [OF d, of "push x" "subs r"] by (simp add: b)
  have dead: "set (consumers (wires r w)) - set dead =
      {c \<in> set (consumers (wires r w)). \<not> s_closed (st c)}"
    using subs.broadcast_survivors [OF d, of x "subs r"] by (simp add: b)
  have s: "subs (publish (sub_id (wires r w)) x r) = st"
    and cs: "consumers (wires (publish (sub_id (wires r w)) x r) w) =
      filter (\<lambda>c. c \<notin> set dead) (consumers (wires r w))"
    unfolding p Let_def b by simp_all
  have "set (filter (\<lambda>c. c \<notin> set dead) xs) = set xs - set dead" for xs by auto
  then show ?thesis unfolding s cs using st dead by simp
qed

text \<open>Notifications that arrive before their registration is known.\<close>

lemma phase_of_push:
  assumes "sub_inv c s" "phase_of s = Live ys" "0 < c \<longrightarrow> int (length ys) < c"
  shows "phase_of (snd (push x s)) = Live (ys @ [x]) \<and> sub_inv c (snd (push x s))"
  using sub_simulates [OF assms(1), of "Push x"] sub_inv_exec [OF assms(1), of "Push x"] assms(2,3)
  by (auto split: if_splits)

lemma phase_of_push_all:
  assumes "sub_inv c s" "phase_of s = Live ys" "0 < c \<longrightarrow> int (length ys + length xs) \<le> c"
  shows "phase_of (push_all xs s) = Live (ys @ xs)"
  using assms
proof (induction xs arbitrary: s ys)
  case (Cons x xs)
  have "phase_of (snd (push x s)) = Live (ys @ [x]) \<and> sub_inv c (snd (push x s))"
    by (rule phase_of_push) (use Cons.prems in auto)
  then show ?case using Cons.IH [of "snd (push x s)" "ys @ [x]"] Cons.prems(3) by simp
qed simp

lemma publish_unknown:
  "by_id r sid = None \<Longrightarrow> length (pending r) + length xs \<le> r_capacity r \<Longrightarrow>
   fold (publish sid) xs r = r\<lparr>pending := pending r @ map (Pair sid) xs\<rparr>"
proof (induction xs arbitrary: r)
  case (Cons x xs)
  have "publish sid x r = r\<lparr>pending := pending r @ [(sid, x)]\<rparr>"
    using Cons.prems by (simp add: publish_def deque_append_fits)
  then show ?case using Cons.IH [of "publish sid x r"] Cons.prems by simp
qed simp

text \<open>
  Notifications that arrive before the reply of their subscription are delivered to the first
  consumer in order, up to the buffer.
\<close>

lemma registry_early_notifications:
  assumes inv: "reg_inv r" and new: "map_of (by_registration r) reg = None" "by_id r sid = None"
    and early: "sid \<notin> fst ` set (pending r)"
    and room: "length (pending r) + length xs \<le> r_capacity r"
    and run: "subscribe reg (Replied sid) (fold (publish sid) xs r) = (Inr c, r')"
  shows "phase_of (subs r' c) = Live xs \<and> pending r' = pending r"
proof -
  let ?r = "r\<lparr>pending := pending r @ map (Pair sid) xs\<rparr>"
  let ?w = "next_ref r"
  have k: "reg \<notin> fst ` set (by_registration r)" using new(1) by (simp add: map_of_eq_None_iff)
  have drop: "filter (\<lambda>p. fst p = sid) (pending r) = []" "filter (\<lambda>p. fst p \<noteq> sid) (pending r) = pending r"
    using early by (auto simp: filter_empty_conv filter_id_conv image_iff)
  have own: "filter (\<lambda>p. fst p = sid) (map (Pair sid) xs) = map (Pair sid) xs"
    "filter (\<lambda>p. fst p \<noteq> sid) (map (Pair sid) xs) = []" by (simp_all add: filter_map comp_def)
  have out: "subscribe reg (Replied sid) ?r = (Inr c, r')"
    using run publish_unknown [OF new(2) room] by simp
  have c: "c = Suc ?w" and r': "subs r' c = push_all xs (new_sub (int (r_capacity r)))"
    and p: "pending r' = pending r"
    using out room by (auto simp: subscribe_def new(1) add_wire_def attach_def flush_pending_def Let_def
        flush_loop_spec drop own split_beta comp_def)
  have "phase_of (push_all xs (new_sub (int (r_capacity r)))) = Live ([] @ xs)"
    by (rule phase_of_push_all [OF sub_inv_new]) (use room in auto)
  then show ?thesis using r' p by simp
qed

section \<open>Concrete runs\<close>

definition two_regs :: "nat registry" where
  "two_regs = snd (subscribe [98] (Replied 2) (snd (subscribe [97] (Replied 1) (new_registry 4))))"

lemma two_regs_inv: "reg_inv two_regs"
proof -
  have "reg_inv (snd (subscribe [97] (Replied 1) (new_registry 4 :: nat registry)))"
    by (rule reg_inv_subscribe [OF reg_inv_new]) (simp add: new_registry_def)
  then show ?thesis unfolding two_regs_def
  proof (rule reg_inv_subscribe)
    fix sid e
    assume "Replied 2 = Replied sid \<or> Replied 2 = CancelledReplied sid e"
    then have "sid = 2" by simp
    moreover have "by_id (snd (subscribe [97] (Replied 1) (new_registry 4 :: nat registry))) 2 = None"
      by code_simp
    ultimately show "by_id (snd (subscribe [97] (Replied 1) (new_registry 4 :: nat registry))) sid = None"
      by simp
  qed
qed

lemma two_regs_tables: "by_registration two_regs = [([97], 0), ([98], 2)]"
  "sub_id (wires two_regs 0) = 1" "consumers (wires two_regs 0) = [1]"
  "by_id two_regs 7 = None" "by_id two_regs 8 = None" "pending two_regs = []"
  "r_capacity two_regs = 4"
  by code_simp+

lemma registry_restore_witness:
  "(case restore ''notice'' (\<lambda>g. if g = [97] then Inr 7 else Inr 8) two_regs of (stop, errs, r) \<Rightarrow>
      by_id r 7 = Some [97] \<and> by_id r 8 = Some [98] \<and> by_id r 1 \<noteq> Some [97])"
proof -
  let ?a = "(\<lambda>g. if g = [97] then Inr 7 else Inr 8) :: ustr \<Rightarrow> exn + int"
  have "fresh_answers (by_registration two_regs) ?a two_regs"
    by (simp add: fresh_answers_def two_regs_tables)
  from registry_restore [OF two_regs_inv this, of "''notice''"]
  have "case restore ''notice'' ?a two_regs of (stop, errs, r) \<Rightarrow>
    \<forall>i reg. by_id r i = Some reg \<longleftrightarrow> reg \<in> {[97], [98]} \<and> ?a reg = Inr i"
    by (auto simp: registrations_def two_regs_tables split: prod.splits)
  then show ?thesis by (auto split: prod.splits option.splits)
qed

lemma registry_routes_witness:
  "phase_of (subs (publish 1 5 two_regs) 1) = Live [5]"
proof -
  have m: "map_of (by_registration two_regs) [97] = Some 0" by (simp add: two_regs_tables)
  have "phase_of (snd (push 5 (subs two_regs 1))) = Live [5]" by code_simp
  then show ?thesis using registry_routes [OF two_regs_inv m, of 5 1] by (simp add: two_regs_tables)
qed

lemma registry_early_notifications_witness:
  "phase_of (subs (snd (subscribe [99] (Replied 7) (fold (publish 7) [5, 6] two_regs))) 5) = Live [5, 6]"
proof -
  have run: "fst (subscribe [99] (Replied 7) (fold (publish 7) [5, 6] two_regs)) = Inr 5"
    by code_simp
  obtain r' where "subscribe [99] (Replied 7) (fold (publish 7) [5, 6] two_regs) = (Inr 5, r')"
    using run by (cases "subscribe [99] (Replied 7) (fold (publish 7) [5, 6] two_regs)") simp
  with registry_early_notifications [OF two_regs_inv, of "[99]" 7 "[5, 6]" 5 r']
  show ?thesis by (simp add: two_regs_tables)
qed

text \<open>An id that still names another registration's old subscription.\<close>

lemma registry_restore_clash:
  "(case restore ''notice'' (\<lambda>g. if g = [97] then Inr 2 else Inr 1) two_regs of (stop, errs, r) \<Rightarrow>
      stop = None \<and> errs = [] \<and> registrations r = [[97], [98]] \<and>
      sub_id (wires r 0) = 2 \<and> by_id r 2 = None \<and>
      s_queue (subs (publish 2 5 r) 1) = [] \<and> pending (publish 2 5 r) = [(2, 5)])"
  by code_simp

end
