(* ===== verification/Utf8.thy ===== *)
theory Utf8
  imports Errors
begin

text \<open>
  Python's strict UTF-8 codec (\<open>str.encode("utf-8")\<close>, \<open>bytes.decode("utf-8")\<close>), which
  every route, owner name and message of the protocol goes through: surrogates are
  refused, overlong forms and truncated sequences are refused. Encoding and strict decoding
  are inverse to each other in both directions.
\<close>

definition scalar :: "nat \<Rightarrow> bool" where
  "scalar c \<longleftrightarrow> c < 0x110000 \<and> \<not> (0xD800 \<le> c \<and> c < 0xE000)"

definition u8_of :: "nat \<Rightarrow> byte" where
  "u8_of n = word_of_nat n"

lemma unat_u8_of [simp]: "n < 256 \<Longrightarrow> unat (u8_of n) = n"
  by (simp add: u8_of_def unat_of_nat)

lemma u8_of_unat [simp]: "u8_of (unat b) = b"
  by (simp add: u8_of_def)

fun utf8_char :: "nat \<Rightarrow> bytes" where
  "utf8_char c =
     (if c < 0x80 then [u8_of c]
      else if c < 0x800 then [u8_of (0xC0 + c div 64), u8_of (0x80 + c mod 64)]
      else if c < 0x10000 then
        [u8_of (0xE0 + c div 4096), u8_of (0x80 + c div 64 mod 64), u8_of (0x80 + c mod 64)]
      else [u8_of (0xF0 + c div 262144), u8_of (0x80 + c div 4096 mod 64),
            u8_of (0x80 + c div 64 mod 64), u8_of (0x80 + c mod 64)])"

declare utf8_char.simps [simp del]

definition utf8_encode :: "ustr \<Rightarrow> exn + bytes" where
  "utf8_encode s =
     (if list_all scalar s then Inr (concat (map utf8_char s)) else Inl UnicodeEncodeError)"

text \<open>A continuation byte and its six bits.\<close>

definition cont :: "byte \<Rightarrow> bool" where
  "cont b \<longleftrightarrow> 0x80 \<le> unat b \<and> unat b < 0xC0"

definition bits6 :: "byte \<Rightarrow> nat" where
  "bits6 b = unat b - 0x80"

definition cons_r :: "'a \<Rightarrow> exn + 'a list \<Rightarrow> exn + 'a list" where
  "cons_r x r = bind_r r (\<lambda>xs. Inr (x # xs))"

lemma cons_r_simps [simp]: "cons_r x (Inr xs) = Inr (x # xs)" "cons_r x (Inl e) = Inl e"
  by (simp_all add: cons_r_def)

lemma cons_r_Inr_iff: "cons_r x r = Inr ys \<longleftrightarrow> (\<exists>xs. r = Inr xs \<and> ys = x # xs)"
  by (auto simp: cons_r_def bind_r_Inr_iff)

fun utf8_decode :: "bytes \<Rightarrow> exn + ustr" where
  "utf8_decode [] = Inr []"
| "utf8_decode (b # bs) =
     (let n = unat b in
      if n < 0x80 then cons_r n (utf8_decode bs)
      else if 0xC2 \<le> n \<and> n < 0xE0 then
        (case bs of
           b1 # rest \<Rightarrow>
             if cont b1 then cons_r ((n - 0xC0) * 64 + bits6 b1) (utf8_decode rest)
             else Inl UnicodeDecodeError
         | _ \<Rightarrow> Inl UnicodeDecodeError)
      else if 0xE0 \<le> n \<and> n < 0xF0 then
        (case bs of
           b1 # b2 # rest \<Rightarrow>
             (let c = (n - 0xE0) * 4096 + bits6 b1 * 64 + bits6 b2 in
              if cont b1 \<and> cont b2 \<and> 0x800 \<le> c \<and> scalar c
              then cons_r c (utf8_decode rest) else Inl UnicodeDecodeError)
         | _ \<Rightarrow> Inl UnicodeDecodeError)
      else if 0xF0 \<le> n \<and> n < 0xF5 then
        (case bs of
           b1 # b2 # b3 # rest \<Rightarrow>
             (let c = (n - 0xF0) * 262144 + bits6 b1 * 4096 + bits6 b2 * 64 + bits6 b3 in
              if cont b1 \<and> cont b2 \<and> cont b3 \<and> 0x10000 \<le> c \<and> scalar c
              then cons_r c (utf8_decode rest) else Inl UnicodeDecodeError)
         | _ \<Rightarrow> Inl UnicodeDecodeError)
      else Inl UnicodeDecodeError)"

lemma cont_u8_of [simp]: "n < 64 \<Longrightarrow> cont (u8_of (0x80 + n))"
  by (simp add: cont_def)

lemma bits6_u8_of [simp]: "n < 64 \<Longrightarrow> bits6 (u8_of (0x80 + n)) = n"
  by (simp add: bits6_def)

lemma bits6_cont: "cont b \<Longrightarrow> bits6 b < 64 \<and> u8_of (0x80 + bits6 b) = b"
  by (auto simp: cont_def bits6_def)

lemma split6:
  "(c::nat) div 64 * 64 + c mod 64 = c"
  "(c::nat) div 4096 * 64 + c div 64 mod 64 = c div 64"
  "(c::nat) div 262144 * 64 + c div 4096 mod 64 = c div 4096"
proof -
  have "c div 4096 = c div 64 div 64" "c div 262144 = c div 4096 div 64"
    by (simp_all add: div_mult2_eq [symmetric])
  then show "c div 64 * 64 + c mod 64 = c" "c div 4096 * 64 + c div 64 mod 64 = c div 64"
    "c div 262144 * 64 + c div 4096 mod 64 = c div 4096"
    by (simp_all only: div_mult_mod_eq)
qed

lemma decode2:
  "0xC2 \<le> unat b \<Longrightarrow> unat b < 0xE0 \<Longrightarrow> cont b1 \<Longrightarrow>
   utf8_decode (b # b1 # rest) = cons_r ((unat b - 0xC0) * 64 + bits6 b1) (utf8_decode rest)"
  by (simp add: Let_def)

lemma decode3:
  "0xE0 \<le> unat b \<Longrightarrow> unat b < 0xF0 \<Longrightarrow> cont b1 \<Longrightarrow> cont b2 \<Longrightarrow>
   c = (unat b - 0xE0) * 4096 + bits6 b1 * 64 + bits6 b2 \<Longrightarrow> 0x800 \<le> c \<Longrightarrow> scalar c \<Longrightarrow>
   utf8_decode (b # b1 # b2 # rest) = cons_r c (utf8_decode rest)"
  by (simp add: Let_def)

lemma decode4:
  "0xF0 \<le> unat b \<Longrightarrow> unat b < 0xF5 \<Longrightarrow> cont b1 \<Longrightarrow> cont b2 \<Longrightarrow> cont b3 \<Longrightarrow>
   c = (unat b - 0xF0) * 262144 + bits6 b1 * 4096 + bits6 b2 * 64 + bits6 b3 \<Longrightarrow>
   0x10000 \<le> c \<Longrightarrow> scalar c \<Longrightarrow>
   utf8_decode (b # b1 # b2 # b3 # rest) = cons_r c (utf8_decode rest)"
  by (simp add: Let_def)

lemma mod64: "(n::nat) mod 64 < 64"
  by simp

lemma decode_char:
  assumes "scalar c"
  shows "utf8_decode (utf8_char c @ rest) = cons_r c (utf8_decode rest)"
proof -
  consider "c < 0x80" | "0x80 \<le> c" "c < 0x800" | "0x800 \<le> c" "c < 0x10000"
    | "0x10000 \<le> c" "c < 0x110000"
    using assms unfolding scalar_def by linarith
  then show ?thesis
  proof cases
    case 1
    then show ?thesis by (simp add: utf8_char.simps)
  next
    case 2
    then have b: "c div 64 < 32" "2 \<le> c div 64" by auto
    have "utf8_decode (u8_of (0xC0 + c div 64) # u8_of (0x80 + c mod 64) # rest)
        = cons_r (c div 64 * 64 + c mod 64) (utf8_decode rest)"
      using b by (subst decode2) (simp_all only: cont_u8_of bits6_u8_of mod64 unat_u8_of, auto)
    then show ?thesis using 2 by (simp add: utf8_char.simps split6)
  next
    case 3
    then have b: "c div 4096 < 16" by auto
    have "c = c div 4096 * 4096 + c div 64 mod 64 * 64 + c mod 64"
      using split6(1,2) [of c] by linarith
    then have "utf8_decode (u8_of (0xE0 + c div 4096) # u8_of (0x80 + c div 64 mod 64)
        # u8_of (0x80 + c mod 64) # rest) = cons_r c (utf8_decode rest)"
      using b 3 assms by (intro decode3) (simp_all only: cont_u8_of bits6_u8_of mod64, simp_all)
    then show ?thesis using 3 by (simp add: utf8_char.simps)
  next
    case 4
    then have b: "c div 262144 < 5" by auto
    have "c = c div 262144 * 262144 + c div 4096 mod 64 * 4096 + c div 64 mod 64 * 64 + c mod 64"
      using split6 [of c] by linarith
    then have "utf8_decode (u8_of (0xF0 + c div 262144) # u8_of (0x80 + c div 4096 mod 64)
        # u8_of (0x80 + c div 64 mod 64) # u8_of (0x80 + c mod 64) # rest)
        = cons_r c (utf8_decode rest)"
      using b 4 assms by (intro decode4) (simp_all only: cont_u8_of bits6_u8_of mod64, simp_all)
    then show ?thesis using 4 by (simp add: utf8_char.simps)
  qed
qed

declare utf8_decode.simps(2) [simp del]

lemma utf8_decode_concat: "list_all scalar s \<Longrightarrow> utf8_decode (concat (map utf8_char s)) = Inr s"
  by (induction s) (simp_all add: decode_char)

lemma utf8_roundtrip [simp]: "utf8_encode s = Inr bs \<Longrightarrow> utf8_decode bs = Inr s"
  by (auto simp: utf8_encode_def utf8_decode_concat split: if_splits)

lemma utf8_encode_Inl_iff: "utf8_encode s = Inl e \<longleftrightarrow> e = UnicodeEncodeError \<and> \<not> list_all scalar s"
  by (auto simp: utf8_encode_def)

definition decode_ok :: "exn + 'a \<Rightarrow> bool" where
  "decode_ok r \<longleftrightarrow> (\<forall>e. r = Inl e \<longrightarrow> e = UnicodeDecodeError)"

lemma decode_ok_simps [simp]:
  "decode_ok (Inr x)"
  "decode_ok (Inl UnicodeDecodeError)"
  "decode_ok (cons_r y r) = decode_ok r"
  by (simp_all add: decode_ok_def cons_r_def bind_r_Inl_iff)

lemma utf8_decode_ok: "decode_ok (utf8_decode bs)"
proof (induction bs rule: length_induct)
  case (1 bs)
  show ?case
  proof (cases bs)
    case Nil
    then show ?thesis by simp
  next
    case (Cons b bs')
    then have "decode_ok (utf8_decode ys)" if "length ys \<le> length bs'" for ys
      using 1 that by simp
    then show ?thesis unfolding Cons
      by (subst utf8_decode.simps(2)) (simp add: Let_def split: list.split)
  qed
qed

lemma utf8_decode_err: "utf8_decode bs = Inl e \<Longrightarrow> e = UnicodeDecodeError"
  using utf8_decode_ok [of bs] by (simp add: decode_ok_def)

text \<open>The converse: strict decoding accepts only what the encoder would have written.\<close>

lemma u8_ofI: "unat b = n \<Longrightarrow> u8_of n = b"
  by auto

lemma cont_split: "cont b \<Longrightarrow> bits6 b < 64 \<and> unat b = 0x80 + bits6 b"
  by (auto simp: cont_def bits6_def)

lemma utf8_char2:
  assumes "0xC2 \<le> unat b" "unat b < 0xE0" "cont b1"
  shows "utf8_char ((unat b - 0xC0) * 64 + bits6 b1) = [b, b1]"
    "scalar ((unat b - 0xC0) * 64 + bits6 b1)"
proof -
  have c: "bits6 b1 < 64" "unat b1 = 0x80 + bits6 b1" using cont_split assms by auto
  let ?c = "(unat b - 0xC0) * 64 + bits6 b1"
  have r: "0x80 \<le> ?c" "?c < 0x800" using assms c by linarith+
  have "?c div 64 = unat b - 0xC0" "?c mod 64 = bits6 b1" using c by simp_all
  then show "utf8_char ?c = [b, b1]"
    using r assms c by (subst utf8_char.simps) (simp add: u8_ofI)
  show "scalar ?c" using r by (simp add: scalar_def)
qed

lemma utf8_char3:
  assumes "0xE0 \<le> unat b" "unat b < 0xF0" "cont b1" "cont b2"
    and c: "c = (unat b - 0xE0) * 4096 + bits6 b1 * 64 + bits6 b2" and "0x800 \<le> c"
  shows "utf8_char c = [b, b1, b2]"
proof -
  have d: "bits6 b1 < 64" "unat b1 = 0x80 + bits6 b1" "bits6 b2 < 64" "unat b2 = 0x80 + bits6 b2"
    using cont_split assms by auto
  have r: "c < 0x10000" using assms d by linarith
  have m: "c mod 64 = bits6 b2" using c d by (simp add: mod_add_eq [symmetric])
  have "c div 64 = (unat b - 0xE0) * 64 + bits6 b1" using c d by simp
  then have q: "c div 64 mod 64 = bits6 b1" using d by simp
  have e: "c div 4096 = unat b - 0xE0" using c d by linarith
  show ?thesis using r assms d m q e by (subst utf8_char.simps) (simp add: u8_ofI)
qed

lemma horner6: "(n::nat) * 262144 + x * 4096 + y * 64 + z = ((n * 64 + x) * 64 + y) * 64 + z"
  by (simp add: add_mult_distrib)

lemma digit6: "(z::nat) < 64 \<Longrightarrow> (x * 64 + z) mod 64 = z" "(z::nat) < 64 \<Longrightarrow> (x * 64 + z) div 64 = x"
  by simp_all

lemma utf8_char4:
  assumes "0xF0 \<le> unat b" "unat b < 0xF5" "cont b1" "cont b2" "cont b3"
    and c: "c = (unat b - 0xF0) * 262144 + bits6 b1 * 4096 + bits6 b2 * 64 + bits6 b3"
    and "0x10000 \<le> c"
  shows "utf8_char c = [b, b1, b2, b3]"
proof -
  have d: "bits6 b1 < 64" "unat b1 = 0x80 + bits6 b1" "bits6 b2 < 64" "unat b2 = 0x80 + bits6 b2"
    "bits6 b3 < 64" "unat b3 = 0x80 + bits6 b3"
    using cont_split assms by auto
  have e: "c div 262144 = unat b - 0xF0" using c d by linarith
  have f: "c div 4096 = (unat b - 0xF0) * 64 + bits6 b1" using c d by linarith
  have h: "c = (((unat b - 0xF0) * 64 + bits6 b1) * 64 + bits6 b2) * 64 + bits6 b3"
    unfolding c by (rule horner6)
  have g: "c div 64 = ((unat b - 0xF0) * 64 + bits6 b1) * 64 + bits6 b2"
    unfolding h using d by (intro digit6)
  have "c mod 64 = bits6 b3" unfolding h using d by (intro digit6)
  moreover have "c div 64 mod 64 = bits6 b2" unfolding g using d by (intro digit6)
  moreover have "c div 4096 mod 64 = bits6 b1" unfolding f using d by (intro digit6)
  ultimately show ?thesis using assms d e by (subst utf8_char.simps) (simp add: u8_ofI)
qed

definition decodes_to :: "exn + ustr \<Rightarrow> bytes \<Rightarrow> bool" where
  "decodes_to r bs \<longleftrightarrow>
     (\<forall>s. r = Inr s \<longrightarrow> list_all scalar s \<and> concat (map utf8_char s) = bs)"

lemma decodes_to_simps [simp]:
  "decodes_to (Inl e) bs"
  "decodes_to (Inr []) []"
  by (simp_all add: decodes_to_def)

lemma decodes_to_cons:
  "scalar c \<Longrightarrow> utf8_char c = pre \<Longrightarrow> decodes_to r bs \<Longrightarrow> decodes_to (cons_r c r) (pre @ bs)"
  by (auto simp: decodes_to_def cons_r_Inr_iff)

lemma utf8_decode_decodes: "decodes_to (utf8_decode bs) bs"
proof (induction bs rule: length_induct)
  case (1 bs)
  show ?case
  proof (cases bs)
    case Nil
    then show ?thesis by simp
  next
    case (Cons b bs')
    have IH: "decodes_to (utf8_decode ys) ys" if "length ys \<le> length bs'" for ys
      using 1 that Cons by simp
    have one: "decodes_to (cons_r (unat b) (utf8_decode bs')) (b # bs')" if "unat b < 0x80"
      using decodes_to_cons [of "unat b" "[b]"] IH that by (simp add: scalar_def utf8_char.simps)
    have two: "decodes_to (cons_r ((unat b - 0xC0) * 64 + bits6 b1) (utf8_decode ys)) (b # b1 # ys)"
      if "bs' = b1 # ys" "0xC2 \<le> unat b" "unat b < 0xE0" "cont b1" for b1 ys
      using decodes_to_cons [OF utf8_char2(2,1) IH, of b b1 ys] that by simp
    have three: "decodes_to (cons_r c (utf8_decode ys)) (b # b1 # b2 # ys)"
      if "bs' = b1 # b2 # ys" "0xE0 \<le> unat b" "unat b < 0xF0" "cont b1" "cont b2" "scalar c"
        "c = (unat b - 0xE0) * 4096 + bits6 b1 * 64 + bits6 b2" "0x800 \<le> c" for b1 b2 ys c
      using decodes_to_cons [OF that(6) utf8_char3 IH, of b b1 b2 ys] that by simp
    have four: "decodes_to (cons_r c (utf8_decode ys)) (b # b1 # b2 # b3 # ys)"
      if "bs' = b1 # b2 # b3 # ys" "0xF0 \<le> unat b" "unat b < 0xF5" "cont b1" "cont b2" "cont b3"
        "scalar c" "0x10000 \<le> c"
        "c = (unat b - 0xF0) * 262144 + bits6 b1 * 4096 + bits6 b2 * 64 + bits6 b3"
      for b1 b2 b3 ys c
      using decodes_to_cons [OF that(7) utf8_char4 IH, of b b1 b2 b3 ys] that by simp
    show ?thesis unfolding Cons
      by (subst utf8_decode.simps(2)) (simp add: Let_def one two three four split: list.split)
  qed
qed

lemma utf8_decode_canonical: "utf8_decode bs = Inr s \<Longrightarrow> utf8_encode s = Inr bs"
  using utf8_decode_decodes [of bs] by (simp add: decodes_to_def utf8_encode_def)

lemma utf8_decode_iff: "utf8_decode bs = Inr s \<longleftrightarrow> utf8_encode s = Inr bs"
  using utf8_decode_canonical utf8_roundtrip by blast

end
