(* ===== verification/Buffer.thy ===== *)
theory Buffer
  imports Utf8
begin

text \<open>
  \<open>protocol/buffer.py\<close>: the growing \<open>BufferWriter\<close> and the bounds-checked
  \<open>BufferReader\<close>. The writer is modelled with its over-allocated buffer and offset and is
  shown to refine plain concatenation; the reader is modelled with its buffer and offset and
  is shown to consume its input from the front. \<open>wop\<close> names the write calls, so that a
  payload builder of a domain client is the list of the calls it makes.
\<close>

section \<open>The interfaces\<close>

text \<open>What the payload builders rely on: appended bytes come out in order.\<close>

locale byte_sink =
  fixes empty :: "'s"
    and put :: "bytes \<Rightarrow> 's \<Rightarrow> 's"
    and contents :: "'s \<Rightarrow> bytes"
    and invar :: "'s \<Rightarrow> bool"
  assumes invar_empty: "invar empty"
    and contents_empty: "contents empty = []"
    and invar_put: "invar s \<Longrightarrow> invar (put bs s)"
    and contents_put: "invar s \<Longrightarrow> contents (put bs s) = contents s @ bs"
begin

lemma invar_fold: "invar s \<Longrightarrow> invar (fold put bss s)"
  by (induction bss arbitrary: s) (simp_all add: invar_put)

lemma contents_fold: "invar s \<Longrightarrow> contents (fold put bss s) = contents s @ concat bss"
  by (induction bss arbitrary: s) (simp_all add: invar_put contents_put)

lemma contents_all: "contents (fold put bss empty) = concat bss"
  by (simp add: contents_fold invar_empty contents_empty)

end

text \<open>What the decoders rely on: bytes come out in order, a short read raises.\<close>

locale byte_source =
  fixes start :: "bytes \<Rightarrow> 'r"
    and pull :: "nat \<Rightarrow> 'r \<Rightarrow> exn + (bytes \<times> 'r)"
    and pending :: "'r \<Rightarrow> bytes"
    and invar :: "'r \<Rightarrow> bool"
  assumes invar_start: "invar (start bs)"
    and pending_start: "pending (start bs) = bs"
    and pull_ok: "invar r \<Longrightarrow> n \<le> length (pending r) \<Longrightarrow>
      \<exists>r'. pull n r = Inr (take n (pending r), r') \<and> invar r' \<and> pending r' = drop n (pending r)"
    and pull_short: "invar r \<Longrightarrow> length (pending r) < n \<Longrightarrow> pull n r = Inl CodecError"
begin

lemma pull_Inr:
  assumes "invar r" "pull n r = Inr (bs, r')"
  shows "pending r = bs @ pending r'" "length bs = n" "invar r'"
proof -
  have "n \<le> length (pending r)"
    using assms pull_short [of r n] by (cases "length (pending r) < n") auto
  then show "pending r = bs @ pending r'" "length bs = n" "invar r'"
    using pull_ok [of r n] assms by auto
qed

lemma pull_total: "invar r \<Longrightarrow> pull n r = Inl CodecError \<longleftrightarrow> length (pending r) < n"
  using pull_ok [of r n] pull_short [of r n] by (cases "length (pending r) < n") auto

end

section \<open>BufferWriter\<close>

record writer =
  w_buf :: bytes
  w_off :: nat

definition new_writer :: writer where
  "new_writer = \<lparr>w_buf = replicate 128 0, w_off = 0\<rparr>"

text \<open>\<open>_reserve\<close>: the start of \<open>n\<close> bytes, the buffer at least doubled when it is short.\<close>

definition reserve :: "nat \<Rightarrow> writer \<Rightarrow> nat \<times> writer" where
  "reserve n w =
     (let start = w_off w;
          stop = start + n;
          buf = (if stop > length (w_buf w)
                 then w_buf w @ replicate (max (stop - length (w_buf w)) (length (w_buf w))) 0
                 else w_buf w)
      in (start, \<lparr>w_buf = buf, w_off = stop\<rparr>))"

text \<open>\<open>struct.pack_into\<close> and the slice assignment overwrite in place.\<close>

definition overwrite :: "nat \<Rightarrow> bytes \<Rightarrow> bytes \<Rightarrow> bytes" where
  "overwrite start bs buf = take start buf @ bs @ drop (start + length bs) buf"

definition write_bytes :: "bytes \<Rightarrow> writer \<Rightarrow> writer" where
  "write_bytes bs w =
     (let (start, w') = reserve (length bs) w
      in w'\<lparr>w_buf := overwrite start bs (w_buf w')\<rparr>)"

definition write_packed :: "nat \<Rightarrow> int \<Rightarrow> writer \<Rightarrow> exn + writer" where
  "write_packed n value w =
     (let (start, w') = reserve n w
      in bind_r (pack StructError n value)
           (\<lambda>bs. Inr (w'\<lparr>w_buf := overwrite start bs (w_buf w')\<rparr>)))"

definition write_u8 :: "int \<Rightarrow> writer \<Rightarrow> exn + writer" where
  "write_u8 = write_packed 1"

definition write_u16_be :: "int \<Rightarrow> writer \<Rightarrow> exn + writer" where
  "write_u16_be = write_packed 2"

definition write_u32_be :: "int \<Rightarrow> writer \<Rightarrow> exn + writer" where
  "write_u32_be = write_packed 4"

definition write_u64_be :: "int \<Rightarrow> writer \<Rightarrow> exn + writer" where
  "write_u64_be = write_packed 8"

definition write_string :: "ustr \<Rightarrow> writer \<Rightarrow> exn + writer" where
  "write_string value w =
     bind_r (utf8_encode value) (\<lambda>encoded.
     bind_r (write_u32_be (int (length encoded)) w) (\<lambda>w'.
     Inr (write_bytes encoded w')))"

definition write_route :: "ustr \<Rightarrow> writer \<Rightarrow> exn + writer" where
  "write_route = write_string"

definition write_optional_u64 :: "int option \<Rightarrow> writer \<Rightarrow> exn + writer" where
  "write_optional_u64 value w =
     (case value of
        None \<Rightarrow> write_u8 0 w
      | Some v \<Rightarrow> bind_r (write_u8 1 w) (write_u64_be v))"

definition build :: "writer \<Rightarrow> bytes" where
  "build w = take (w_off w) (w_buf w)"

definition writer_ok :: "writer \<Rightarrow> bool" where
  "writer_ok w \<longleftrightarrow> w_off w \<le> length (w_buf w)"

lemma write_bytes_build: "writer_ok w \<Longrightarrow> build (write_bytes bs w) = build w @ bs"
  by (auto simp: writer_ok_def build_def write_bytes_def reserve_def overwrite_def Let_def)

lemma write_bytes_ok: "writer_ok w \<Longrightarrow> writer_ok (write_bytes bs w)"
  by (auto simp: writer_ok_def write_bytes_def reserve_def overwrite_def Let_def)

interpretation buf: byte_sink new_writer write_bytes build writer_ok
proof
  show "writer_ok new_writer" "build new_writer = []"
    by (simp_all add: new_writer_def writer_ok_def build_def)
qed (simp_all add: write_bytes_build write_bytes_ok)

lemma write_packed_eq:
  "write_packed n v w = bind_r (pack StructError n v) (\<lambda>bs. Inr (write_bytes bs w))"
  by (auto simp: write_packed_def write_bytes_def pack_def Let_def split: prod.split)

section \<open>Sequences of write calls\<close>

datatype wop =
    U8 int | U16 int | U32 int | U64 int
  | Raw bytes
  | Str ustr
  | Route ustr
  | OptU64 "int option"

fun exec_wop :: "wop \<Rightarrow> writer \<Rightarrow> exn + writer" where
  "exec_wop (U8 v) w = write_u8 v w"
| "exec_wop (U16 v) w = write_u16_be v w"
| "exec_wop (U32 v) w = write_u32_be v w"
| "exec_wop (U64 v) w = write_u64_be v w"
| "exec_wop (Raw bs) w = Inr (write_bytes bs w)"
| "exec_wop (Str s) w = write_string s w"
| "exec_wop (Route s) w = write_route s w"
| "exec_wop (OptU64 v) w = write_optional_u64 v w"

fun exec_wops :: "wop list \<Rightarrow> writer \<Rightarrow> exn + writer" where
  "exec_wops [] w = Inr w"
| "exec_wops (x # xs) w = bind_r (exec_wop x w) (exec_wops xs)"

definition build_payload :: "wop list \<Rightarrow> exn + bytes" where
  "build_payload ops = bind_r (exec_wops ops new_writer) (\<lambda>w. Inr (build w))"

text \<open>The specification: every call stands for the bytes of its field.\<close>

definition str_field :: "ustr \<Rightarrow> exn + bytes" where
  "str_field s = bind_r (utf8_encode s) (\<lambda>bs.
     bind_r (pack StructError 4 (int (length bs))) (\<lambda>h. Inr (h @ bs)))"

fun wop_bytes :: "wop \<Rightarrow> exn + bytes" where
  "wop_bytes (U8 v) = pack StructError 1 v"
| "wop_bytes (U16 v) = pack StructError 2 v"
| "wop_bytes (U32 v) = pack StructError 4 v"
| "wop_bytes (U64 v) = pack StructError 8 v"
| "wop_bytes (Raw bs) = Inr bs"
| "wop_bytes (Str s) = str_field s"
| "wop_bytes (Route s) = str_field s"
| "wop_bytes (OptU64 None) = Inr [0]"
| "wop_bytes (OptU64 (Some v)) = bind_r (pack StructError 8 v) (\<lambda>bs. Inr (1 # bs))"

fun concat_r :: "('e + 'a list) list \<Rightarrow> 'e + 'a list" where
  "concat_r [] = Inr []"
| "concat_r (r # rs) = bind_r r (\<lambda>x. bind_r (concat_r rs) (\<lambda>xs. Inr (x @ xs)))"

lemma concat_r_append:
  "concat_r (rs @ ss) = bind_r (concat_r rs) (\<lambda>x. bind_r (concat_r ss) (\<lambda>y. Inr (x @ y)))"
proof (induction rs)
  case Nil
  then show ?case by (cases "concat_r ss") auto
next
  case (Cons r rs)
  then show ?case by (cases r; cases "concat_r rs"; cases "concat_r ss") auto
qed

lemma be_bytes_0_1: "be_bytes (Suc 0) 0 = [0]" "be_bytes (Suc 0) 1 = [1]"
  by (simp_all add: be_bytes.simps(2))

lemma exec_wop_spec:
  assumes "writer_ok w"
  shows "case wop_bytes x of
           Inl e \<Rightarrow> exec_wop x w = Inl e
         | Inr bs \<Rightarrow> \<exists>w'. exec_wop x w = Inr w' \<and> writer_ok w' \<and> build w' = build w @ bs"
proof (cases x)
  case (OptU64 v)
  with assms show ?thesis
    by (cases v; cases "pack StructError 8 (the v)")
      (auto simp: write_optional_u64_def write_u8_def write_u64_be_def write_packed_eq
        write_bytes_build write_bytes_ok be_bytes_0_1)
qed (use assms in \<open>auto simp: write_u8_def write_u16_be_def write_u32_be_def write_u64_be_def
      write_packed_eq write_route_def write_string_def str_field_def bind_r_def
      write_bytes_build write_bytes_ok split: sum.splits\<close>)

lemma exec_wops_spec:
  "writer_ok w \<Longrightarrow>
   case concat_r (map wop_bytes xs) of
     Inl e \<Rightarrow> exec_wops xs w = Inl e
   | Inr bs \<Rightarrow> \<exists>w'. exec_wops xs w = Inr w' \<and> writer_ok w' \<and> build w' = build w @ bs"
proof (induction xs arbitrary: w)
  case Nil
  then show ?case by simp
next
  case (Cons x xs)
  show ?case
  proof (cases "wop_bytes x")
    case (Inl e)
    then show ?thesis using exec_wop_spec [OF Cons.prems, of x] by simp
  next
    case (Inr bs)
    then obtain w' where w': "exec_wop x w = Inr w'" "writer_ok w'" "build w' = build w @ bs"
      using exec_wop_spec [OF Cons.prems, of x] by auto
    show ?thesis using Cons.IH [OF w'(2)] w' Inr by (auto simp: bind_r_def split: sum.splits)
  qed
qed

theorem build_payload_spec: "build_payload ops = concat_r (map wop_bytes ops)"
  using exec_wops_spec [OF buf.invar_empty, of ops]
  by (auto simp: build_payload_def buf.contents_empty split: sum.splits)

section \<open>BufferReader\<close>

record reader =
  r_buf :: bytes
  r_off :: nat

type_synonym 'a rd = "reader \<Rightarrow> exn + ('a \<times> reader)"

definition new_reader :: "bytes \<Rightarrow> reader" where
  "new_reader data = \<lparr>r_buf = data, r_off = 0\<rparr>"

text \<open>\<open>_read\<close>\<close>

definition read_raw :: "nat \<Rightarrow> bytes rd" where
  "read_raw n r =
     (if r_off r + n > length (r_buf r) then Inl CodecError
      else Inr (seg (r_off r) n (r_buf r), r\<lparr>r_off := r_off r + n\<rparr>))"

definition rd_bind :: "'a rd \<Rightarrow> ('a \<Rightarrow> 'b rd) \<Rightarrow> 'b rd" where
  "rd_bind m f r = bind_r (m r) (\<lambda>(x, r'). f x r')"

definition rd_return :: "'a \<Rightarrow> 'a rd" where
  "rd_return x r = Inr (x, r)"

definition rd_raise :: "exn \<Rightarrow> 'a rd" where
  "rd_raise e r = Inl e"

definition rd_lift :: "exn + 'a \<Rightarrow> 'a rd" where
  "rd_lift m r = bind_r m (\<lambda>x. Inr (x, r))"

definition read_uint :: "nat \<Rightarrow> int rd" where
  "read_uint n = rd_bind (read_raw n) (\<lambda>bs. rd_return (be_int bs))"

definition read_u8 :: "int rd" where
  "read_u8 = read_uint 1"

definition read_u16_be :: "int rd" where
  "read_u16_be = read_uint 2"

definition read_u32_be :: "int rd" where
  "read_u32_be = read_uint 4"

definition read_u64_be :: "int rd" where
  "read_u64_be = read_uint 8"

definition read_bytes :: "int \<Rightarrow> bytes rd" where
  "read_bytes n = read_raw (nat n)"

definition read_string :: "ustr rd" where
  "read_string = rd_bind read_u32_be (\<lambda>n. rd_bind (read_bytes n) (\<lambda>bs. rd_lift (utf8_decode bs)))"

definition read_route :: "ustr rd" where
  "read_route = read_string"

definition read_optional_u64 :: "int option rd" where
  "read_optional_u64 =
     rd_bind read_u8 (\<lambda>flag.
     if flag = 0 then rd_return None
     else if flag \<noteq> 1 then rd_raise CodecError
     else rd_bind read_u64_be (\<lambda>v. rd_return (Some v)))"

definition remaining :: "reader \<Rightarrow> bytes" where
  "remaining r = drop (r_off r) (r_buf r)"

definition remaining_bytes :: "reader \<Rightarrow> int" where
  "remaining_bytes r = int (length (r_buf r)) - int (r_off r)"

definition is_eof :: "reader \<Rightarrow> bool" where
  "is_eof r \<longleftrightarrow> length (r_buf r) \<le> r_off r"

text \<open>\<open>if not reader.is_eof(): raise e\<close>, \<open>remaining_bytes\<close> as a reader step, and a whole decoder.\<close>

definition expect_eof :: "exn \<Rightarrow> unit rd" where
  "expect_eof e r = (if is_eof r then Inr ((), r) else Inl e)"

definition rd_get :: "(reader \<Rightarrow> 'a) \<Rightarrow> 'a rd" where
  "rd_get f r = Inr (f r, r)"

definition run_reader :: "'a rd \<Rightarrow> bytes \<Rightarrow> exn + 'a" where
  "run_reader m data = bind_r (m (new_reader data)) (\<lambda>(x, _). Inr x)"

text \<open>\<open>reader.read_bytes(reader.read_u32_be())\<close>\<close>

definition read_blob :: "bytes rd" where
  "read_blob = rd_bind read_u32_be read_bytes"

text \<open>\<open>for _ in range(count)\<close> around a reader step.\<close>

primrec rd_times :: "nat \<Rightarrow> 'a rd \<Rightarrow> 'a list rd" where
  "rd_times 0 m = rd_return []"
| "rd_times (Suc n) m = rd_bind m (\<lambda>x. rd_bind (rd_times n m) (\<lambda>xs. rd_return (x # xs)))"

definition reader_ok :: "reader \<Rightarrow> bool" where
  "reader_ok r \<longleftrightarrow> r_off r \<le> length (r_buf r)"

interpretation src: byte_source new_reader read_raw remaining reader_ok
proof
  fix r :: reader and n
  assume "reader_ok r" "n \<le> length (remaining r)"
  then show "\<exists>r'. read_raw n r = Inr (take n (remaining r), r') \<and> reader_ok r' \<and>
      remaining r' = drop n (remaining r)"
    by (auto simp: reader_ok_def read_raw_def remaining_def seg_def add.commute)
qed (auto simp: new_reader_def reader_ok_def read_raw_def remaining_def)

section \<open>Readers on the bytes they expect\<close>

text \<open>\<open>reader_at pre suf\<close> has consumed \<open>pre\<close> and has \<open>suf\<close> before it.\<close>

definition reader_at :: "bytes \<Rightarrow> bytes \<Rightarrow> reader" where
  "reader_at pre suf = \<lparr>r_buf = pre @ suf, r_off = length pre\<rparr>"

lemma new_reader_at: "new_reader data = reader_at [] data"
  by (simp add: new_reader_def reader_at_def)

lemma reader_at_views [simp]:
  "remaining (reader_at pre suf) = suf"
  "remaining_bytes (reader_at pre suf) = int (length suf)"
  "is_eof (reader_at pre suf) \<longleftrightarrow> suf = []"
  "reader_ok (reader_at pre suf)"
  by (simp_all add: remaining_def remaining_bytes_def is_eof_def reader_ok_def reader_at_def)

lemma rd_simps [simp]:
  "rd_bind (rd_return x) f = f x"
  "rd_return x r = Inr (x, r)"
  "rd_raise e r = Inl e"
  "rd_lift (Inr x) r = Inr (x, r)"
  "rd_lift (Inl e) r = Inl e"
  "rd_get g r = Inr (g r, r)"
  "expect_eof e (reader_at pre suf) = (if suf = [] then Inr ((), reader_at pre suf) else Inl e)"
  by (simp_all add: rd_bind_def rd_return_def rd_raise_def rd_lift_def rd_get_def expect_eof_def
      fun_eq_iff)

lemma rd_bind_simps [simp]:
  "rd_bind (rd_raise e) f r = Inl e"
  "rd_bind (rd_get g) f r = f (g r) r"
  "rd_bind (rd_lift (Inr x)) f r = f x r"
  "rd_bind (rd_lift (Inl e)) f r = Inl e"
  "rd_bind (expect_eof e) h (reader_at pre suf) =
     (if suf = [] then h () (reader_at pre suf) else Inl e)"
  by (simp_all add: rd_bind_def)

lemma rd_bind_Inr: "m r = Inr (x, r') \<Longrightarrow> rd_bind m f r = f x r'"
  by (simp add: rd_bind_def)

lemma rd_bind_Inr_iff: "rd_bind m f r = Inr y \<longleftrightarrow> (\<exists>x r'. m r = Inr (x, r') \<and> f x r' = Inr y)"
  by (auto simp: rd_bind_def bind_r_Inr_iff)

lemma run_reader_Inr_iff: "run_reader m data = Inr x \<longleftrightarrow> (\<exists>r. m (reader_at [] data) = Inr (x, r))"
  by (auto simp: run_reader_def bind_r_Inr_iff new_reader_at)

lemma read_uint_range: "read_uint n r = Inr (v, r') \<Longrightarrow> 0 \<le> v \<and> v < 256 ^ n"
  using be_int_less [of "seg (r_off r) n (r_buf r)"]
  by (auto simp: read_uint_def rd_bind_Inr_iff read_raw_def split: if_splits)

lemma read_range:
  "read_u8 r = Inr (v, r') \<Longrightarrow> 0 \<le> v \<and> v < 256"
  "read_u16_be r = Inr (v, r') \<Longrightarrow> 0 \<le> v \<and> v < 65536"
  "read_u32_be r = Inr (v, r') \<Longrightarrow> 0 \<le> v \<and> v < 4294967296"
  "read_u64_be r = Inr (v, r') \<Longrightarrow> 0 \<le> v \<and> v < 18446744073709551616"
  unfolding read_u8_def read_u16_be_def read_u32_be_def read_u64_be_def
  by (auto dest: read_uint_range)

lemma rd_bind_Inl: "m r = Inl e \<Longrightarrow> rd_bind m f r = Inl e"
  by (simp add: rd_bind_def)

lemma read_raw_at [simp]:
  "length bs = n \<Longrightarrow> read_raw n (reader_at pre (bs @ suf)) = Inr (bs, reader_at (pre @ bs) suf)"
  by (simp add: read_raw_def reader_at_def seg_def)

lemma read_raw_at_all [simp]:
  "length bs = n \<Longrightarrow> read_raw n (reader_at pre bs) = Inr (bs, reader_at (pre @ bs) [])"
  using read_raw_at [of bs n pre "[]"] by simp

lemma read_raw_at_short [simp]: "length suf < n \<Longrightarrow> read_raw n (reader_at pre suf) = Inl CodecError"
  by (simp add: read_raw_def reader_at_def)

lemma read_raw_at_take:
  "n \<le> length suf \<Longrightarrow>
   read_raw n (reader_at pre suf) = Inr (take n suf, reader_at (pre @ take n suf) (drop n suf))"
  using read_raw_at [of "take n suf" n pre "drop n suf"] by simp

lemma read_uint_at:
  "0 \<le> v \<Longrightarrow> v < 256 ^ n \<Longrightarrow>
   rd_bind (read_uint n) f (reader_at pre (be_bytes n v @ suf)) =
     f v (reader_at (pre @ be_bytes n v) suf)"
  by (simp add: read_uint_def rd_bind_def)

lemmas read_fields = read_u8_def read_u16_be_def read_u32_be_def read_u64_be_def

lemma read_u8_at [simp]:
  "0 \<le> v \<Longrightarrow> v < 256 \<Longrightarrow>
   rd_bind read_u8 f (reader_at pre (be_bytes (Suc 0) v @ suf)) =
     f v (reader_at (pre @ be_bytes (Suc 0) v) suf)"
  using read_uint_at [of v 1] by (simp add: read_u8_def)

lemma read_u8_cons [simp]:
  "rd_bind read_u8 f (reader_at pre (b # suf)) = f (uint b) (reader_at (pre @ [b]) suf)"
  using read_raw_at [of "[b]" 1 pre suf]
  by (simp add: read_u8_def read_uint_def rd_bind_def)

lemma read_u16_at [simp]:
  "0 \<le> v \<Longrightarrow> v < 65536 \<Longrightarrow>
   rd_bind read_u16_be f (reader_at pre (be_bytes 2 v @ suf)) =
     f v (reader_at (pre @ be_bytes 2 v) suf)"
  using read_uint_at [of v 2] by (simp add: read_u16_be_def)

lemma read_u32_at [simp]:
  "0 \<le> v \<Longrightarrow> v < 4294967296 \<Longrightarrow>
   rd_bind read_u32_be f (reader_at pre (be_bytes 4 v @ suf)) =
     f v (reader_at (pre @ be_bytes 4 v) suf)"
  using read_uint_at [of v 4] by (simp add: read_u32_be_def)

lemma read_u64_at [simp]:
  "0 \<le> v \<Longrightarrow> v < 18446744073709551616 \<Longrightarrow>
   rd_bind read_u64_be f (reader_at pre (be_bytes 8 v @ suf)) =
     f v (reader_at (pre @ be_bytes 8 v) suf)"
  using read_uint_at [of v 8] by (simp add: read_u64_be_def)

lemma read_bytes_at [simp]:
  "nat n = length bs \<Longrightarrow>
   rd_bind (read_bytes n) f (reader_at pre (bs @ suf)) = f bs (reader_at (pre @ bs) suf)"
  by (simp add: read_bytes_def rd_bind_def)

lemma rd_bind_assoc: "rd_bind (rd_bind m f) g = rd_bind m (\<lambda>x. rd_bind (f x) g)"
  by (auto simp: rd_bind_def fun_eq_iff bind_r_def split: sum.splits)

lemma read_blob_at [simp]:
  "int (length bs) < 4294967296 \<Longrightarrow>
   rd_bind read_blob f (reader_at pre (be_bytes 4 (int (length bs)) @ bs @ suf)) =
     f bs (reader_at (pre @ be_bytes 4 (int (length bs)) @ bs) suf)"
  by (simp add: read_blob_def rd_bind_assoc)

lemma str_field_Inr_iff:
  "str_field s = Inr fld \<longleftrightarrow>
   (\<exists>bs. utf8_encode s = Inr bs \<and> int (length bs) < 4294967296 \<and>
         fld = be_bytes 4 (int (length bs)) @ bs)"
  by (auto simp: str_field_def bind_r_Inr_iff pack_Inr_iff)

lemma read_string_at [simp]:
  assumes "str_field s = Inr fld"
  shows "rd_bind read_string f (reader_at pre (fld @ suf)) = f s (reader_at (pre @ fld) suf)"
proof -
  obtain bs where bs: "utf8_encode s = Inr bs" "int (length bs) < 4294967296"
    "fld = be_bytes 4 (int (length bs)) @ bs"
    using assms by (auto simp: str_field_Inr_iff)
  then have "utf8_decode bs = Inr s" by simp
  with bs show ?thesis
    by (simp add: read_string_def rd_bind_assoc)
qed

lemma read_route_at [simp]:
  "str_field s = Inr fld \<Longrightarrow>
   rd_bind read_route f (reader_at pre (fld @ suf)) = f s (reader_at (pre @ fld) suf)"
  by (simp add: read_route_def)

text \<open>Variants of the rules for the last field of a payload.\<close>

lemma read_last [simp]:
  "0 \<le> v \<Longrightarrow> v < 18446744073709551616 \<Longrightarrow>
   rd_bind read_u64_be f (reader_at pre (be_bytes 8 v)) = f v (reader_at (pre @ be_bytes 8 v) [])"
  "0 \<le> v \<Longrightarrow> v < 4294967296 \<Longrightarrow>
   rd_bind read_u32_be f (reader_at pre (be_bytes 4 v)) = f v (reader_at (pre @ be_bytes 4 v) [])"
  using read_u64_at [of v f pre "[]"] read_u32_at [of v f pre "[]"] by simp_all

lemma read_bytes_last [simp]:
  "nat n = length bs \<Longrightarrow>
   rd_bind (read_bytes n) f (reader_at pre bs) = f bs (reader_at (pre @ bs) [])"
  using read_bytes_at [of n bs f pre "[]"] by simp

lemma read_blob_last [simp]:
  "int (length bs) < 4294967296 \<Longrightarrow>
   rd_bind read_blob f (reader_at pre (be_bytes 4 (int (length bs)) @ bs)) =
     f bs (reader_at (pre @ be_bytes 4 (int (length bs)) @ bs) [])"
  using read_blob_at [of bs f pre "[]"] by simp

lemma read_string_last [simp]:
  "str_field s = Inr fld \<Longrightarrow>
   rd_bind read_string f (reader_at pre fld) = f s (reader_at (pre @ fld) [])"
  using read_string_at [of s fld f pre "[]"] by simp

lemma read_route_last [simp]:
  "str_field s = Inr fld \<Longrightarrow>
   rd_bind read_route f (reader_at pre fld) = f s (reader_at (pre @ fld) [])"
  using read_route_at [of s fld f pre "[]"] by simp

lemma read_short [simp]:
  "rd_bind read_u8 f (reader_at pre []) = Inl CodecError"
  "length suf < 2 \<Longrightarrow> rd_bind read_u16_be g (reader_at pre suf) = Inl CodecError"
  "length suf < 4 \<Longrightarrow> rd_bind read_u32_be g (reader_at pre suf) = Inl CodecError"
  "length suf < 8 \<Longrightarrow> rd_bind read_u64_be g (reader_at pre suf) = Inl CodecError"
  by (simp_all add: read_fields read_uint_def rd_bind_def)

lemma read_optional_u64_at [simp]:
  "wop_bytes (OptU64 v) = Inr fld \<Longrightarrow>
   rd_bind read_optional_u64 f (reader_at pre (fld @ suf)) = f v (reader_at (pre @ fld) suf)"
  by (cases v)
    (auto simp: read_optional_u64_def rd_bind_assoc bind_r_Inr_iff pack_Inr_iff)

lemma read_optional_u64_last [simp]:
  "wop_bytes (OptU64 v) = Inr fld \<Longrightarrow>
   rd_bind read_optional_u64 f (reader_at pre fld) = f v (reader_at (pre @ fld) [])"
  using read_optional_u64_at [of v fld f pre "[]"] by simp

section \<open>What a reader may raise\<close>

definition raises :: "'a rd \<Rightarrow> exn set \<Rightarrow> bool" where
  "raises m E \<longleftrightarrow> (\<forall>r e. m r = Inl e \<longrightarrow> e \<in> E)"

named_theorems raises_intros \<open>compositional bounds on the exceptions of a reader\<close>

lemma raises_bind [raises_intros]:
  "raises m E \<Longrightarrow> (\<And>x. raises (f x) E) \<Longrightarrow> raises (rd_bind m f) E"
  by (fastforce simp: raises_def rd_bind_def bind_r_Inl_iff)

lemma raises_basic [raises_intros]:
  "raises (rd_return x) E"
  "e \<in> E \<Longrightarrow> raises (rd_raise e) E"
  "raises (rd_get g) E"
  "e \<in> E \<Longrightarrow> raises (expect_eof e) E"
  "CodecError \<in> E \<Longrightarrow> raises (read_raw n) E"
  "(\<And>e. r = Inl e \<Longrightarrow> e \<in> E) \<Longrightarrow> raises (rd_lift r) E"
  by (auto simp: raises_def expect_eof_def read_raw_def rd_lift_def bind_r_Inl_iff split: if_splits)

lemma raises_if [raises_intros]:
  "(b \<Longrightarrow> raises m E) \<Longrightarrow> (\<not> b \<Longrightarrow> raises m' E) \<Longrightarrow> raises (if b then m else m') E"
  by simp

lemma raises_fields [raises_intros]:
  "CodecError \<in> E \<Longrightarrow> raises (read_uint n) E"
  "CodecError \<in> E \<Longrightarrow> raises read_u8 E"
  "CodecError \<in> E \<Longrightarrow> raises read_u16_be E"
  "CodecError \<in> E \<Longrightarrow> raises read_u32_be E"
  "CodecError \<in> E \<Longrightarrow> raises read_u64_be E"
  "CodecError \<in> E \<Longrightarrow> raises (read_bytes k) E"
  unfolding read_fields read_uint_def read_bytes_def by (intro raises_intros | assumption)+

lemma raises_texts [raises_intros]:
  "CodecError \<in> E \<Longrightarrow> raises read_blob E"
  "CodecError \<in> E \<Longrightarrow> UnicodeDecodeError \<in> E \<Longrightarrow> raises read_string E"
  "CodecError \<in> E \<Longrightarrow> UnicodeDecodeError \<in> E \<Longrightarrow> raises read_route E"
  "CodecError \<in> E \<Longrightarrow> raises read_optional_u64 E"
  unfolding read_blob_def read_string_def read_route_def read_optional_u64_def
  by (intro raises_intros | assumption | (drule utf8_decode_err, simp))+

lemma raises_times [raises_intros]: "raises m E \<Longrightarrow> raises (rd_times n m) E"
  by (induction n) (auto intro!: raises_intros)

lemma raises_run: "raises m E \<Longrightarrow> run_reader m data = Inl e \<Longrightarrow> e \<in> E"
  by (auto simp: raises_def run_reader_def bind_r_Inl_iff)

section \<open>Round trip\<close>

text \<open>A round trip of the two classes: what the calls wrote, the matching reads return.\<close>

theorem string_u64_roundtrip:
  assumes "build_payload [Str s, U64 v, OptU64 w] = Inr data"
  shows "run_reader (rd_bind read_string (\<lambda>a. rd_bind read_u64_be (\<lambda>b.
           rd_bind read_optional_u64 (\<lambda>c. rd_return (a, b, c))))) data = Inr (s, v, w)"
proof -
  obtain f1 f3 where f: "str_field s = Inr f1" "wop_bytes (OptU64 w) = Inr f3"
    "0 \<le> v" "v < 18446744073709551616" "data = f1 @ be_bytes 8 v @ f3"
    using assms by (auto simp: build_payload_spec bind_r_Inr_iff pack_Inr_iff)
  then show ?thesis by (simp add: run_reader_def new_reader_at)
qed

end
