(* ===== verification/Messages.thy ===== *)
theory Messages
  imports Main
begin

text \<open>
  The message type numbers of \<open>protocol/messages.py\<close>. Every constant unfolds by
  simplification, so that a decoder branch on a message type is decided by arithmetic.
\<close>

definition MSG_CONNECT :: int where [simp]: "MSG_CONNECT = 1"
definition MSG_HELLO :: int where [simp]: "MSG_HELLO = 2"
definition MSG_CONNECT_REJECTED :: int where [simp]: "MSG_CONNECT_REJECTED = 3"
definition MSG_GOAWAY :: int where [simp]: "MSG_GOAWAY = 4"

definition MSG_KV_BEGIN :: int where [simp]: "MSG_KV_BEGIN = 100"
definition MSG_KV_COMMIT :: int where [simp]: "MSG_KV_COMMIT = 101"
definition MSG_KV_ROLLBACK :: int where [simp]: "MSG_KV_ROLLBACK = 102"
definition MSG_KV_GET :: int where [simp]: "MSG_KV_GET = 103"
definition MSG_KV_PUT :: int where [simp]: "MSG_KV_PUT = 104"
definition MSG_KV_INSERT :: int where [simp]: "MSG_KV_INSERT = 105"
definition MSG_KV_DELETE :: int where [simp]: "MSG_KV_DELETE = 106"
definition MSG_KV_DELETE_RANGE :: int where [simp]: "MSG_KV_DELETE_RANGE = 107"
definition MSG_KV_SCAN :: int where [simp]: "MSG_KV_SCAN = 108"
definition MSG_KV_SUBSCRIBE :: int where [simp]: "MSG_KV_SUBSCRIBE = 109"
definition MSG_KV_UNSUBSCRIBE :: int where [simp]: "MSG_KV_UNSUBSCRIBE = 110"
definition MSG_KV_NOTIFY :: int where [simp]: "MSG_KV_NOTIFY = 111"
definition MSG_QUEUE_ENQUEUE :: int where [simp]: "MSG_QUEUE_ENQUEUE = 200"
definition MSG_QUEUE_RESERVE :: int where [simp]: "MSG_QUEUE_RESERVE = 202"
definition MSG_QUEUE_EXTEND :: int where [simp]: "MSG_QUEUE_EXTEND = 203"
definition MSG_QUEUE_COMPLETE :: int where [simp]: "MSG_QUEUE_COMPLETE = 204"
definition MSG_QUEUE_SUBSCRIBE :: int where [simp]: "MSG_QUEUE_SUBSCRIBE = 207"
definition MSG_QUEUE_UNSUBSCRIBE :: int where [simp]: "MSG_QUEUE_UNSUBSCRIBE = 208"
definition MSG_QUEUE_NOTIFY :: int where [simp]: "MSG_QUEUE_NOTIFY = 209"
definition MSG_QUEUE_NACK :: int where [simp]: "MSG_QUEUE_NACK = 210"
definition MSG_QUEUE_AVAILABILITY_NOTIFY :: int where [simp]: "MSG_QUEUE_AVAILABILITY_NOTIFY = 209"
definition MSG_RPC_SUBSCRIBE_WORKER :: int where [simp]: "MSG_RPC_SUBSCRIBE_WORKER = 300"
definition MSG_RPC_UNSUBSCRIBE_WORKER :: int where [simp]: "MSG_RPC_UNSUBSCRIBE_WORKER = 301"
definition MSG_RPC_REQUEST :: int where [simp]: "MSG_RPC_REQUEST = 302"
definition MSG_RPC_RESPONSE :: int where [simp]: "MSG_RPC_RESPONSE = 303"
definition MSG_RPC_CANCELLATION :: int where [simp]: "MSG_RPC_CANCELLATION = 304"
definition MSG_RPC_LIFECYCLE :: int where [simp]: "MSG_RPC_LIFECYCLE = 305"
definition MSG_LEASE_ACQUIRE :: int where [simp]: "MSG_LEASE_ACQUIRE = 400"
definition MSG_LEASE_RENEW :: int where [simp]: "MSG_LEASE_RENEW = 401"
definition MSG_LEASE_EXTEND :: int where [simp]: "MSG_LEASE_EXTEND = 401"
definition MSG_LEASE_RELEASE :: int where [simp]: "MSG_LEASE_RELEASE = 402"
definition MSG_LEASE_QUERY :: int where [simp]: "MSG_LEASE_QUERY = 403"
definition MSG_LEASE_SUBSCRIBE :: int where [simp]: "MSG_LEASE_SUBSCRIBE = 407"
definition MSG_LEASE_UNSUBSCRIBE :: int where [simp]: "MSG_LEASE_UNSUBSCRIBE = 408"
definition MSG_LEASE_NOTIFY :: int where [simp]: "MSG_LEASE_NOTIFY = 409"
definition MSG_LEASE_LIST :: int where [simp]: "MSG_LEASE_LIST = 410"
definition MSG_NOTICE_PUBLISH :: int where [simp]: "MSG_NOTICE_PUBLISH = 500"
definition MSG_NOTICE_SUBSCRIBE :: int where [simp]: "MSG_NOTICE_SUBSCRIBE = 501"
definition MSG_NOTICE_UNSUBSCRIBE :: int where [simp]: "MSG_NOTICE_UNSUBSCRIBE = 502"
definition MSG_NOTICE_UNSUBSCRIBE_ALL :: int where [simp]: "MSG_NOTICE_UNSUBSCRIBE_ALL = 503"
definition MSG_NOTICE_NOTIFY :: int where [simp]: "MSG_NOTICE_NOTIFY = 504"
definition MSG_STREAM_BEGIN :: int where [simp]: "MSG_STREAM_BEGIN = 600"
definition MSG_STREAM_APPEND :: int where [simp]: "MSG_STREAM_APPEND = 601"
definition MSG_STREAM_COMMIT :: int where [simp]: "MSG_STREAM_COMMIT = 602"
definition MSG_STREAM_ROLLBACK :: int where [simp]: "MSG_STREAM_ROLLBACK = 603"
definition MSG_STREAM_READ :: int where [simp]: "MSG_STREAM_READ = 604"
definition MSG_STREAM_LAST :: int where [simp]: "MSG_STREAM_LAST = 605"
definition MSG_STREAM_GET_METADATA :: int where [simp]: "MSG_STREAM_GET_METADATA = 606"
definition MSG_STREAM_SUBSCRIBE :: int where [simp]: "MSG_STREAM_SUBSCRIBE = 607"
definition MSG_STREAM_UNSUBSCRIBE :: int where [simp]: "MSG_STREAM_UNSUBSCRIBE = 608"
definition MSG_STREAM_NOTIFY :: int where [simp]: "MSG_STREAM_NOTIFY = 609"
definition MSG_SCHEDULE_CREATE :: int where [simp]: "MSG_SCHEDULE_CREATE = 700"
definition MSG_SCHEDULE_CANCEL :: int where [simp]: "MSG_SCHEDULE_CANCEL = 701"
definition MSG_SCHEDULE_LIST :: int where [simp]: "MSG_SCHEDULE_LIST = 702"
definition MSG_SCHEDULE_SUBSCRIBE :: int where [simp]: "MSG_SCHEDULE_SUBSCRIBE = 703"
definition MSG_SCHEDULE_UNSUBSCRIBE :: int where [simp]: "MSG_SCHEDULE_UNSUBSCRIBE = 704"
definition MSG_SCHEDULE_NOTIFY :: int where [simp]: "MSG_SCHEDULE_NOTIFY = 705"
definition MSG_SCHEDULE_CREATE_BATCH :: int where [simp]: "MSG_SCHEDULE_CREATE_BATCH = 706"
definition MSG_SCHEDULE_LIST_V2 :: int where [simp]: "MSG_SCHEDULE_LIST_V2 = 702"

end
