(* ===== verification/Frame.thy ===== *)
theory Frame
  imports Buffer Messages
begin

text \<open>
  \<open>protocol/frame.py\<close>: the 15-byte Wire 3 header (message type, flags, correlation id,
  payload length) and its codec. Encoding and decoding are inverse to each other in both
  directions, and a frame never exceeds the message size limit.
\<close>

unbundle bit_operations_syntax

definition HEADER_LEN :: nat where [simp]: "HEADER_LEN = 15"
definition MAX_MESSAGE_SIZE :: nat where [simp]: "MAX_MESSAGE_SIZE = 1048576"
definition ACK_REQUESTED :: int where [simp]: "ACK_REQUESTED = 1"
definition RESPONSE_FINAL :: int where [simp]: "RESPONSE_FINAL = 2"
definition VALID_FLAGS :: int where [simp]: "VALID_FLAGS = 7"

record frame =
  message_type :: int
  flags :: int
  correlation_id :: int
  payload :: bytes

definition encode_frame :: "int \<Rightarrow> bytes \<Rightarrow> int \<Rightarrow> int \<Rightarrow> exn + bytes" where
  "encode_frame mtype body flgs corr =
     (if \<not> (0 \<le> mtype \<and> mtype \<le> 0xFFFF) then Inl CodecError
      else if flgs AND NOT VALID_FLAGS \<noteq> 0 then Inl CodecError
      else if \<not> (0 \<le> corr \<and> corr \<le> 0xFFFFFFFFFFFFFFFF) then Inl CodecError
      else if HEADER_LEN + length body > MAX_MESSAGE_SIZE then Inl CodecError
      else Inr (be_bytes 2 mtype @ [word_of_int flgs] @ be_bytes 8 corr
                @ be_bytes 4 (int (length body)) @ body))"

definition decode_frame :: "bytes \<Rightarrow> exn + frame" where
  "decode_frame data =
     (if length data > MAX_MESSAGE_SIZE then Inl CodecError
      else if length data < HEADER_LEN then Inl CodecError
      else let mtype = be_int (take 2 data);
               flgs = uint (data ! 2)
      in if flgs AND NOT VALID_FLAGS \<noteq> 0 then Inl CodecError
      else let corr = be_int (seg 3 8 data);
               payload_length = be_int (seg 11 4 data)
      in if int (length data) \<noteq> int HEADER_LEN + payload_length then Inl CodecError
      else Inr \<lparr>message_type = mtype, flags = flgs, correlation_id = corr,
                payload = drop HEADER_LEN data\<rparr>)"

text \<open>\<open>FrameParser.parse_frames\<close>\<close>

definition parse_frames :: "bytes \<Rightarrow> exn + frame list" where
  "parse_frames data =
     (if data = [] then Inr [] else bind_r (decode_frame data) (\<lambda>f. Inr [f]))"

section \<open>The flag mask\<close>

lemma valid_flags_iff [simp]: "(f::int) AND - 8 = 0 \<longleftrightarrow> 0 \<le> f \<and> f \<le> 7"
proof -
  have "NOT (mask 3) = (- 8 :: int)" by (simp add: mask_eq_exp_minus_1 not_int_def)
  moreover have "f AND NOT (mask 3) = push_bit 3 (drop_bit 3 f)"
    by (rule bit_eqI) (auto simp: bit_simps)
  ultimately have "f AND - 8 = 8 * (f div 8)"
    by (simp add: push_bit_eq_mult drop_bit_eq_div)
  moreover have "8 * (f div 8) = 0 \<longleftrightarrow> 0 \<le> f \<and> f \<le> 7" by auto
  ultimately show ?thesis by simp
qed

section \<open>Layout\<close>

definition frame_ok :: "frame \<Rightarrow> bool" where
  "frame_ok f \<longleftrightarrow> 0 \<le> message_type f \<and> message_type f \<le> 0xFFFF \<and> 0 \<le> flags f \<and> flags f \<le> 7 \<and>
     0 \<le> correlation_id f \<and> correlation_id f \<le> 0xFFFFFFFFFFFFFFFF \<and>
     HEADER_LEN + length (payload f) \<le> MAX_MESSAGE_SIZE"

definition frame_bytes :: "frame \<Rightarrow> bytes" where
  "frame_bytes f = be_bytes 2 (message_type f) @ [word_of_int (flags f)]
     @ be_bytes 8 (correlation_id f) @ be_bytes 4 (int (length (payload f))) @ payload f"

lemma encode_frame_eq:
  "encode_frame m p fl c =
     (let f = \<lparr>message_type = m, flags = fl, correlation_id = c, payload = p\<rparr>
      in if frame_ok f then Inr (frame_bytes f) else Inl CodecError)"
  by (auto simp: encode_frame_def frame_ok_def frame_bytes_def Let_def)

lemma length_frame_bytes [simp]: "length (frame_bytes f) = 15 + length (payload f)"
  by (simp add: frame_bytes_def)

lemma frame_bytes_parts:
  "take 2 (frame_bytes f) = be_bytes 2 (message_type f)"
  "frame_bytes f ! 2 = word_of_int (flags f)"
  "seg 3 8 (frame_bytes f) = be_bytes 8 (correlation_id f)"
  "seg 11 4 (frame_bytes f) = be_bytes 4 (int (length (payload f)))"
  "drop 15 (frame_bytes f) = payload f"
  by (simp_all add: frame_bytes_def seg_def nth_append)

lemma decode_frame_bytes: "frame_ok f \<Longrightarrow> decode_frame (frame_bytes f) = Inr f"
  unfolding decode_frame_def Let_def
  by (simp add: frame_bytes_parts frame_ok_def uint_word_of_int)

lemma split_frame:
  assumes "15 \<le> length (data :: bytes)"
  shows "data = take 2 data @ [data ! 2] @ seg 3 8 data @ seg 11 4 data @ drop 15 data"
proof -
  have "data = take 2 data @ drop 2 data" by simp
  also have "drop 2 data = [data ! 2] @ drop 3 data"
    using Cons_nth_drop_Suc [of 2 data] assms by simp
  also have "drop 3 data = seg 3 8 data @ drop 11 data"
    using drop_seg [of 3 data 8] by simp
  also have "drop 11 data = seg 11 4 data @ drop 15 data"
    using drop_seg [of 11 data 4] by simp
  finally show ?thesis by simp
qed

text \<open>A decoded frame re-encodes to the bytes it came from.\<close>

lemma decode_frame_canonical:
  assumes "decode_frame data = Inr f"
  shows "frame_ok f" "frame_bytes f = data"
proof -
  have len: "length data \<le> 1048576" "15 \<le> length data"
    and f: "f = \<lparr>message_type = be_int (take 2 data), flags = uint (data ! 2),
      correlation_id = be_int (seg 3 8 data), payload = drop 15 data\<rparr>"
    and fl: "0 \<le> uint (data ! 2)" "uint (data ! 2) \<le> 7"
    and pl: "int (length data) = 15 + be_int (seg 11 4 data)"
    using assms by (auto simp: decode_frame_def Let_def split: if_splits)
  have "be_int (take 2 data) < 65536" "be_int (seg 3 8 data) < 18446744073709551616"
    using be_int_less [of "take 2 data"] be_int_less [of "seg 3 8 data"] len by (simp_all add: min_def)
  then show "frame_ok f" using f fl len by (simp add: frame_ok_def)
  have "be_int (seg 11 4 data) = int (length (drop 15 data))" using pl len by simp
  then have "be_bytes 4 (int (length (drop 15 data))) = seg 11 4 data"
    using be_bytes_be_int_len [of "seg 11 4 data" 4] len by simp
  then have "frame_bytes f = take 2 data @ [data ! 2] @ seg 3 8 data @ seg 11 4 data @ drop 15 data"
    using f len by (simp add: frame_bytes_def be_bytes_be_int_len)
  then show "frame_bytes f = data" using split_frame [OF len(2)] by simp
qed

section \<open>Properties\<close>

text \<open>
  C17. Decoding a message gives a frame exactly when encoding that frame gives the message: the
  Wire 3 codec accepts every frame it writes and nothing else.
\<close>

lemma frame_codec_bijective:
  "decode_frame data = Inr f \<longleftrightarrow>
   encode_frame (message_type f) (payload f) (flags f) (correlation_id f) = Inr data"
proof
  assume d: "decode_frame data = Inr f"
  then have "frame_ok f" "frame_bytes f = data" by (fact decode_frame_canonical)+
  then show "encode_frame (message_type f) (payload f) (flags f) (correlation_id f) = Inr data"
    by (cases f) (simp add: encode_frame_eq Let_def)
next
  assume "encode_frame (message_type f) (payload f) (flags f) (correlation_id f) = Inr data"
  then have "frame_ok f \<and> frame_bytes f = data"
    by (cases f) (simp add: encode_frame_eq Let_def split: if_splits)
  then show "decode_frame data = Inr f" using decode_frame_bytes by blast
qed

end
