(* ===== verification/Mux.thy ===== *)
theory Mux
  imports Frame "HOL-Library.AList"
begin

text \<open>
  \<open>multiplexer.py\<close>: correlation of responses with requests, dispatch of push frames and the
  tombstones that absorb late responses. A \<open>PendingRequest\<close> is an object that the tables and
  the suspended caller share, so requests are numbers into a store. \<open>_issue_request\<close> is split
  where it awaits: the send, then the response. Handlers and classifiers run synchronously and
  are functions that may raise; \<open>m_handled\<close> and \<open>m_reported\<close> record their calls and the
  calls of \<open>on_error\<close>.
\<close>

section \<open>State\<close>

datatype rfut = Waiting | Result bytes | Raised exn | Dropped

record preq =
  p_linked :: bool  \<comment> \<open>\<open>future\<close> is not None\<close>
  p_sent :: bool
  p_corr :: "int option"

record mux =
  m_lanes :: "(int \<times> nat list) list"
  m_correlated :: "(int \<times> nat) list"
  m_reqs :: "nat \<Rightarrow> preq"
  m_futures :: "nat \<Rightarrow> rfut"
  m_handlers :: "int \<Rightarrow> (bytes \<Rightarrow> exn option) option"
  m_classifiers :: "int \<Rightarrow> (bytes \<Rightarrow> exn + bool) option"
  m_connected :: bool
  m_version :: int
  m_capabilities :: int
  m_capability_ids :: "int list"
  m_next :: int
  m_handled :: "(int \<times> bytes) list"
  m_reported :: "exn list"
  m_fresh :: nat

definition new_mux :: mux where
  "new_mux = \<lparr>m_lanes = [], m_correlated = [],
     m_reqs = (\<lambda>_. \<lparr>p_linked = False, p_sent = False, p_corr = None\<rparr>), m_futures = (\<lambda>_. Waiting),
     m_handlers = Map.empty, m_classifiers = Map.empty, m_connected = False, m_version = 0,
     m_capabilities = 0, m_capability_ids = [], m_next = 1, m_handled = [], m_reported = [],
     m_fresh = 0\<rparr>"

section \<open>Operations\<close>

definition set_connected :: "mux \<Rightarrow> mux" where
  "set_connected m = m\<lparr>m_connected := True, m_next := 1\<rparr>"

definition correlation_enabled :: "mux \<Rightarrow> bool" where
  "correlation_enabled m \<longleftrightarrow> m_version m \<ge> 2"

definition set_capabilities :: "int \<Rightarrow> int \<Rightarrow> mux \<Rightarrow> mux" where
  "set_capabilities version caps m = m\<lparr>m_version := version, m_capabilities := caps\<rparr>"

definition next_correlation_id :: "mux \<Rightarrow> (exn + int) \<times> mux" where
  "next_correlation_id m =
     (if m_next m > 0xFFFFFFFFFFFFFFFF then (Inl FitzConnectionError, m)
      else (Inr (m_next m), m\<lparr>m_next := m_next m + 1\<rparr>))"

text \<open>A future that is done keeps what it has.\<close>

definition settle :: "nat \<Rightarrow> rfut \<Rightarrow> mux \<Rightarrow> mux" where
  "settle r f m =
     (if p_linked (m_reqs m r) \<and> m_futures m r = Waiting
      then m\<lparr>m_futures := (m_futures m)(r := f)\<rparr> else m)"

text \<open>\<open>queue.remove\<close> and the deletion of an empty lane.\<close>

definition lane_remove :: "int \<Rightarrow> nat \<Rightarrow> (int \<times> nat list) list \<Rightarrow> (int \<times> nat list) list" where
  "lane_remove mtype r lanes =
     (case map_of lanes mtype of
        None \<Rightarrow> lanes
      | Some q \<Rightarrow>
          if r \<notin> set q then lanes
          else let q' = remove1 r q
               in if q' = [] then AList.delete mtype lanes else AList.update mtype q' lanes)"

definition mux_remove :: "int \<Rightarrow> nat \<Rightarrow> mux \<Rightarrow> mux" where
  "mux_remove mtype r m =
     (case p_corr (m_reqs m r) of
        Some c \<Rightarrow> m\<lparr>m_correlated := AList.delete c (m_correlated m)\<rparr>
      | None \<Rightarrow> m\<lparr>m_lanes := lane_remove mtype r (m_lanes m)\<rparr>)"

definition unlink :: "nat \<Rightarrow> mux \<Rightarrow> mux" where
  "unlink r m = m\<lparr>m_reqs := (m_reqs m)(r := (m_reqs m r)\<lparr>p_linked := False\<rparr>)\<rparr>"

definition mark_sent :: "nat \<Rightarrow> mux \<Rightarrow> mux" where
  "mark_sent r m = m\<lparr>m_reqs := (m_reqs m)(r := (m_reqs m r)\<lparr>p_sent := True\<rparr>)\<rparr>"

definition abandon :: "int \<Rightarrow> nat \<Rightarrow> mux \<Rightarrow> mux" where
  "abandon mtype r m =
     (case p_corr (m_reqs m r) of
        Some c \<Rightarrow>
          if p_sent (m_reqs m r) then unlink r m
          else m\<lparr>m_correlated := AList.delete c (m_correlated m)\<rparr>
      | None \<Rightarrow> if p_sent (m_reqs m r) then unlink r m else mux_remove mtype r m)"

text \<open>\<open>_issue_request\<close> up to its first \<open>await\<close>: the request's number and the frame to send.\<close>

definition with_correlation :: "int \<Rightarrow> int \<Rightarrow> bytes \<Rightarrow> bytes" where
  "with_correlation flgs c frame_data =
     take 2 frame_data @ [word_of_int flgs] @ be_bytes 8 c @ drop 11 frame_data"

definition issue_begin :: "int \<Rightarrow> bytes \<Rightarrow> mux \<Rightarrow> (exn + nat \<times> bytes) \<times> mux" where
  "issue_begin flgs frame_data m =
     (if \<not> correlation_enabled m then (Inl FitzConnectionError, m)
      else case next_correlation_id m of
             (Inl e, m) \<Rightarrow> (Inl e, m)
           | (Inr c, m) \<Rightarrow>
               if \<not> (0 \<le> flgs \<and> flgs \<le> 255) then (Inl PyValueError, m)
               else let r = m_fresh m
                    in (Inr (r, with_correlation flgs c frame_data),
                        m\<lparr>m_fresh := Suc r, m_futures := (m_futures m)(r := Waiting),
                          m_reqs := (m_reqs m)(r := \<lparr>p_linked = True, p_sent = False, p_corr = Some c\<rparr>),
                          m_correlated := AList.update c r (m_correlated m)\<rparr>))"

text \<open>How the send ended; after a cancellation of the caller the shielded send goes on.\<close>

datatype send_end = Sent | Send_raised exn | Cancelled_then_sent | Cancelled_then_failed

definition issue_sent :: "int \<Rightarrow> nat \<Rightarrow> send_end \<Rightarrow> mux \<Rightarrow> exn option \<times> mux" where
  "issue_sent mtype r out m =
     (case out of
        Sent \<Rightarrow> (None, mark_sent r m)
      | Cancelled_then_sent \<Rightarrow> (Some CancelledError, abandon mtype r (abandon mtype r (mark_sent r m)))
      | Cancelled_then_failed \<Rightarrow> (Some CancelledError, abandon mtype r (mux_remove mtype r m))
      | Send_raised e \<Rightarrow>
          if e = PyTimeoutError then (Some FitzTimeoutError, abandon mtype r m)
          else if e = FitzConnectionError \<or> e = FitzTimeoutError
            then (Some e, abandon mtype r (mark_sent r m))
          else (Some e, mux_remove mtype r m))"

text \<open>How the wait for the response ended.\<close>

datatype wait_end = Settled | Timed_out | Caller_cancelled

definition issue_waited :: "int \<Rightarrow> nat \<Rightarrow> wait_end \<Rightarrow> mux \<Rightarrow> (exn + bytes) \<times> mux" where
  "issue_waited mtype r out m =
     (case out of
        Settled \<Rightarrow>
          (case m_futures m r of
             Result b \<Rightarrow> (Inr b, m)
           | Raised e \<Rightarrow> (Inl e, abandon mtype r (mark_sent r m))
           | _ \<Rightarrow> (Inl CancelledError, abandon mtype r m))
      | Timed_out \<Rightarrow> (Inl FitzTimeoutError, abandon mtype r (settle r Dropped m))
      | Caller_cancelled \<Rightarrow> (Inl CancelledError, abandon mtype r (settle r Dropped m)))"

definition report_error :: "exn \<Rightarrow> mux \<Rightarrow> mux" where
  "report_error e m = m\<lparr>m_reported := m_reported m @ [e]\<rparr>"

definition dispatch_push :: "int \<Rightarrow> bytes \<Rightarrow> mux \<Rightarrow> mux" where
  "dispatch_push mtype body m =
     (case m_handlers m mtype of
        None \<Rightarrow> m
      | Some h \<Rightarrow>
          let m' = m\<lparr>m_handled := m_handled m @ [(mtype, body)]\<rparr>
          in (case h body of None \<Rightarrow> m' | Some e \<Rightarrow> report_error e m'))"

definition dispatch_lane :: "int \<Rightarrow> bytes \<Rightarrow> mux \<Rightarrow> mux" where
  "dispatch_lane mtype body m =
     (case map_of (m_lanes m) mtype of
        Some (r # q) \<Rightarrow>
          settle r (Result body)
            (m\<lparr>m_lanes := (if q = [] then AList.delete mtype (m_lanes m)
                           else AList.update mtype q (m_lanes m))\<rparr>)
      | _ \<Rightarrow> dispatch_push mtype body m)"

definition mux_dispatch :: "int \<Rightarrow> bytes \<Rightarrow> mux \<Rightarrow> mux" where
  "mux_dispatch mtype body m =
     (case m_classifiers m mtype of
        None \<Rightarrow> dispatch_lane mtype body m
      | Some cl \<Rightarrow>
          (case cl body of
             Inl e \<Rightarrow> dispatch_lane mtype body (report_error e m)
           | Inr True \<Rightarrow> dispatch_push mtype body m
           | Inr False \<Rightarrow> dispatch_lane mtype body m))"

definition dispatch_correlated :: "int \<Rightarrow> int \<Rightarrow> bytes \<Rightarrow> bool \<Rightarrow> mux \<Rightarrow> exn option \<times> mux" where
  "dispatch_correlated c mtype body response_final m =
     (case map_of (m_correlated m) c of
        None \<Rightarrow> (Some (ProtocolError None), m)
      | Some r \<Rightarrow>
          if \<not> response_final then (None, m)
          else (None, settle r (Result body) (m\<lparr>m_correlated := AList.delete c (m_correlated m)\<rparr>)))"

definition cancel_all :: "mux \<Rightarrow> mux" where
  "cancel_all m =
     (let m = fold (\<lambda>r. settle r (Raised FitzConnectionError)) (concat (map snd (m_lanes m))) m;
          m = m\<lparr>m_lanes := []\<rparr>;
          m = fold (\<lambda>r. settle r (Raised FitzConnectionError)) (map snd (m_correlated m)) m
      in m\<lparr>m_correlated := []\<rparr>)"

definition set_disconnected :: "mux \<Rightarrow> mux" where
  "set_disconnected m =
     cancel_all (m\<lparr>m_connected := False, m_version := 0, m_capabilities := 0, m_capability_ids := []\<rparr>)"

section \<open>Callers and the reader\<close>

text \<open>
  A session starts with the HELLO that sets the version. At that moment no send of the
  previous session is under way: every send passes the connection's FIFO write lock before
  the CONNECT that the HELLO answers.
\<close>

datatype req_phase = Absent | Sending int | Awaiting int | Ended "exn + bytes"

record msys =
  mx :: mux
  phase :: "nat \<Rightarrow> req_phase"

definition new_msys :: msys where
  "new_msys = \<lparr>mx = new_mux, phase = (\<lambda>_. Absent)\<rparr>"

definition do_issue :: "int \<Rightarrow> int \<Rightarrow> bytes \<Rightarrow> msys \<Rightarrow> msys" where
  "do_issue mtype flgs frame_data s =
     (case issue_begin flgs frame_data (mx s) of
        (Inl e, m) \<Rightarrow> s\<lparr>mx := m\<rparr>
      | (Inr (r, f), m) \<Rightarrow> s\<lparr>mx := m, phase := (phase s)(r := Sending mtype)\<rparr>)"

definition do_sent :: "int \<Rightarrow> nat \<Rightarrow> send_end \<Rightarrow> msys \<Rightarrow> msys" where
  "do_sent mtype r out s =
     (let (e, m) = issue_sent mtype r out (mx s)
      in s\<lparr>mx := m, phase := (phase s)(r := (case e of None \<Rightarrow> Awaiting mtype | Some e \<Rightarrow> Ended (Inl e)))\<rparr>)"

definition do_waited :: "int \<Rightarrow> nat \<Rightarrow> wait_end \<Rightarrow> msys \<Rightarrow> msys" where
  "do_waited mtype r out s =
     (let (e, m) = issue_waited mtype r out (mx s)
      in s\<lparr>mx := m, phase := (phase s)(r := Ended e)\<rparr>)"

definition do_open :: "int \<Rightarrow> int \<Rightarrow> int list \<Rightarrow> msys \<Rightarrow> msys" where
  "do_open version caps ids s =
     s\<lparr>mx := set_connected ((set_capabilities version caps (mx s))\<lparr>m_capability_ids := ids\<rparr>)\<rparr>"

inductive mux_step :: "msys \<Rightarrow> msys \<Rightarrow> bool" where
  issue: "mux_step s (do_issue mtype flgs fd s)"
| sent: "phase s r = Sending mtype \<Longrightarrow> mux_step s (do_sent mtype r out s)"
| waited: "phase s r = Awaiting mtype \<Longrightarrow> out = Settled \<longrightarrow> m_futures (mx s) r \<noteq> Waiting \<Longrightarrow>
    mux_step s (do_waited mtype r out s)"
| response: "mux_step s (s\<lparr>mx := snd (dispatch_correlated c mtype body final (mx s))\<rparr>)"
| pushed: "mux_step s (s\<lparr>mx := mux_dispatch mtype body (mx s)\<rparr>)"
| disconnect: "mux_step s (s\<lparr>mx := set_disconnected (mx s)\<rparr>)"
| open_: "\<not> m_connected (mx s) \<Longrightarrow> \<forall>r t. phase s r \<noteq> Sending t \<Longrightarrow>
    mux_step s (do_open version caps ids s)"

inductive mux_reach :: "msys \<Rightarrow> bool" where
  start: "mux_reach new_msys"
| step: "mux_reach s \<Longrightarrow> mux_step s s' \<Longrightarrow> mux_reach s'"

section \<open>The frame of a request\<close>

lemma with_correlation_frame:
  assumes "encode_frame mtype body f0 c0 = Inr fr" "0 \<le> flgs" "flgs \<le> 7"
    "0 \<le> c" "c \<le> 0xFFFFFFFFFFFFFFFF"
  shows "encode_frame mtype body flgs c = Inr (with_correlation flgs c fr)"
proof -
  let ?f = "\<lparr>message_type = mtype, flags = f0, correlation_id = c0, payload = body\<rparr>"
  have fr: "fr = frame_bytes ?f" and ok: "frame_ok ?f"
    using assms(1) by (simp_all add: encode_frame_eq Let_def split: if_splits)
  have "take 2 fr = be_bytes 2 mtype" by (simp add: fr frame_bytes_def)
  moreover have "drop 11 fr = be_bytes 4 (int (length body)) @ body"
    by (simp add: fr frame_bytes_def)
  ultimately show ?thesis using ok assms(2-)
    by (simp add: encode_frame_eq with_correlation_def frame_ok_def frame_bytes_def)
qed

section \<open>The invariant\<close>

definition table_ok :: "mux \<Rightarrow> bool" where
  "table_ok m \<longleftrightarrow>
     m_lanes m = [] \<and> 1 \<le> m_next m \<and> distinct (map fst (m_correlated m)) \<and>
     (\<not> m_connected m \<longrightarrow> m_correlated m = [] \<and> m_version m = 0) \<and>
     (\<forall>p\<in>set (m_correlated m). p_corr (m_reqs m (snd p)) = Some (fst p) \<and>
        1 \<le> fst p \<and> fst p < m_next m \<and> snd p < m_fresh m)"

definition request_ok :: "mux \<Rightarrow> nat \<Rightarrow> req_phase \<Rightarrow> bool" where
  "request_ok m r p \<longleftrightarrow>
     r < m_fresh m \<and> p_linked (m_reqs m r) \<and>
     (\<exists>c. p_corr (m_reqs m r) = Some c \<and>
        (\<forall>t. p = Sending t \<longrightarrow> c < m_next m \<and> (\<forall>q\<in>set (m_correlated m). fst q = c \<longrightarrow> snd q = r)) \<and>
        (\<forall>t. p = Awaiting t \<longrightarrow> p_sent (m_reqs m r)) \<and>
        (m_futures m r = Waiting \<longrightarrow> (c, r) \<in> set (m_correlated m)))"

definition live :: "req_phase \<Rightarrow> bool" where
  "live p \<longleftrightarrow> (case p of Sending _ \<Rightarrow> True | Awaiting _ \<Rightarrow> True | _ \<Rightarrow> False)"

lemma live_simps [simp]:
  "live (Sending t)" "live (Awaiting t)" "\<not> live Absent" "\<not> live (Ended e)"
  by (simp_all add: live_def)

definition mux_inv :: "msys \<Rightarrow> bool" where
  "mux_inv s \<longleftrightarrow> table_ok (mx s) \<and> (\<forall>r. live (phase s r) \<longrightarrow> request_ok (mx s) r (phase s r))"

lemma mux_inv_new: "mux_inv new_msys"
  by (simp add: mux_inv_def new_msys_def new_mux_def table_ok_def)

lemma mux_inv_request: "mux_inv s \<Longrightarrow> live (phase s r) \<Longrightarrow> request_ok (mx s) r (phase s r)"
  by (simp add: mux_inv_def)

lemma update_fresh: "k \<notin> fst ` set al \<Longrightarrow> AList.update k v al = al @ [(k, v)]"
  by (induction al) auto

lemma table_entry:
  assumes "table_ok m" "(c, r) \<in> set (m_correlated m)"
  shows "p_corr (m_reqs m r) = Some c" "1 \<le> c" "c < m_next m" "r < m_fresh m"
    "map_of (m_correlated m) c = Some r"
  using assms by (auto simp: table_ok_def)

lemma request_ok_mono:
  assumes ok: "request_ok m q p" and reqs: "m_reqs m' q = m_reqs m q"
    and le: "m_next m \<le> m_next m'" "m_fresh m \<le> m_fresh m'"
    and new: "\<And>c r. (c, r) \<in> set (m_correlated m') \<Longrightarrow> (c, r) \<in> set (m_correlated m) \<or> m_next m \<le> c"
    and kept: "m_futures m' q = Waiting \<Longrightarrow> m_futures m q = Waiting \<and>
      (\<forall>c. (c, q) \<in> set (m_correlated m) \<longrightarrow> (c, q) \<in> set (m_correlated m'))"
  shows "request_ok m' q p"
proof -
  obtain c where base: "q < m_fresh m" "p_linked (m_reqs m q)" "p_corr (m_reqs m q) = Some c"
    and sending: "\<And>t. p = Sending t \<Longrightarrow> c < m_next m \<and> (\<forall>e\<in>set (m_correlated m). fst e = c \<longrightarrow> snd e = q)"
    and awaiting: "\<forall>t. p = Awaiting t \<longrightarrow> p_sent (m_reqs m q)"
    and entry: "m_futures m q = Waiting \<longrightarrow> (c, q) \<in> set (m_correlated m)"
    using ok unfolding request_ok_def by blast
  have "c < m_next m' \<and> (\<forall>e\<in>set (m_correlated m'). fst e = c \<longrightarrow> snd e = q)" if "p = Sending t" for t
  proof (intro conjI ballI impI)
    show "c < m_next m'" using sending [OF that] le(1) by simp
    fix e
    assume "e \<in> set (m_correlated m')" "fst e = c"
    then show "snd e = q" using new [of c "snd e"] sending [OF that] by (cases e) auto
  qed
  then show ?thesis
    unfolding request_ok_def reqs using base le(2) awaiting entry kept by (intro conjI exI [of _ c]) auto
qed

text \<open>A request that ends takes at most its own entry with it.\<close>

definition ends_as :: "nat \<Rightarrow> mux \<Rightarrow> mux \<Rightarrow> bool" where
  "ends_as r m m' \<longleftrightarrow>
     m_lanes m' = m_lanes m \<and> m_next m' = m_next m \<and> m_connected m' = m_connected m \<and>
     m_version m' = m_version m \<and> m_fresh m' = m_fresh m \<and>
     (\<forall>q. q \<noteq> r \<longrightarrow> m_reqs m' q = m_reqs m q \<and> m_futures m' q = m_futures m q) \<and>
     p_corr (m_reqs m' r) = p_corr (m_reqs m r) \<and>
     (m_correlated m' = m_correlated m \<or>
      (\<exists>c. p_corr (m_reqs m r) = Some c \<and> m_correlated m' = AList.delete c (m_correlated m) \<and>
        (\<forall>q\<in>set (m_correlated m). fst q = c \<longrightarrow> snd q = r)))"

lemma ends_as_entries:
  assumes "ends_as r m m'"
  shows "set (m_correlated m') \<subseteq> set (m_correlated m)"
    "q \<noteq> r \<Longrightarrow> (c, q) \<in> set (m_correlated m) \<Longrightarrow> (c, q) \<in> set (m_correlated m')"
    "distinct (map fst (m_correlated m)) \<Longrightarrow> distinct (map fst (m_correlated m'))"
  using assms by (auto simp: ends_as_def AList.delete_eq distinct_map_filter)

lemma mux_inv_ended:
  assumes inv: "mux_inv s" and e: "ends_as r (mx s) m'"
  shows "mux_inv (s\<lparr>mx := m', phase := (phase s)(r := Ended x)\<rparr>)"
proof -
  have tok: "table_ok (mx s)" using inv by (simp add: mux_inv_def)
  note sub = ends_as_entries [OF e]
  have corr: "p_corr (m_reqs m' q) = p_corr (m_reqs (mx s) q)" for q
    using e unfolding ends_as_def by metis
  have "table_ok m'"
    using tok sub corr e unfolding table_ok_def ends_as_def by auto
  moreover have "request_ok m' q (phase s q)" if q: "q \<noteq> r" "live (phase s q)" for q
  proof -
    have "m_reqs m' q = m_reqs (mx s) q" "m_futures m' q = m_futures (mx s) q"
      "m_next m' = m_next (mx s)" "m_fresh m' = m_fresh (mx s)"
      using e q(1) by (simp_all add: ends_as_def)
    then show ?thesis
      by (intro request_ok_mono [OF mux_inv_request [OF inv q(2)]]) (use sub(1,2) q(1) in auto)
  qed
  ultimately show ?thesis by (simp add: mux_inv_def)
qed

lemma ends_as_settle:
  "ends_as r m m' \<Longrightarrow> ends_as r m (settle r f m')"
  by (simp add: ends_as_def settle_def)

lemma ends_as_abandon:
  "ends_as r m m' \<Longrightarrow> p_sent (m_reqs m' r) \<Longrightarrow> p_corr (m_reqs m r) \<noteq> None \<Longrightarrow>
   ends_as r m (abandon t r m')"
  by (auto simp: ends_as_def abandon_def unlink_def split: option.split)

lemma ends_as_mark: "ends_as r m m' \<Longrightarrow> ends_as r m (mark_sent r m')"
  by (simp add: ends_as_def mark_sent_def)

lemma ends_as_refl: "ends_as r m m"
  by (simp add: ends_as_def)

lemma mark_sent_sent [simp]: "p_sent (m_reqs (mark_sent r m) r)"
  by (simp add: mark_sent_def)

lemma abandon_sent [simp]:
  "p_sent (m_reqs m r) \<Longrightarrow> p_corr (m_reqs m r) \<noteq> None \<Longrightarrow> p_sent (m_reqs (abandon t r m) r)"
  by (auto simp: abandon_def unlink_def)

lemma settle_reqs [simp]: "m_reqs (settle r f m) = m_reqs m"
  by (simp add: settle_def)

lemma ends_as_remove:
  assumes "p_corr (m_reqs m r) = Some c" "\<forall>q\<in>set (m_correlated m). fst q = c \<longrightarrow> snd q = r"
  shows "ends_as r m (mux_remove t r m)" "\<not> p_sent (m_reqs m r) \<Longrightarrow> ends_as r m (abandon t r m)"
    "\<not> p_sent (m_reqs m r) \<Longrightarrow> ends_as r m (abandon t r (mux_remove t r m))"
    "ends_as r m (abandon t r (mux_remove t r m))"
  using assms by (auto simp: ends_as_def mux_remove_def abandon_def unlink_def AList.delete_idem)

lemma mux_inv_sent:
  assumes inv: "mux_inv s" and p: "phase s r = Sending t"
  shows "mux_inv (do_sent t r out s)"
proof -
  let ?m = "mx s"
  have ok: "request_ok ?m r (Sending t)" using mux_inv_request [OF inv, of r] p by simp
  then obtain c where c: "p_corr (m_reqs ?m r) = Some c"
    and own: "\<forall>q\<in>set (m_correlated ?m). fst q = c \<longrightarrow> snd q = r"
    unfolding request_ok_def by blast
  have some: "p_corr (m_reqs (mark_sent r ?m) r) = Some c" by (simp add: mark_sent_def c)
  have un: "ends_as r ?m (abandon t r (mark_sent r ?m))"
    using c by (intro ends_as_abandon ends_as_mark ends_as_refl) simp_all
  have two: "ends_as r ?m (abandon t r (abandon t r (mark_sent r ?m)))"
    using un c some by (intro ends_as_abandon [OF un] abandon_sent) simp_all
  have pop: "ends_as r ?m (abandon t r ?m)"
    using ends_as_remove(2) [OF c own] ends_as_abandon [OF ends_as_refl] c by blast
  show ?thesis
  proof (cases "fst (issue_sent t r out ?m)")
    case None
    then have out: "out = Sent" by (auto simp: issue_sent_def split: send_end.splits if_splits)
    have reqs: "m_reqs (mark_sent r ?m) q = (m_reqs ?m q)\<lparr>p_sent := p_sent (m_reqs ?m q) \<or> q = r\<rparr>" for q
      by (cases "q = r"; cases "m_reqs ?m q"; simp add: mark_sent_def)
    have rest: "m_correlated (mark_sent r ?m) = m_correlated ?m"
      "m_futures (mark_sent r ?m) = m_futures ?m" "m_next (mark_sent r ?m) = m_next ?m"
      "m_fresh (mark_sent r ?m) = m_fresh ?m" "m_lanes (mark_sent r ?m) = m_lanes ?m"
      "m_connected (mark_sent r ?m) = m_connected ?m" "m_version (mark_sent r ?m) = m_version ?m"
      by (simp_all add: mark_sent_def)
    have "table_ok (mark_sent r ?m)"
      using inv by (simp add: mux_inv_def table_ok_def reqs rest)
    moreover have "request_ok (mark_sent r ?m) q (phase s q)" if "live (phase s q)" for q
      using mux_inv_request [OF inv that] unfolding request_ok_def reqs rest by auto
    moreover have "request_ok (mark_sent r ?m) r (Awaiting t)"
      using ok unfolding request_ok_def reqs rest by auto
    ultimately show ?thesis using out
      by (simp add: do_sent_def issue_sent_def mux_inv_def)
  next
    case (Some e)
    then have "ends_as r ?m (snd (issue_sent t r out ?m))"
      using un two pop ends_as_remove(1,4) [OF c own]
      by (cases out) (auto simp: issue_sent_def)
    from mux_inv_ended [OF inv this] Some show ?thesis
      by (simp add: do_sent_def split_beta)
  qed
qed

lemma mux_inv_waited:
  assumes inv: "mux_inv s" and p: "phase s r = Awaiting t"
  shows "mux_inv (do_waited t r out s)"
proof -
  let ?m = "mx s"
  have ok: "request_ok ?m r (Awaiting t)" using mux_inv_request [OF inv, of r] p by simp
  then have c: "p_corr (m_reqs ?m r) \<noteq> None" and sent: "p_sent (m_reqs ?m r)"
    unfolding request_ok_def by auto
  have "ends_as r ?m (snd (issue_waited t r out ?m))"
    using c sent by (auto simp: issue_waited_def ends_as_refl intro!: ends_as_abandon ends_as_settle
        ends_as_mark split: wait_end.split rfut.split)
  from mux_inv_ended [OF inv this] show ?thesis by (simp add: do_waited_def split_beta)
qed

lemma issue_begin_eq:
  "issue_begin flgs fd m =
     (if \<not> correlation_enabled m \<or> m_next m > 0xFFFFFFFFFFFFFFFF then (Inl FitzConnectionError, m)
      else if \<not> (0 \<le> flgs \<and> flgs \<le> 255) then (Inl PyValueError, m\<lparr>m_next := m_next m + 1\<rparr>)
      else (Inr (m_fresh m, with_correlation flgs (m_next m) fd),
        m\<lparr>m_next := m_next m + 1, m_fresh := Suc (m_fresh m),
          m_futures := (m_futures m)(m_fresh m := Waiting),
          m_reqs := (m_reqs m)(m_fresh m := \<lparr>p_linked = True, p_sent = False, p_corr = Some (m_next m)\<rparr>),
          m_correlated := AList.update (m_next m) (m_fresh m) (m_correlated m)\<rparr>))"
  by (simp add: issue_begin_def next_correlation_id_def Let_def)

lemma mux_inv_issue:
  assumes inv: "mux_inv s"
  shows "mux_inv (do_issue t flgs fd s)"
proof -
  let ?m = "mx s" and ?r = "m_fresh (mx s)" and ?c = "m_next (mx s)"
  have tok: "table_ok ?m" using inv by (simp add: mux_inv_def)
  show ?thesis
  proof (cases "\<not> correlation_enabled ?m \<or> ?c > 0xFFFFFFFFFFFFFFFF")
    case True
    then show ?thesis using inv by (simp add: do_issue_def issue_begin_eq)
  next
    case enabled: False
    show ?thesis
    proof (cases "0 \<le> flgs \<and> flgs \<le> 255")
      case False
      let ?m' = "?m\<lparr>m_next := ?c + 1\<rparr>"
      have "table_ok ?m'" using tok unfolding table_ok_def by auto
      moreover have "request_ok ?m' q (phase s q)" if "live (phase s q)" for q
        by (rule request_ok_mono [OF mux_inv_request [OF inv that]]) auto
      ultimately show ?thesis using enabled False
        by (simp add: do_issue_def issue_begin_eq mux_inv_def)
    next
      case True
      let ?m' = "snd (issue_begin flgs fd ?m)"
      have eq: "issue_begin flgs fd ?m = (Inr (?r, with_correlation flgs ?c fd), ?m')"
        using enabled True by (simp add: issue_begin_eq)
      have conn: "m_connected ?m"
        using tok enabled unfolding table_ok_def correlation_enabled_def by auto
      have lt: "fst e < ?c \<and> snd e < ?r" if "e \<in> set (m_correlated ?m)" for e
        using tok that unfolding table_ok_def by blast
      then have new: "?c \<notin> fst ` set (m_correlated ?m)" by fastforce
      have corr: "m_correlated ?m' = m_correlated ?m @ [(?c, ?r)]"
        using enabled True update_fresh [OF new] by (simp add: issue_begin_eq)
      have at: "m_reqs ?m' ?r = \<lparr>p_linked = True, p_sent = False, p_corr = Some ?c\<rparr>"
        and old: "\<And>q. q < ?r \<Longrightarrow> m_reqs ?m' q = m_reqs ?m q \<and> m_futures ?m' q = m_futures ?m q"
        and rest: "m_next ?m' = ?c + 1" "m_fresh ?m' = Suc ?r" "m_lanes ?m' = m_lanes ?m"
          "m_connected ?m' = m_connected ?m"
        using enabled True by (simp_all add: issue_begin_eq)
      have "p_corr (m_reqs ?m' (snd e)) = Some (fst e) \<and> 1 \<le> fst e \<and> fst e < m_next ?m' \<and>
          snd e < m_fresh ?m'" if "e \<in> set (m_correlated ?m')" for e
      proof (cases "e = (?c, ?r)")
        case True
        then show ?thesis using at rest tok by (simp add: table_ok_def)
      next
        case False
        then have e: "e \<in> set (m_correlated ?m)" using that corr by simp
        then have "p_corr (m_reqs ?m (snd e)) = Some (fst e) \<and> 1 \<le> fst e"
          using tok unfolding table_ok_def by blast
        then show ?thesis using lt [OF e] old [of "snd e"] rest by auto
      qed
      then have "table_ok ?m'"
        using tok new conn rest corr unfolding table_ok_def by simp
      moreover have "request_ok ?m' q (phase s q)" if "live (phase s q)" for q
      proof -
        have ok: "request_ok ?m q (phase s q)" by (rule mux_inv_request [OF inv that])
        then have "q < ?r" by (simp add: request_ok_def)
        then show ?thesis by (intro request_ok_mono [OF ok]) (use old rest corr in auto)
      qed
      moreover have "request_ok ?m' ?r (Sending t)"
        unfolding request_ok_def using at rest corr new by (auto simp: image_iff)
      moreover have "do_issue t flgs fd s = s\<lparr>mx := ?m', phase := (phase s)(?r := Sending t)\<rparr>"
        by (subst do_issue_def, subst eq) simp
      ultimately show ?thesis by (simp add: mux_inv_def)
    qed
  qed
qed

lemma settle_rest [simp]:
  "m_lanes (settle r f m) = m_lanes m" "m_next (settle r f m) = m_next m"
  "m_connected (settle r f m) = m_connected m" "m_version (settle r f m) = m_version m"
  "m_fresh (settle r f m) = m_fresh m" "m_correlated (settle r f m) = m_correlated m"
  by (simp_all add: settle_def)

lemma settle_futures:
  "m_futures (settle r f m) q =
    (if q = r \<and> p_linked (m_reqs m r) \<and> m_futures m r = Waiting then f else m_futures m q)"
  by (simp add: settle_def)

lemma mux_inv_response:
  assumes inv: "mux_inv s"
  shows "mux_inv (s\<lparr>mx := snd (dispatch_correlated c t body final (mx s))\<rparr>)"
proof (cases "map_of (m_correlated (mx s)) c = None \<or> \<not> final")
  case True
  then have "snd (dispatch_correlated c t body final (mx s)) = mx s"
    by (auto simp: dispatch_correlated_def split: option.split)
  then show ?thesis using inv by simp
next
  case False
  let ?m = "mx s"
  obtain r where r: "map_of (m_correlated ?m) c = Some r" and "final" using False by auto
  let ?m' = "settle r (Result body) (?m\<lparr>m_correlated := AList.delete c (m_correlated ?m)\<rparr>)"
  have eq: "snd (dispatch_correlated c t body final ?m) = ?m'"
    using r \<open>final\<close> by (simp add: dispatch_correlated_def)
  have tok: "table_ok ?m" using inv by (simp add: mux_inv_def)
  have "table_ok ?m'"
    using tok unfolding table_ok_def by (auto simp: AList.delete_eq distinct_map_filter)
  moreover have "request_ok ?m' q (phase s q)" if l: "live (phase s q)" for q
  proof -
    have ok: "request_ok ?m q (phase s q)" by (rule mux_inv_request [OF inv l])
    have "d = c \<Longrightarrow> q = r" if "(d, q) \<in> set (m_correlated ?m)" for d
      using table_entry(5) [OF tok that] r by simp
    moreover have "p_linked (m_reqs ?m q)" using ok by (simp add: request_ok_def)
    ultimately show ?thesis
      by (intro request_ok_mono [OF ok]) (auto simp: settle_futures AList.delete_eq split: if_splits)
  qed
  ultimately show ?thesis by (simp add: mux_inv_def eq)
qed

lemma dispatch_push_rest:
  "m_lanes (dispatch_push t b m) = m_lanes m" "m_next (dispatch_push t b m) = m_next m"
  "m_connected (dispatch_push t b m) = m_connected m" "m_version (dispatch_push t b m) = m_version m"
  "m_fresh (dispatch_push t b m) = m_fresh m" "m_correlated (dispatch_push t b m) = m_correlated m"
  "m_reqs (dispatch_push t b m) = m_reqs m" "m_futures (dispatch_push t b m) = m_futures m"
  by (simp_all add: dispatch_push_def report_error_def Let_def split: option.split)

text \<open>No request is ever put into a lane, so a push frame never settles one.\<close>

lemma mux_dispatch_rest:
  assumes "m_lanes m = []"
  shows "m_lanes (mux_dispatch t b m) = []" "m_next (mux_dispatch t b m) = m_next m"
  "m_connected (mux_dispatch t b m) = m_connected m" "m_version (mux_dispatch t b m) = m_version m"
  "m_fresh (mux_dispatch t b m) = m_fresh m" "m_correlated (mux_dispatch t b m) = m_correlated m"
  "m_reqs (mux_dispatch t b m) = m_reqs m" "m_futures (mux_dispatch t b m) = m_futures m"
  using assms
  by (simp_all add: mux_dispatch_def dispatch_lane_def dispatch_push_rest report_error_def
      split: option.split sum.split bool.split)

lemma mux_inv_cong:
  assumes "mux_inv s" "m_lanes m' = m_lanes (mx s)" "m_next m' = m_next (mx s)"
    "m_connected m' = m_connected (mx s)" "m_version m' = m_version (mx s)"
    "m_fresh m' = m_fresh (mx s)" "m_correlated m' = m_correlated (mx s)"
    "m_reqs m' = m_reqs (mx s)" "m_futures m' = m_futures (mx s)"
  shows "mux_inv (s\<lparr>mx := m'\<rparr>)"
  using assms by (simp add: mux_inv_def table_ok_def request_ok_def)

lemma mux_inv_pushed: "mux_inv s \<Longrightarrow> mux_inv (s\<lparr>mx := mux_dispatch t b (mx s)\<rparr>)"
  by (rule mux_inv_cong) (simp_all add: mux_dispatch_rest mux_inv_def table_ok_def)

text \<open>\<open>cancel_all\<close>\<close>

lemma fold_settle_rest [simp]:
  "m_lanes (fold (\<lambda>r. settle r f) rs m) = m_lanes m"
  "m_next (fold (\<lambda>r. settle r f) rs m) = m_next m"
  "m_connected (fold (\<lambda>r. settle r f) rs m) = m_connected m"
  "m_version (fold (\<lambda>r. settle r f) rs m) = m_version m"
  "m_fresh (fold (\<lambda>r. settle r f) rs m) = m_fresh m"
  "m_correlated (fold (\<lambda>r. settle r f) rs m) = m_correlated m"
  "m_reqs (fold (\<lambda>r. settle r f) rs m) = m_reqs m"
  by (induction rs arbitrary: m) simp_all

lemma fold_settle_futures:
  "f \<noteq> Waiting \<Longrightarrow> m_futures (fold (\<lambda>r. settle r f) rs m) q =
    (if q \<in> set rs \<and> p_linked (m_reqs m q) \<and> m_futures m q = Waiting then f else m_futures m q)"
  by (induction rs arbitrary: m) (auto simp: settle_futures)

lemma set_disconnected_rest:
  "m_lanes (set_disconnected m) = []" "m_correlated (set_disconnected m) = []"
  "m_next (set_disconnected m) = m_next m" "m_fresh (set_disconnected m) = m_fresh m"
  "m_reqs (set_disconnected m) = m_reqs m" "\<not> m_connected (set_disconnected m)"
  "m_version (set_disconnected m) = 0"
  by (simp_all add: set_disconnected_def cancel_all_def Let_def)

lemma set_disconnected_futures:
  "m_lanes m = [] \<Longrightarrow> m_futures (set_disconnected m) q =
    (if q \<in> snd ` set (m_correlated m) \<and> p_linked (m_reqs m q) \<and> m_futures m q = Waiting
     then Raised FitzConnectionError else m_futures m q)"
  by (simp add: set_disconnected_def cancel_all_def Let_def fold_settle_futures)

lemma mux_inv_disconnect:
  assumes inv: "mux_inv s"
  shows "mux_inv (s\<lparr>mx := set_disconnected (mx s)\<rparr>)"
proof -
  let ?m' = "set_disconnected (mx s)"
  have tok: "table_ok (mx s)" using inv by (simp add: mux_inv_def)
  then have lanes: "m_lanes (mx s) = []" by (simp add: table_ok_def)
  have "table_ok ?m'" using tok by (simp add: table_ok_def set_disconnected_rest)
  moreover have "request_ok ?m' q (phase s q)" if l: "live (phase s q)" for q
  proof -
    have ok: "request_ok (mx s) q (phase s q)" by (rule mux_inv_request [OF inv l])
    then have "p_linked (m_reqs (mx s) q)"
      "m_futures (mx s) q = Waiting \<Longrightarrow> q \<in> snd ` set (m_correlated (mx s))"
      unfolding request_ok_def by (blast, metis image_eqI snd_conv)
    then have "m_futures ?m' q \<noteq> Waiting"
      by (cases "m_futures (mx s) q = Waiting") (simp_all add: set_disconnected_futures [OF lanes])
    then show ?thesis
      by (intro request_ok_mono [OF ok]) (simp_all add: set_disconnected_rest)
  qed
  ultimately show ?thesis by (simp add: mux_inv_def)
qed

lemma mux_inv_open:
  assumes inv: "mux_inv s" and idle: "\<not> m_connected (mx s)" "\<forall>r t. phase s r \<noteq> Sending t"
  shows "mux_inv (do_open v caps ids s)"
proof -
  let ?m' = "set_connected ((set_capabilities v caps (mx s))\<lparr>m_capability_ids := ids\<rparr>)"
  have tok: "table_ok (mx s)" and none: "m_correlated (mx s) = []"
    using inv idle(1) by (auto simp: mux_inv_def table_ok_def)
  have "table_ok ?m'" using tok none
    by (simp add: table_ok_def set_connected_def set_capabilities_def)
  moreover have "request_ok ?m' q (phase s q)" if l: "live (phase s q)" for q
    using mux_inv_request [OF inv l] idle(2)
    by (auto simp: request_ok_def set_connected_def set_capabilities_def)
  ultimately show ?thesis by (simp add: mux_inv_def do_open_def)
qed

lemma mux_inv_step: "mux_step s s' \<Longrightarrow> mux_inv s \<Longrightarrow> mux_inv s'"
  by (induction rule: mux_step.induct)
    (blast intro: mux_inv_issue mux_inv_sent mux_inv_waited mux_inv_response mux_inv_pushed
       mux_inv_disconnect mux_inv_open)+

lemma mux_inv_reach: "mux_reach s \<Longrightarrow> mux_inv s"
  by (induction rule: mux_reach.induct) (blast intro: mux_inv_new mux_inv_step)+

section \<open>What the multiplexer guarantees\<close>

text \<open>
  C4. On every reachable state a caller that still waits has an entry through which a response
  settles it, and a disconnect settles it with FitzConnectionError.
\<close>

lemma mux_no_lost_caller:
  assumes "mux_reach s" "live (phase s r)" "m_futures (mx s) r = Waiting"
  shows "\<exists>c. map_of (m_correlated (mx s)) c = Some r \<and>
    m_futures (snd (dispatch_correlated c t body True (mx s))) r = Result body \<and>
    m_futures (set_disconnected (mx s)) r = Raised FitzConnectionError"
proof -
  have inv: "mux_inv s" by (rule mux_inv_reach [OF assms(1)])
  then have tok: "table_ok (mx s)" by (simp add: mux_inv_def)
  obtain c where c: "(c, r) \<in> set (m_correlated (mx s))" and l: "p_linked (m_reqs (mx s) r)"
    using mux_inv_request [OF inv assms(2)] assms(3) unfolding request_ok_def by blast
  have m: "map_of (m_correlated (mx s)) c = Some r" by (rule table_entry(5) [OF tok c])
  have "r \<in> snd ` set (m_correlated (mx s))" using c by force
  moreover have "m_lanes (mx s) = []" using tok by (simp add: table_ok_def)
  ultimately have "m_futures (set_disconnected (mx s)) r = Raised FitzConnectionError"
    using l assms(3) by (simp add: set_disconnected_futures)
  then show ?thesis using m l assms(3)
    by (intro exI [of _ c]) (simp add: dispatch_correlated_def settle_futures)
qed

definition hello_frame :: bytes where
  "hello_frame = frame_bytes \<lparr>message_type = 100, flags = 0, correlation_id = 0, payload = [9]\<rparr>"

definition one_issued :: msys where
  "one_issued = do_issue 100 1 hello_frame (do_open 3 0 [] new_msys)"

lemma one_issued_reach: "mux_reach one_issued"
proof -
  have "mux_reach (do_open 3 0 [] new_msys)"
    by (rule mux_reach.step [OF mux_reach.start mux_step.open_])
      (simp_all add: new_msys_def new_mux_def)
  then show ?thesis unfolding one_issued_def by (rule mux_reach.step [OF _ mux_step.issue])
qed

lemma one_issued_state:
  "phase one_issued 0 = Sending 100" "m_futures (mx one_issued) 0 = Waiting"
  "m_correlated (mx one_issued) = [(1, 0)]" "m_next (mx one_issued) = 2"
  by (simp_all add: one_issued_def do_issue_def do_open_def new_msys_def new_mux_def issue_begin_eq
      set_connected_def set_capabilities_def correlation_enabled_def)

lemma mux_no_lost_caller_witness:
  "m_futures (set_disconnected (mx one_issued)) 0 = Raised FitzConnectionError"
  using mux_no_lost_caller [OF one_issued_reach, of 0 100 "[]"] one_issued_state by auto

text \<open>
  C3. On every reachable state a response settles at most the one waiting request that was issued
  under its correlation id, an unknown id raises ProtocolError and changes nothing, and a
  final response frees the id so that a second response under it is refused.
\<close>

lemma mux_response_isolated:
  assumes "mux_reach s" "dispatch_correlated c t body final (mx s) = (res, m')"
  shows "(\<forall>q. m_futures m' q \<noteq> m_futures (mx s) q \<longrightarrow>
      final \<and> p_corr (m_reqs (mx s) q) = Some c \<and> m_futures (mx s) q = Waiting \<and>
      m_futures m' q = Result body) \<and>
    (res = None \<longleftrightarrow> c \<in> fst ` set (m_correlated (mx s))) \<and>
    (res \<noteq> None \<longrightarrow> res = Some (ProtocolError None) \<and> m' = mx s) \<and>
    (final \<longrightarrow> fst (dispatch_correlated c t body' final' m') = Some (ProtocolError None))"
proof (cases "map_of (m_correlated (mx s)) c")
  case None
  then have "c \<notin> fst ` set (m_correlated (mx s))" by (simp add: map_of_eq_None_iff)
  then show ?thesis using assms(2) None by (auto simp: dispatch_correlated_def)
next
  case (Some r)
  have "table_ok (mx s)" using mux_inv_reach [OF assms(1)] by (simp add: mux_inv_def)
  then have r: "p_corr (m_reqs (mx s) r) = Some c" "c \<in> fst ` set (m_correlated (mx s))"
    using table_entry(1) [OF _ map_of_SomeD [OF Some]] map_of_SomeD [OF Some] by force+
  have gone: "map_of (AList.delete c (m_correlated (mx s))) c = None" by (simp add: AList.delete_conv')
  show ?thesis
  proof (cases final)
    case True
    then have m': "m' = settle r (Result body) ((mx s)\<lparr>m_correlated := AList.delete c (m_correlated (mx s))\<rparr>)"
      and "res = None" using assms(2) Some by (auto simp: dispatch_correlated_def)
    have "q = r \<and> m_futures (mx s) q = Waiting \<and> m_futures m' q = Result body"
      if "m_futures m' q \<noteq> m_futures (mx s) q" for q
      using that by (simp add: m' settle_futures split: if_splits)
    then show ?thesis using True r \<open>res = None\<close> gone
      by (auto simp: m' dispatch_correlated_def)
  next
    case False
    then show ?thesis using assms(2) Some r(2) by (auto simp: dispatch_correlated_def)
  qed
qed

lemma mux_response_isolated_witness:
  "fst (dispatch_correlated 1 100 [5] True (mx one_issued)) = None \<and>
   fst (dispatch_correlated 1 100 [6] True
     (snd (dispatch_correlated 1 100 [5] True (mx one_issued)))) = Some (ProtocolError None)"
proof -
  obtain res m' where d: "dispatch_correlated 1 100 [5] True (mx one_issued) = (res, m')"
    by (cases "dispatch_correlated 1 100 [5] True (mx one_issued)")
  from mux_response_isolated [OF one_issued_reach d] d show ?thesis
    by (auto simp: one_issued_state dispatch_correlated_def)
qed

text \<open>
  After a timeout or a cancellation the late response is absorbed: it settles nothing, raises
  nothing and frees the id.
\<close>

lemma mux_tombstone:
  assumes "mux_reach s" "phase s r = Awaiting t" "m_futures (mx s) r = Waiting"
    "out = Timed_out \<or> out = Caller_cancelled"
  shows "\<exists>c. p_corr (m_reqs (mx s) r) = Some c \<and>
    (let m = mx (do_waited t r out s); (res, m') = dispatch_correlated c t' body True m
     in res = None \<and> m_futures m' = m_futures m \<and> c \<notin> fst ` set (m_correlated m'))"
proof -
  have inv: "mux_inv s" by (rule mux_inv_reach [OF assms(1)])
  then have tok: "table_ok (mx s)" by (simp add: mux_inv_def)
  have "request_ok (mx s) r (Awaiting t)" using mux_inv_request [OF inv, of r] assms(2) by simp
  then obtain c where c: "p_corr (m_reqs (mx s) r) = Some c" "(c, r) \<in> set (m_correlated (mx s))"
    and sent: "p_sent (m_reqs (mx s) r)" and l: "p_linked (m_reqs (mx s) r)"
    using assms(3) unfolding request_ok_def by auto
  have m: "map_of (m_correlated (mx s)) c = Some r" by (rule table_entry(5) [OF tok c(2)])
  have eq: "mx (do_waited t r out s) = unlink r (settle r Dropped (mx s))"
    using assms(4) c(1) sent by (auto simp: do_waited_def issue_waited_def abandon_def)
  have keys: "c \<notin> fst ` set (AList.delete c (m_correlated (mx s)))" by (rule AList.delete_notin_dom)
  show ?thesis unfolding eq using c(1) m keys
    by (auto simp: dispatch_correlated_def unlink_def settle_def l assms(3))
qed

definition one_awaited :: msys where
  "one_awaited = do_sent 100 0 Sent one_issued"

lemma one_awaited_state:
  "mux_reach one_awaited" "phase one_awaited 0 = Awaiting 100"
  "m_futures (mx one_awaited) 0 = Waiting" "p_corr (m_reqs (mx one_awaited) 0) = Some 1"
proof -
  show "mux_reach one_awaited" unfolding one_awaited_def
    by (rule mux_reach.step [OF one_issued_reach mux_step.sent]) (rule one_issued_state(1))
  show "phase one_awaited 0 = Awaiting 100" "m_futures (mx one_awaited) 0 = Waiting"
    using one_issued_state by (simp_all add: one_awaited_def do_sent_def issue_sent_def mark_sent_def)
  show "p_corr (m_reqs (mx one_awaited) 0) = Some 1"
    by (simp add: one_awaited_def do_sent_def issue_sent_def mark_sent_def one_issued_def do_issue_def
        do_open_def new_msys_def new_mux_def issue_begin_eq set_connected_def set_capabilities_def
        correlation_enabled_def)
qed

lemma mux_tombstone_witness:
  "fst (dispatch_correlated 1 100 [5] True (mx (do_waited 100 0 Timed_out one_awaited))) = None"
  using mux_tombstone [OF one_awaited_state(1-3), of Timed_out 100 "[5]"] one_awaited_state(4)
  by (auto simp: Let_def split_beta)

text \<open>The frame on the wire carries the caller's type, flags and payload under the new id.\<close>

lemma mux_issues_frame:
  assumes "encode_frame mtype body f0 c0 = Inr fr" "0 \<le> flgs" "flgs \<le> 7"
    "correlation_enabled m" "1 \<le> m_next m" "m_next m \<le> 0xFFFFFFFFFFFFFFFF"
  shows "\<exists>f m'. issue_begin flgs fr m = (Inr (m_fresh m, f), m') \<and>
    decode_frame f = Inr \<lparr>message_type = mtype, flags = flgs, correlation_id = m_next m, payload = body\<rparr> \<and>
    m_next m' = m_next m + 1"
proof -
  have "encode_frame mtype body flgs (m_next m) = Inr (with_correlation flgs (m_next m) fr)"
    using assms by (intro with_correlation_frame) simp_all
  then have "decode_frame (with_correlation flgs (m_next m) fr) =
      Inr \<lparr>message_type = mtype, flags = flgs, correlation_id = m_next m, payload = body\<rparr>"
    by (auto simp: encode_frame_eq Let_def split: if_splits dest!: sym [of "frame_bytes _"] decode_frame_bytes)
  then show ?thesis using assms by (simp add: issue_begin_eq)
qed

lemma mux_issues_frame_witness:
  "m_next (mx one_awaited) \<le> 2 \<and>
   (\<exists>f m'. issue_begin 1 hello_frame (set_connected (set_capabilities 3 0 new_mux)) = (Inr (0, f), m') \<and>
     decode_frame f = Inr \<lparr>message_type = 100, flags = 1, correlation_id = 1, payload = [9]\<rparr>)"
proof -
  have "encode_frame 100 [9] 0 0 = Inr hello_frame"
    by (simp add: encode_frame_eq frame_ok_def hello_frame_def)
  moreover have "m_next (mx one_awaited) = 2"
    using one_issued_state(4) by (simp add: one_awaited_def do_sent_def issue_sent_def mark_sent_def)
  ultimately show ?thesis
    using mux_issues_frame [of 100 "[9]" 0 0 hello_frame 1 "set_connected (set_capabilities 3 0 new_mux)"]
    by (auto simp: set_connected_def set_capabilities_def new_mux_def correlation_enabled_def)
qed

end
