(* ===== verification/Response.thy ===== *)
theory Response
  imports Buffer
begin

text \<open>
  \<open>protocol/response.py\<close>: the single response envelope of Wire 3. A response is a status
  byte and either the data of a success or a coded error (code, class, effect, message).
\<close>

record response =
  rs_data :: bytes
  rs_error_code :: "int option"
  rs_error_class :: "int option"
  rs_effect :: "int option"
  rs_error :: "ustr option"

definition success :: "response \<Rightarrow> bool" where
  "success r \<longleftrightarrow> rs_error r = None"

definition success_response :: "bytes \<Rightarrow> response" where
  "success_response d = \<lparr>rs_data = d, rs_error_code = None, rs_error_class = None,
     rs_effect = None, rs_error = None\<rparr>"

definition read_response :: "response rd" where
  "read_response =
     rd_bind read_u8 (\<lambda>status.
     if status = 0 then rd_bind (rd_get remaining) (\<lambda>d. rd_return (success_response d))
     else if status \<noteq> 1 then rd_raise (ProtocolError (Some status))
     else
       rd_bind read_u16_be (\<lambda>code.
       rd_bind read_u8 (\<lambda>cls.
       rd_bind read_u8 (\<lambda>eff.
       if cls > 10 \<or> eff > 2 then rd_raise (ProtocolError (Some code))
       else
         rd_bind read_string (\<lambda>msg.
         rd_bind (expect_eof (ProtocolError (Some code))) (\<lambda>_.
         rd_return \<lparr>rs_data = [], rs_error_code = Some code, rs_error_class = Some cls,
                    rs_effect = Some eff, rs_error = Some msg\<rparr>))))))"

definition parse_response :: "bytes \<Rightarrow> exn + response" where
  "parse_response body =
     (if body = [] then Inl (ProtocolError None) else run_reader read_response body)"

definition parse_stream_response :: "bytes \<Rightarrow> exn + response" where
  "parse_stream_response = parse_response"

definition parse_plain_or_coded_response :: "bytes \<Rightarrow> exn + response" where
  "parse_plain_or_coded_response = parse_response"

section \<open>Envelopes\<close>

lemma parse_success [simp]: "parse_response (0 # d) = Inr (success_response d)"
  by (simp add: parse_response_def read_response_def run_reader_def new_reader_at)

lemma parse_error [simp]:
  assumes "0 \<le> code" "code < 65536" "0 \<le> cls" "cls \<le> 10" "0 \<le> eff" "eff \<le> 2"
    and "str_field msg = Inr fld"
  shows "parse_response (1 # be_bytes 2 code @ be_bytes (Suc 0) cls @ be_bytes (Suc 0) eff @ fld) =
    Inr \<lparr>rs_data = [], rs_error_code = Some code, rs_error_class = Some cls, rs_effect = Some eff,
      rs_error = Some msg\<rparr>"
  using assms by (simp add: parse_response_def read_response_def run_reader_def new_reader_at)

lemma parse_response_raises:
  assumes "parse_response body = Inl e"
  shows "e = CodecError \<or> e = UnicodeDecodeError \<or> (\<exists>c. e = ProtocolError c)"
proof -
  have "raises read_response ({CodecError, UnicodeDecodeError} \<union> range ProtocolError)"
    unfolding read_response_def by (intro raises_intros) auto
  then show ?thesis
    using assms raises_run [of read_response _ body e]
    by (auto simp: parse_response_def split: if_splits)
qed

lemma parse_response_shape:
  assumes "parse_response body = Inr r"
  shows "(success r \<and> r = success_response (tl body) \<and> hd body = 0) \<or>
    (\<not> success r \<and> rs_data r = [] \<and> hd body = 1 \<and>
     (\<exists>code cls eff. rs_error_code r = Some code \<and> 0 \<le> code \<and> code < 65536 \<and>
        rs_error_class r = Some cls \<and> 0 \<le> cls \<and> cls \<le> 10 \<and>
        rs_effect r = Some eff \<and> 0 \<le> eff \<and> eff \<le> 2))"
proof -
  obtain b rest where body: "body = b # rest"
    using assms by (cases body) (auto simp: parse_response_def)
  show ?thesis
  proof (cases "uint b = 0")
    case True
    then have "b = 0" by (simp add: unsigned_eq_0_iff)
    then show ?thesis using assms body by (auto simp: success_def success_response_def)
  next
    case False
    have "uint b = 1"
      using assms body False
      by (auto simp: parse_response_def read_response_def run_reader_def new_reader_at split: if_splits)
    moreover from this have "b = 1" by (metis uint_1 word_uint_eqI)
    ultimately show ?thesis using assms body
      by (auto simp: parse_response_def read_response_def run_reader_Inr_iff rd_bind_Inr_iff
          success_def split: if_splits dest!: read_range)
  qed
qed

section \<open>Properties\<close>

text \<open>
  C37. parse_response either raises one of its three exceptions or returns a success with the data
  behind the status byte, or a failure whose code, class and effect are in range.
\<close>

lemma response_parse_total:
  "case parse_response body of
     Inl e \<Rightarrow> e = CodecError \<or> e = UnicodeDecodeError \<or> (\<exists>c. e = ProtocolError c)
   | Inr r \<Rightarrow>
       if success r then body = 0 # rs_data r \<and> rs_error_code r = None
       else rs_data r = [] \<and> hd body = 1 \<and>
         (\<exists>code cls eff. rs_error_code r = Some code \<and> 0 \<le> code \<and> code < 65536 \<and>
            rs_error_class r = Some cls \<and> cls \<in> {0..10} \<and> rs_effect r = Some eff \<and> eff \<in> {0..2})"
proof (cases "parse_response body")
  case (Inl e)
  then show ?thesis using parse_response_raises [OF Inl] by simp
next
  case (Inr r)
  have "body \<noteq> []" using Inr by (auto simp: parse_response_def)
  then have "body = hd body # tl body" by simp
  then show ?thesis using parse_response_shape [OF Inr] Inr
    by (auto simp: success_response_def)
qed

end
