(* ===== verification/Extensions.thy ===== *)
theory Extensions
  imports Frame
begin

text \<open>
  \<open>protocol/extensions.py\<close>: the capability list and the length-delimited extension
  exts. A payload with extensions decodes to the core and capabilities it was built from;
  the capability check is the statement that the ids are strictly ascending nonzero u32
  values; the field loop always stops because every field consumes at least its header.
\<close>

definition EXTENSIONS_PRESENT :: int where [simp]: "EXTENSIONS_PRESENT = 4"
definition QUEUE_MESSAGE_TTL :: int where [simp]: "QUEUE_MESSAGE_TTL = 1"
definition QUEUE_NACK :: int where [simp]: "QUEUE_NACK = 2"
definition CLIENT_CAPABILITY_IDS :: "int list" where
  [simp]: "CLIENT_CAPABILITY_IDS = [QUEUE_MESSAGE_TTL, QUEUE_NACK]"

definition encode_capabilities :: "int list \<Rightarrow> exn + bytes" where
  "encode_capabilities ids =
     (if length ids > 65535 \<or>
         list_ex (\<lambda>(index, value). value \<le> 0 \<or> value > 0xFFFFFFFF \<or>
           (index \<noteq> 0 \<and> value \<le> ids ! (index - 1))) (enumerate 0 ids)
      then Inl CodecError
      else Inr (be_bytes 2 (int (length ids)) @ concat (map (be_bytes 4) ids)))"

fun encode_fields :: "int \<Rightarrow> (int \<times> bytes) list \<Rightarrow> exn + bytes" where
  "encode_fields previous [] = Inr []"
| "encode_fields previous ((field_id, value) # exts) =
     (if \<not> (previous < field_id \<and> field_id \<le> 65535) then Inl CodecError
      else bind_r (pack StructError 2 field_id) (\<lambda>a.
           bind_r (pack StructError 4 (int (length value))) (\<lambda>b.
           bind_r (encode_fields field_id exts) (\<lambda>rest. Inr (a @ b @ value @ rest)))))"

definition encode_payload :: "bytes \<Rightarrow> (int \<times> bytes) list \<Rightarrow> exn + bytes" where
  "encode_payload core exts =
     (if exts = [] then Inr core
      else bind_r (encode_fields 0 exts) (\<lambda>entries.
           bind_r (pack StructError 4 (int (length core))) (\<lambda>h. Inr (h @ core @ entries))))"

definition read_capability_field ::
  "bytes \<Rightarrow> nat \<Rightarrow> int \<Rightarrow> int list option \<Rightarrow> exn + int list option" where
  "read_capability_field view cursor fsize capabilities =
     (if capabilities \<noteq> None \<or> fsize < 2 then Inl CodecError
      else let count = be_int (seg cursor 2 view)
      in if fsize \<noteq> 2 + 4 * count then Inl CodecError
      else let ids = map (\<lambda>index. be_int (seg (cursor + 2 + 4 * index) 4 view)) [0..<nat count]
      in bind_r (encode_capabilities ids) (\<lambda>_. Inr (Some ids)))"

function extension_loop ::
  "bool \<Rightarrow> bytes \<Rightarrow> nat \<Rightarrow> int list option \<Rightarrow> bool \<Rightarrow> exn + (int list option \<times> bool)" where
  "extension_loop handshake view cursor capabilities fields_seen =
     (if cursor < length view then
        if length view - cursor < 6 then Inl CodecError
        else let field_id = be_int (seg cursor 2 view);
                 fsize = be_int (seg (cursor + 2) 4 view);
                 start = cursor + 6
        in if field_id = 0 \<or> fsize > int (length view) - int start then Inl CodecError
        else bind_r (if handshake \<and> field_id = 1
                     then read_capability_field view start fsize capabilities
                     else Inr capabilities)
               (\<lambda>caps. extension_loop handshake view (start + nat fsize) caps True)
      else Inr (capabilities, fields_seen))"
  by pat_completeness auto
termination
  by (relation "measure (\<lambda>(_, view, cursor, _, _). length view - cursor)") auto

declare extension_loop.simps [simp del]

definition decode_payload :: "bytes \<Rightarrow> int \<Rightarrow> int \<Rightarrow> exn + (bytes \<times> int list)" where
  "decode_payload body mtype flgs =
     (let handshake = (mtype = 2) in
      if flgs AND EXTENSIONS_PRESENT = 0 then
        (if handshake then Inl CodecError else Inr (body, []))
      else if length body < 4 then Inl CodecError
      else let core_end = 4 + be_int (take 4 body)
      in if core_end > int (length body) then Inl CodecError
      else bind_r (extension_loop handshake body (nat core_end) None False)
             (\<lambda>(capabilities, fields_seen).
              if \<not> fields_seen \<or> (handshake \<and> capabilities = None) then Inl CodecError
              else Inr (seg 4 (nat core_end - 4) body,
                        case capabilities of None \<Rightarrow> [] | Some ids \<Rightarrow> ids)))"

section \<open>Capability lists\<close>

lemma bad_capability_iff:
  "list_ex (\<lambda>(i, v). v \<le> 0 \<or> v > 0xFFFFFFFF \<or> (i \<noteq> 0 \<and> v \<le> ids ! (i - 1))) (enumerate 0 ids)
   \<longleftrightarrow> \<not> (sorted_wrt (<) ids \<and> (\<forall>v\<in>set ids. 0 < v \<and> v \<le> (0xFFFFFFFF::int)))"
proof -
  have "sorted_wrt (<) ids \<longleftrightarrow> (\<forall>i. Suc i < length ids \<longrightarrow> ids ! i < ids ! Suc i)"
    by (rule sorted_wrt_iff_nth_Suc_transp) (simp add: transp_on_def)
  also have "\<dots> \<longleftrightarrow> (\<forall>i<length ids. i \<noteq> 0 \<longrightarrow> ids ! (i - 1) < ids ! i)"
    by (metis Suc_pred diff_Suc_1 neq0_conv nat.distinct(1))
  finally show ?thesis
    by (auto simp: list_ex_length nth_enumerate_eq all_set_conv_all_nth not_less not_le)
qed

lemma encode_capabilities_Inr_iff:
  "encode_capabilities ids = Inr bs \<longleftrightarrow>
     length ids \<le> 65535 \<and> sorted_wrt (<) ids \<and> (\<forall>v\<in>set ids. 0 < v \<and> v \<le> 0xFFFFFFFF) \<and>
     bs = be_bytes 2 (int (length ids)) @ concat (map (be_bytes 4) ids)"
  unfolding encode_capabilities_def bad_capability_iff by auto

lemma length_concat_be: "length (concat (map (be_bytes n) ids)) = n * length ids"
  by (induction ids) simp_all

lemma seg_concat_be:
  "i < length ids \<Longrightarrow> seg (n * i) n (concat (map (be_bytes n) ids) @ suf) = be_bytes n (ids ! i)"
proof (induction ids arbitrary: i)
  case Nil
  then show ?case by simp
next
  case (Cons v ids)
  then show ?case by (cases i) (simp_all add: seg_skip seg_here)
qed

lemma read_capability_field_ok:
  assumes "encode_capabilities ids = Inr bs"
    and view: "view = pre @ bs @ suf" "n = length pre"
  shows "read_capability_field view n (int (length bs)) None = Inr (Some ids)"
proof -
  have ids: "length ids \<le> 65535" "\<And>i. i < length ids \<Longrightarrow> 0 \<le> ids ! i \<and> ids ! i < 4294967296"
    and bs: "bs = be_bytes 2 (int (length ids)) @ concat (map (be_bytes 4) ids)"
    using assms by (force simp: encode_capabilities_Inr_iff all_set_conv_all_nth)+
  have count: "be_int (seg n 2 view) = int (length ids)"
    using ids by (simp add: bs view seg_skip seg_here)
  have len: "int (length bs) = 2 + 4 * int (length ids)"
    by (simp add: bs length_concat_be)
  have "map (\<lambda>i. be_int (seg (n + 2 + 4 * i) 4 view)) [0..<length ids] = ids"
    by (rule nth_equalityI) (use ids in \<open>simp_all add: bs view seg_skip seg_concat_be\<close>)
  then show ?thesis
    using assms(1) by (simp add: read_capability_field_def Let_def count len)
qed

section \<open>Extension fields\<close>

lemma encode_fields_lower: "encode_fields p fs = Inr es \<Longrightarrow> (f, v) \<in> set fs \<Longrightarrow> p < f"
proof (induction fs arbitrary: p es)
  case (Cons a fs)
  obtain f' v' where a: "a = (f', v')" by (cases a)
  from Cons.prems(1) obtain rest where "p < f'" "encode_fields f' fs = Inr rest"
    by (auto simp: a bind_r_Inr_iff split: if_splits)
  then show ?case using Cons.IH [of f' rest] Cons.prems(2) a by fastforce
qed simp

text \<open>One round of the loop on a well-formed field.\<close>

lemma extension_step:
  assumes "0 < f" "f \<le> 65535" "int (length v) < 4294967296"
  shows "extension_loop hs (pre @ be_bytes 2 f @ be_bytes 4 (int (length v)) @ v @ rest)
           (length pre) caps seen =
         bind_r (if hs \<and> f = 1
                 then read_capability_field (pre @ be_bytes 2 f @ be_bytes 4 (int (length v)) @ v @ rest)
                        (length pre + 6) (int (length v)) caps
                 else Inr caps)
           (\<lambda>c. extension_loop hs (pre @ be_bytes 2 f @ be_bytes 4 (int (length v)) @ v @ rest)
                  (length pre + 6 + length v) c True)"
  using assms by (subst extension_loop.simps) (simp add: seg_skip seg_here Let_def)

lemma extension_loop_end: "extension_loop hs view (length view) caps seen = Inr (caps, seen)"
  by (subst extension_loop.simps) simp

lemma extension_loop_skips:
  assumes "encode_fields p fs = Inr es" "0 \<le> p" "hs \<longrightarrow> 0 < p" "view = pre @ es" "n = length pre"
  shows "extension_loop hs view n caps seen = Inr (caps, seen \<or> fs \<noteq> [])"
  using assms
proof (induction fs arbitrary: p es pre n seen)
  case Nil
  then show ?case using extension_loop_end [of hs pre] by simp
next
  case (Cons a fs)
  obtain f v where a: "a = (f, v)" by (cases a)
  from Cons.prems(1) obtain rest where f: "p < f" "f \<le> 65535" "int (length v) < 4294967296"
    and rest: "encode_fields f fs = Inr rest"
    and es: "es = be_bytes 2 f @ be_bytes 4 (int (length v)) @ v @ rest"
    by (auto simp: a bind_r_Inr_iff pack_Inr_iff split: if_splits)
  have "\<not> (hs \<and> f = 1)" using Cons.prems f by auto
  moreover have "0 < f" using f Cons.prems by simp
  moreover have "extension_loop hs view (length pre + 6 + length v) caps True = Inr (caps, True)"
    by (subst Cons.IH [OF rest, of "pre @ be_bytes 2 f @ be_bytes 4 (int (length v)) @ v"])
      (use f Cons.prems in \<open>auto simp: es\<close>)
  ultimately show ?case using f Cons.prems by (auto simp: es extension_step)
qed

lemma encode_payload_Inr:
  assumes "encode_payload core exts = Inr body" "exts \<noteq> []"
  obtains entries where "encode_fields 0 exts = Inr entries"
    "int (length core) < 4294967296" "body = be_bytes 4 (int (length core)) @ core @ entries"
  using assms by (auto simp: encode_payload_def bind_r_Inr_iff pack_Inr_iff)

lemma decode_payload_eq:
  assumes "int (length core) < 4294967296"
  shows "decode_payload (be_bytes 4 (int (length core)) @ core @ entries) mtype 4 =
     bind_r (extension_loop (mtype = 2) (be_bytes 4 (int (length core)) @ core @ entries)
               (length (be_bytes 4 (int (length core)) @ core)) None False)
       (\<lambda>(capabilities, fields_seen).
          if \<not> fields_seen \<or> (mtype = 2 \<and> capabilities = None) then Inl CodecError
          else Inr (core, case capabilities of None \<Rightarrow> [] | Some ids \<Rightarrow> ids))"
proof -
  have "seg 4 (length core) (be_bytes 4 (int (length core)) @ core @ entries) = core"
    by (simp add: seg_skip seg_here)
  moreover have "nat (4 + int (length core)) = 4 + length core" by simp
  ultimately show ?thesis
    using assms by (simp add: decode_payload_def Let_def cong: if_cong)
qed

lemma extension_roundtrip:
  assumes "encode_payload core exts = Inr body" "exts \<noteq> []" "mtype \<noteq> 2"
  shows "decode_payload body mtype EXTENSIONS_PRESENT = Inr (core, [])"
proof -
  obtain entries where e: "encode_fields 0 exts = Inr entries"
    "int (length core) < 4294967296" "body = be_bytes 4 (int (length core)) @ core @ entries"
    using encode_payload_Inr [OF assms(1,2)] .
  have "extension_loop False body (length (be_bytes 4 (int (length core)) @ core)) None False
      = Inr (None, True)"
    by (subst extension_loop_skips [OF e(1)]) (use assms(2) e(3) in auto)
  then show ?thesis using assms(3) e by (simp add: decode_payload_eq)
qed

lemma hello_roundtrip:
  assumes "encode_capabilities ids = Inr caps"
    and "encode_payload core ((1, caps) # exts) = Inr body"
  shows "decode_payload body MSG_HELLO EXTENSIONS_PRESENT = Inr (core, ids)"
proof -
  obtain entries where e: "encode_fields 0 ((1, caps) # exts) = Inr entries"
    "int (length core) < 4294967296" "body = be_bytes 4 (int (length core)) @ core @ entries"
    using encode_payload_Inr [OF assms(2)] by blast
  then obtain rest where rest: "encode_fields 1 exts = Inr rest"
    and c: "int (length caps) < 4294967296"
    and es: "entries = be_bytes 2 1 @ be_bytes 4 (int (length caps)) @ caps @ rest"
    by (auto simp: bind_r_Inr_iff pack_Inr_iff)
  let ?pre = "be_bytes 4 (int (length core)) @ core"
  let ?hd = "?pre @ be_bytes 2 1 @ be_bytes 4 (int (length caps))"
  have "extension_loop True body (length ?pre) None False =
      bind_r (read_capability_field body (length ?pre + 6) (int (length caps)) None)
        (\<lambda>x. extension_loop True body (length ?pre + 6 + length caps) x True)"
    using extension_step [of 1 caps True ?pre rest None False] c e(3) es by simp
  also have "\<dots> = Inr (Some ids, True)"
    using extension_loop_skips [OF rest, of True body "?hd @ caps" "length ?pre + 6 + length caps"]
      read_capability_field_ok [OF assms(1), of body ?hd rest "length ?pre + 6"] e(3) es
    by simp
  finally show ?thesis using e by (simp add: decode_payload_eq)
qed

section \<open>Properties\<close>

text \<open>
  Capabilities encoded into the extension section of a HELLO are decoded to the same sorted
  list of positive ids.
\<close>

lemma hello_negotiation:
  assumes "encode_capabilities ids = Inr caps" "encode_payload core [(1, caps)] = Inr body"
  shows "decode_payload body MSG_HELLO EXTENSIONS_PRESENT = Inr (core, ids) \<and>
    sorted_wrt (<) ids \<and> (\<forall>v\<in>set ids. 0 < v \<and> v \<le> 0xFFFFFFFF)"
  using hello_roundtrip [OF assms] assms(1) by (simp add: encode_capabilities_Inr_iff)

lemma hello_negotiation_witness:
  "\<exists>body. encode_payload [7, 7] [(1, be_bytes 2 1 @ be_bytes 4 2)] = Inr body \<and>
     decode_payload body MSG_HELLO EXTENSIONS_PRESENT = Inr ([7, 7], [2])"
proof -
  have caps: "encode_capabilities [2] = Inr (be_bytes 2 1 @ be_bytes 4 2)"
    by (simp add: encode_capabilities_Inr_iff)
  obtain body where body: "encode_payload [7, 7] [(1, be_bytes 2 1 @ be_bytes 4 2)] = Inr body"
    by (simp add: encode_payload_def pack_def bind_r_def guard_r_def)
  then show ?thesis using hello_negotiation [OF caps body] by blast
qed

end
