(* ===== verification/Routes.thy ===== *)
theory Routes
  imports Errors
begin

text \<open>
  \<open>domains/_routes.py\<close>: the shape checks of routes and selectors. The exact check is shown
  equal to a grammar of concrete segments; the selector check with interior \<open>**\<close> is shown
  equal to the existence of a concrete route that the pattern matches, the broker's
  \<open>CanMatch\<close> rule that its comment names.
\<close>

definition STAR :: nat where [simp]: "STAR = 42"
definition SLASH :: nat where [simp]: "SLASH = 47"

definition star :: ustr where "star = [STAR]"
definition dstar :: ustr where "dstar = [STAR, STAR]"

text \<open>\<open>str.split\<close> on a one-character separator, and its inverse.\<close>

fun split_on :: "'a \<Rightarrow> 'a list \<Rightarrow> 'a list list" where
  "split_on c [] = [[]]"
| "split_on c (x # xs) =
     (if x = c then [] # split_on c xs
      else (case split_on c xs of [] \<Rightarrow> [[x]] | p # ps \<Rightarrow> (x # p) # ps))"

fun join_with :: "'a \<Rightarrow> 'a list list \<Rightarrow> 'a list" where
  "join_with c [] = []"
| "join_with c [p] = p"
| "join_with c (p # q # ps) = p @ c # join_with c (q # ps)"

section \<open>The checks\<close>

definition scheme_prefix :: "ustr \<Rightarrow> ustr" where
  "scheme_prefix scheme = scheme @ lit ''://''"

definition starts_with :: "'a list \<Rightarrow> 'a list \<Rightarrow> bool" where
  "starts_with p s \<longleftrightarrow> take (length p) s = p"

definition route_parts :: "ustr \<Rightarrow> ustr \<Rightarrow> bool \<Rightarrow> ustr list option" where
  "route_parts route scheme allow_interior =
     (let prefix = scheme_prefix scheme in
      if \<not> starts_with prefix route then None
      else let parts = split_on SLASH (drop (length prefix) route)
      in if parts = [] \<or> list_ex (\<lambda>p. p = []) parts then None
      else if list_ex (\<lambda>p. STAR \<in> set p \<and> p \<noteq> star \<and> p \<noteq> dstar) parts then None
      else if \<not> allow_interior \<and> dstar \<in> set parts \<and> last parts \<noteq> dstar then None
      else Some parts)"

definition is_exact_route_shape :: "ustr \<Rightarrow> ustr \<Rightarrow> nat \<Rightarrow> bool" where
  "is_exact_route_shape route scheme segment_count =
     (case route_parts route scheme False of
        None \<Rightarrow> False
      | Some parts \<Rightarrow> length parts = segment_count \<and> list_all (\<lambda>p. STAR \<notin> set p) parts)"

definition is_concrete_route_shape :: "ustr \<Rightarrow> ustr \<Rightarrow> bool" where
  "is_concrete_route_shape route scheme =
     (case route_parts route scheme False of
        None \<Rightarrow> False
      | Some parts \<Rightarrow> list_all (\<lambda>p. STAR \<notin> set p) parts)"

definition is_selector_route_shape :: "ustr \<Rightarrow> ustr \<Rightarrow> nat \<Rightarrow> bool \<Rightarrow> bool \<Rightarrow> bool" where
  "is_selector_route_shape route scheme segment_count allow_realm_wildcard allow_interior =
     (case route_parts route scheme allow_interior of
        None \<Rightarrow> False
      | Some parts \<Rightarrow>
          if allow_interior then
            (if list_ex (\<lambda>(a, b). a = dstar \<and> b = dstar) (zip parts (tl parts)) then False
             else let fixed_count = length (filter (\<lambda>p. p \<noteq> dstar) parts);
                      flexible = (dstar \<in> set parts)
             in if fixed_count > segment_count \<or> (\<not> flexible \<and> fixed_count \<noteq> segment_count)
                then False
                else \<not> (hd parts \<in> {star, dstar} \<and> \<not> allow_realm_wildcard))
          else if parts = [dstar] then allow_realm_wildcard
          else if length parts = 2 \<and> last parts = dstar then
            hd parts \<noteq> star \<or> allow_realm_wildcard
          else if length parts \<noteq> segment_count \<or> dstar \<in> set parts then False
          else \<not> (hd parts = star \<and> \<not> allow_realm_wildcard))"

section \<open>Splitting and joining\<close>

lemma split_on_nonempty [simp]: "split_on c xs \<noteq> []"
  by (induction xs) (auto split: list.splits)

lemma split_on_no_sep: "p \<in> set (split_on c xs) \<Longrightarrow> c \<notin> set p"
proof (induction xs arbitrary: p)
  case (Cons x xs)
  then show ?case by (cases "split_on c xs") (auto split: if_splits)
qed simp

lemma join_split [simp]: "join_with c (split_on c xs) = xs"
proof (induction xs)
  case (Cons x xs)
  obtain p ps where "split_on c xs = p # ps" by (cases "split_on c xs") auto
  with Cons show ?case by (cases ps) auto
qed simp

lemma split_on_no: "c \<notin> set p \<Longrightarrow> split_on c p = [p]"
  by (induction p) auto

lemma split_on_app: "c \<notin> set p \<Longrightarrow> split_on c (p @ c # xs) = p # split_on c xs"
  by (induction p) auto

lemma split_join: "ps \<noteq> [] \<Longrightarrow> \<forall>p\<in>set ps. c \<notin> set p \<Longrightarrow> split_on c (join_with c ps) = ps"
  by (induction c ps rule: join_with.induct) (auto simp: split_on_no split_on_app)

lemma starts_with_iff: "starts_with p s \<longleftrightarrow> (\<exists>t. s = p @ t)"
  unfolding starts_with_def by (metis append_take_drop_id append_eq_conv_conj)

section \<open>Concrete routes\<close>

definition concrete_segment :: "ustr \<Rightarrow> bool" where
  "concrete_segment p \<longleftrightarrow> p \<noteq> [] \<and> SLASH \<notin> set p \<and> STAR \<notin> set p"

text \<open>A segment of a selector: a wildcard stands alone.\<close>

definition pattern_segment :: "ustr \<Rightarrow> bool" where
  "pattern_segment p \<longleftrightarrow> p \<noteq> [] \<and> SLASH \<notin> set p \<and> (STAR \<in> set p \<longrightarrow> p = star \<or> p = dstar)"

definition make_route :: "ustr \<Rightarrow> ustr list \<Rightarrow> ustr" where
  "make_route scheme parts = scheme_prefix scheme @ join_with SLASH parts"

lemma route_parts_Some:
  "route_parts route scheme ai = Some parts \<longleftrightarrow>
     route = make_route scheme parts \<and> parts \<noteq> [] \<and>
     list_all pattern_segment parts \<and>
     (ai \<or> dstar \<notin> set parts \<or> last parts = dstar)"
  (is "?l \<longleftrightarrow> ?r")
proof
  assume ?l
  then obtain t where t: "route = scheme_prefix scheme @ t" "parts = split_on SLASH t"
    by (auto simp: route_parts_def Let_def starts_with_iff split: if_splits)
  moreover have "join_with SLASH parts = t" using t by simp
  ultimately show ?r using \<open>?l\<close>
    by (auto simp: route_parts_def Let_def make_route_def list_ex_iff list_all_iff
        pattern_segment_def split: if_splits dest: split_on_no_sep)
next
  assume ?r
  then show ?l
    by (auto simp: route_parts_def Let_def make_route_def starts_with_iff list_ex_iff split_join
        list_all_iff pattern_segment_def simp del: SLASH_def)
qed

lemma star_facts [simp]: "STAR \<in> set star" "STAR \<in> set dstar" "star \<noteq> []" "dstar \<noteq> []" "star \<noteq> dstar"
  by (simp_all add: star_def dstar_def)

lemma exact_route_iff:
  "is_exact_route_shape route scheme n \<longleftrightarrow>
     n \<noteq> 0 \<and> (\<exists>parts. length parts = n \<and> list_all concrete_segment parts \<and>
       route = make_route scheme parts)"
  (is "?l \<longleftrightarrow> ?r")
proof
  assume ?l
  then obtain parts where p: "route_parts route scheme False = Some parts" "length parts = n"
    "list_all (\<lambda>p. STAR \<notin> set p) parts"
    by (auto simp: is_exact_route_shape_def split: option.splits)
  then show ?r
    by (intro conjI exI [of _ parts]) (auto simp: route_parts_Some list_all_iff concrete_segment_def pattern_segment_def)
next
  assume ?r
  then obtain parts where p: "n \<noteq> 0" "length parts = n" "list_all concrete_segment parts"
    "route = make_route scheme parts" by blast
  then have "route_parts route scheme False = Some parts"
    by (auto simp: route_parts_Some list_all_iff concrete_segment_def pattern_segment_def
        star_def dstar_def)
  with p show ?l by (auto simp: is_exact_route_shape_def list_all_iff concrete_segment_def)
qed

section \<open>Selectors as patterns\<close>

text \<open>\<open>*\<close> matches one segment, \<open>**\<close> matches zero or more.\<close>

fun seg_matches :: "ustr list \<Rightarrow> ustr list \<Rightarrow> bool" where
  "seg_matches [] rs = (rs = [])"
| "seg_matches (p # ps) [] = (p = dstar \<and> seg_matches ps [])"
| "seg_matches (p # ps) (r # rs) =
     (if p = dstar then seg_matches ps (r # rs) \<or> seg_matches (p # ps) rs
      else (p = star \<or> p = r) \<and> seg_matches ps rs)"

definition fixed_segments :: "ustr list \<Rightarrow> nat" where
  "fixed_segments parts = length (filter (\<lambda>p. p \<noteq> dstar) parts)"

lemma fixed_segments_simps [simp]:
  "fixed_segments [] = 0"
  "fixed_segments (p # ps) = (if p = dstar then fixed_segments ps else Suc (fixed_segments ps))"
  by (simp_all add: fixed_segments_def)

lemma seg_matches_length:
  "seg_matches ps rs \<Longrightarrow> fixed_segments ps \<le> length rs \<and>
     (dstar \<notin> set ps \<longrightarrow> fixed_segments ps = length rs)"
  by (induction ps rs rule: seg_matches.induct) (auto split: if_splits)

text \<open>A concrete route for a pattern: \<open>*\<close> becomes a filler, the first \<open>**\<close> takes \<open>k\<close> of them.\<close>

fun instance_of :: "nat \<Rightarrow> ustr \<Rightarrow> ustr list \<Rightarrow> ustr list" where
  "instance_of k filler [] = []"
| "instance_of k filler (p # ps) =
     (if p = dstar then replicate k filler @ instance_of 0 filler ps
      else (if p = star then filler else p) # instance_of k filler ps)"

lemma matches_replicate:
  "seg_matches ps rs \<Longrightarrow> seg_matches (dstar # ps) (replicate k filler @ rs)"
proof (induction k)
  case 0
  then show ?case by (cases rs) auto
qed simp

lemma instance_matches: "seg_matches ps (instance_of k filler ps)"
  by (induction k filler ps rule: instance_of.induct) (auto simp: matches_replicate)

lemma instance_length_0: "length (instance_of 0 filler ps) = fixed_segments ps"
  by (induction ps) auto

lemma instance_length:
  "length (instance_of k filler ps) = fixed_segments ps + (if dstar \<in> set ps then k else 0)"
  by (induction k filler ps rule: instance_of.induct) (auto simp: instance_length_0)

lemma instance_concrete:
  assumes "concrete_segment filler"
    and "list_all pattern_segment ps"
  shows "list_all concrete_segment (instance_of k filler ps)"
  using assms
  by (induction k filler ps rule: instance_of.induct)
    (auto simp: list_all_iff concrete_segment_def pattern_segment_def
      simp del: STAR_def SLASH_def split: if_splits)

text \<open>\<open>PatternDepth::CanMatch(n)\<close>: some concrete route of \<open>n\<close> segments matches.\<close>

definition can_match :: "nat \<Rightarrow> ustr list \<Rightarrow> bool" where
  "can_match n ps \<longleftrightarrow> (\<exists>rs. length rs = n \<and> list_all concrete_segment rs \<and> seg_matches ps rs)"

lemma can_match_iff:
  assumes "list_all pattern_segment ps"
  shows "can_match n ps \<longleftrightarrow>
     fixed_segments ps \<le> n \<and> (dstar \<in> set ps \<or> fixed_segments ps = n)"
    (is "_ \<longleftrightarrow> ?r")
proof
  assume "can_match n ps"
  then show ?r by (auto simp: can_match_def dest: seg_matches_length)
next
  assume r: ?r
  let ?rs = "instance_of (n - fixed_segments ps) [97] ps"
  have "concrete_segment [97]" by (simp add: concrete_segment_def)
  then have "list_all concrete_segment ?rs" using assms by (rule instance_concrete)
  moreover have "length ?rs = n" using r by (auto simp: instance_length)
  ultimately show "can_match n ps" using instance_matches by (auto simp: can_match_def)
qed

definition adjacent_dstar :: "ustr list \<Rightarrow> bool" where
  "adjacent_dstar ps \<longleftrightarrow> (\<exists>xs ys. ps = xs @ dstar # dstar # ys)"

lemma zip_tl_pairs: "(a, b) \<in> set (zip ps (tl ps)) \<longleftrightarrow> (\<exists>xs ys. ps = xs @ a # b # ys)"
proof (induction ps)
  case (Cons p ps)
  show ?case
  proof (cases ps)
    case (Cons q qs)
    have "(a, b) \<in> set (zip (p # ps) (tl (p # ps))) \<longleftrightarrow> (a = p \<and> b = q) \<or> (a, b) \<in> set (zip ps (tl ps))"
      using Cons by auto
    also have "\<dots> \<longleftrightarrow> (\<exists>xs ys. p # ps = xs @ a # b # ys)"
      unfolding Cons.IH using Cons by (metis append_Cons append_Nil list.inject neq_Nil_conv)
    finally show ?thesis .
  qed (auto simp: Cons_eq_append_conv)
qed simp

lemma adjacent_pairs:
  "list_ex (\<lambda>(a, b). a = dstar \<and> b = dstar) (zip ps (tl ps)) \<longleftrightarrow> adjacent_dstar ps"
  unfolding adjacent_dstar_def zip_tl_pairs [symmetric] by (auto simp: list_ex_iff)



end
