(* ===== verification/Config.thy ===== *)
theory Config
  imports Complex_Main Utf8 Errors
begin

text \<open>
  \<open>types.ClientConfig\<close>: the options of a client and their validation. Numbers Python calls
  floats are rationals, the two infinities or NaN, whose comparisons are all false.
\<close>

section \<open>Floating-point numbers\<close>

datatype pyfloat = Num rat | Pos_inf | Neg_inf | NaN

fun float_le :: "pyfloat \<Rightarrow> pyfloat \<Rightarrow> bool" where
  "float_le NaN y = False"
| "float_le x NaN = False"
| "float_le Neg_inf y = True"
| "float_le x Pos_inf = True"
| "float_le (Num a) (Num b) = (a \<le> b)"
| "float_le x y = False"

fun float_lt :: "pyfloat \<Rightarrow> pyfloat \<Rightarrow> bool" where
  "float_lt NaN y = False"
| "float_lt x NaN = False"
| "float_lt x Neg_inf = False"
| "float_lt Pos_inf y = False"
| "float_lt (Num a) (Num b) = (a < b)"
| "float_lt x y = True"

fun isfinite :: "pyfloat \<Rightarrow> bool" where
  "isfinite (Num a) = True"
| "isfinite x = False"

section \<open>Texts\<close>

text \<open>The code points \<open>str.strip\<close> removes, and those of category \<open>Cc\<close>.\<close>

definition is_space :: "nat \<Rightarrow> bool" where
  "is_space c \<longleftrightarrow> (9 \<le> c \<and> c \<le> 13) \<or> (28 \<le> c \<and> c \<le> 32) \<or> c = 0x85 \<or> c = 0xA0 \<or> c = 0x1680 \<or>
     (0x2000 \<le> c \<and> c \<le> 0x200A) \<or> c = 0x2028 \<or> c = 0x2029 \<or> c = 0x202F \<or> c = 0x205F \<or> c = 0x3000"

definition is_control :: "nat \<Rightarrow> bool" where
  "is_control c \<longleftrightarrow> c < 32 \<or> (127 \<le> c \<and> c < 160)"

definition strip :: "ustr \<Rightarrow> ustr" where
  "strip s = rev (dropWhile is_space (rev (dropWhile is_space s)))"

section \<open>Options\<close>

record reconnect_policy =
  rc_enabled :: bool
  rc_max_attempts :: "int option"
  rc_backoff :: pyfloat
  rc_max_backoff :: pyfloat

record retry_policy =
  rt_enabled :: bool
  rt_max_attempts :: int
  rt_backoff :: pyfloat
  rt_max_backoff :: pyfloat

record heartbeat_policy =
  hb_enabled :: bool
  hb_interval :: pyfloat
  hb_timeout :: pyfloat

record limits =
  max_in_flight :: int
  request_queue_size :: int
  async_handler_concurrency :: int
  async_handler_queue_size :: int
  subscription_buffer_size :: int
  async_handler_timeout :: pyfloat

datatype transport_type = AUTO | TCP | WEBSOCKET

record config =
  url :: ustr
  transport :: transport_type
  request_timeout :: pyfloat
  auth_settle_timeout :: pyfloat
  max_frame_size :: int
  reconnect :: reconnect_policy
  retry :: retry_policy
  heartbeat :: heartbeat_policy
  limits :: limits
  service_name :: "ustr option"

definition default_limits :: limits where
  "default_limits = \<lparr>max_in_flight = 256, request_queue_size = 1024,
     async_handler_concurrency = 256, async_handler_queue_size = 1024,
     subscription_buffer_size = 1024, async_handler_timeout = Num 30\<rparr>"

definition default_config :: "ustr \<Rightarrow> config" where
  "default_config u = \<lparr>url = u, transport = AUTO, request_timeout = Num 30,
     auth_settle_timeout = Num 1, max_frame_size = 1048576,
     reconnect = \<lparr>rc_enabled = True, rc_max_attempts = None, rc_backoff = Num (1/4), rc_max_backoff = Num 5\<rparr>,
     retry = \<lparr>rt_enabled = True, rt_max_attempts = 3, rt_backoff = Num (1/10), rt_max_backoff = Num 1\<rparr>,
     heartbeat = \<lparr>hb_enabled = True, hb_interval = Num 10, hb_timeout = Num 30\<rparr>,
     limits = default_limits, service_name = None\<rparr>"

section \<open>Validation\<close>

definition check_service_name :: "ustr option \<Rightarrow> exn option" where
  "check_service_name name =
     (case name of
        None \<Rightarrow> None
      | Some s \<Rightarrow>
          (let n = strip s in
           case utf8_encode n of
             Inl _ \<Rightarrow> Some PyValueError
           | Inr bs \<Rightarrow>
               if n = [] then Some PyValueError
               else if length bs > 128 then Some PyValueError
               else if list_ex is_control n then Some PyValueError
               else None))"

definition positive_finite :: "pyfloat \<Rightarrow> bool" where
  "positive_finite x \<longleftrightarrow> isfinite x \<and> \<not> float_le x (Num 0)"

definition check_config :: "config \<Rightarrow> exn option" where
  "check_config c =
     (if url c = [] then Some PyValueError
      else if check_service_name (service_name c) \<noteq> None then check_service_name (service_name c)
      else if float_le (request_timeout c) (Num 0) \<or> float_lt (auth_settle_timeout c) (Num 0)
        then Some PyValueError
      else if max_frame_size c < 15 then Some PyValueError
      else if (case rc_max_attempts (reconnect c) of None \<Rightarrow> False | Some n \<Rightarrow> n < 0) then Some PyValueError
      else if rt_max_attempts (retry c) < 1 then Some PyValueError
      else if \<not> list_all positive_finite
          [rc_backoff (reconnect c), rc_max_backoff (reconnect c), rt_backoff (retry c),
           rt_max_backoff (retry c), hb_interval (heartbeat c), hb_timeout (heartbeat c),
           async_handler_timeout (limits c)] then Some PyValueError
      else if float_lt (rc_max_backoff (reconnect c)) (rc_backoff (reconnect c)) then Some PyValueError
      else if float_lt (rt_max_backoff (retry c)) (rt_backoff (retry c)) then Some PyValueError
      else if max_in_flight (limits c) < 1 then Some PyValueError
      else if request_queue_size (limits c) < 0 then Some PyValueError
      else if async_handler_concurrency (limits c) < 1 then Some PyValueError
      else if async_handler_queue_size (limits c) < 0 then Some PyValueError
      else if subscription_buffer_size (limits c) < 1 then Some PyValueError
      else None)"

text \<open>\<open>create_transport\<close>: which transport a URL gets.\<close>

definition url_starts_with :: "string \<Rightarrow> ustr \<Rightarrow> bool" where
  "url_starts_with p u \<longleftrightarrow> take (length p) u = lit p"

definition resolve_transport :: "ustr \<Rightarrow> transport_type \<Rightarrow> transport_type" where
  "resolve_transport u t =
     (if t = AUTO
      then (if url_starts_with ''ws://'' u \<or> url_starts_with ''wss://'' u then WEBSOCKET else TCP)
      else t)"

section \<open>What a validated configuration guarantees\<close>

lemma positive_finite_Num: "positive_finite x \<longleftrightarrow> (\<exists>a. x = Num a \<and> 0 < a)"
  by (cases x) (auto simp: positive_finite_def)

lemma check_service_name_ok:
  assumes "check_service_name (Some s) = None"
  shows "\<exists>bs. utf8_encode (strip s) = Inr bs \<and> length bs \<le> 128 \<and> strip s \<noteq> [] \<and>
    (\<forall>c\<in>set (strip s). \<not> is_control c)"
  using assms by (auto simp: check_service_name_def Let_def list_ex_iff split: sum.splits if_splits)

definition backoff_ok :: "pyfloat \<Rightarrow> pyfloat \<Rightarrow> bool" where
  "backoff_ok b m \<longleftrightarrow> (\<exists>x y. b = Num x \<and> m = Num y \<and> 0 < x \<and> x \<le> y)"

lemma check_config_ok:
  assumes "check_config c = None"
  shows "15 \<le> max_frame_size c" "1 \<le> max_in_flight (limits c)" "0 \<le> request_queue_size (limits c)"
    "1 \<le> async_handler_concurrency (limits c)" "0 \<le> async_handler_queue_size (limits c)"
    "1 \<le> subscription_buffer_size (limits c)" "1 \<le> rt_max_attempts (retry c)"
    "rc_max_attempts (reconnect c) = Some n \<Longrightarrow> 0 \<le> n"
    "backoff_ok (rc_backoff (reconnect c)) (rc_max_backoff (reconnect c))"
    "backoff_ok (rt_backoff (retry c)) (rt_max_backoff (retry c))"
    "check_service_name (service_name c) = None"
  using assms
  by (auto simp: check_config_def backoff_ok_def positive_finite_Num split: if_splits)

text \<open>The code rejects zero and negative timeouts, but NaN passes every comparison.\<close>

lemma config_accepts_nan:
  "check_config ((default_config (lit ''tcp://h''))\<lparr>request_timeout := NaN, auth_settle_timeout := NaN\<rparr>) = None"
  by (simp add: check_config_def default_config_def default_limits_def check_service_name_def
      positive_finite_def lit_def)

end
