(* ===== verification/Connection.thy ===== *)
theory Connection
  imports Config Mux Gate Extensions
begin

text \<open>
  \<open>connection.py\<close>: the connection's life cycle. The methods are functions on one record, split
  where the coroutines suspend; \<open>conn_step\<close> interleaves them. Transports, receive tasks and
  listeners are numbers, and \<open>c_gate_id\<close> counts the gates the connection has had. \<open>c_attempt\<close> holds the locals of the running
  \<open>_open_and_authenticate\<close>, \<open>c_loop\<close> those of \<open>_reconnect_loop\<close>. \<open>c_events\<close> and \<open>c_calls\<close>
  record the lifecycle events and the calls of listeners.
\<close>

unbundle bit_operations_syntax

section \<open>State\<close>

datatype conn_state =
  DISCONNECTED | CONNECTING | CONNECTED | AUTHENTICATING | AUTHENTICATED | RECONNECTING | CLOSED

text \<open>\<open>_auth_error\<close> while it is a future.\<close>

datatype auth_fut = Auth_pending | Auth_ok | Auth_failed exn

datatype at_phase = Dialing | Authing | Restoring

record attempt =
  at_transport :: nat
  at_receive :: "nat option"
  at_reconnect :: bool
  at_phase :: at_phase

text \<open>Where \<open>_reconnect_loop\<close> is: at its test, in its sleep, or inside an attempt.\<close>

datatype loop_pc = Top | Asleep | Trying

datatype call = On_disconnect nat | On_close nat | On_goaway int rat ustr

record conn =
  c_config :: config
  c_transport :: "nat option"
  c_frame_limit :: int
  c_state :: conn_state
  c_generation :: int
  c_mux :: mux
  c_receive :: "nat option"
  c_receive_done :: "nat list"
  c_closed :: bool
  c_ever_authenticated :: bool
  c_restoring :: bool
  c_auth :: "auth_fut option"
  c_max_message :: int
  c_max_in_flight :: int
  c_session :: int
  c_goaway :: "(int \<times> rat \<times> ustr) option"
  c_gate :: gate
  c_gate_id :: nat
  c_dispatcher_closed :: bool
  c_close_notified :: bool
  c_disconnect_listeners :: "nat list"
  c_close_listeners :: "nat list"
  c_attempt :: "attempt option"
  c_loop :: "(nat \<times> rat \<times> loop_pc) option"
  c_events :: "(string \<times> conn_state) list"
  c_calls :: "call list"
  c_fresh :: nat

definition config_gate :: "config \<Rightarrow> gate" where
  "config_gate g = new_gate (max_in_flight (limits g)) (request_queue_size (limits g))"

definition new_conn :: "config \<Rightarrow> conn" where
  "new_conn g = \<lparr>c_config = g, c_transport = None, c_frame_limit = max_frame_size g,
     c_state = DISCONNECTED, c_generation = 0, c_mux = new_mux, c_receive = None,
     c_receive_done = [], c_closed = False, c_ever_authenticated = False, c_restoring = False,
     c_auth = None, c_max_message = min (max_frame_size g) 1048576,
     c_max_in_flight = max_in_flight (limits g), c_session = 0, c_goaway = None,
     c_gate = config_gate g, c_gate_id = 0, c_dispatcher_closed = False, c_close_notified = False,
     c_disconnect_listeners = [], c_close_listeners = [], c_attempt = None, c_loop = None,
     c_events = [], c_calls = [], c_fresh = 0\<rparr>"

section \<open>Small methods\<close>

definition emit :: "string \<Rightarrow> conn \<Rightarrow> conn" where
  "emit event c = c\<lparr>c_events := c_events c @ [(event, c_state c)]\<rparr>"

definition set_state :: "conn_state \<Rightarrow> string \<Rightarrow> conn \<Rightarrow> conn" where
  "set_state s event c =
     (if c_closed c \<and> s \<noteq> CLOSED then c else emit event (c\<lparr>c_state := s\<rparr>))"

definition is_connected :: "conn \<Rightarrow> bool" where
  "is_connected c \<longleftrightarrow> c_state c = AUTHENTICATED"

definition ensure_authenticated :: "conn \<Rightarrow> exn option" where
  "ensure_authenticated c =
     (if c_closed c \<or> (c_state c \<noteq> AUTHENTICATED \<and> \<not> c_restoring c)
      then Some FitzConnectionError else None)"

definition one_way_needs_correlation :: "int \<Rightarrow> bytes \<Rightarrow> bool" where
  "one_way_needs_correlation mtype body =
     (if \<not> (MSG_RPC_SUBSCRIBE_WORKER \<le> mtype \<and> mtype \<le> MSG_RPC_LIFECYCLE) then False
      else if mtype = MSG_RPC_RESPONSE \<or> mtype = MSG_RPC_LIFECYCLE then False
      else if mtype = MSG_RPC_CANCELLATION then take 1 body = [1]
      else True)"

text \<open>The checks of \<open>_send_frame\<close> before the frame goes to the transport.\<close>

definition send_frame_check :: "bytes \<Rightarrow> conn \<Rightarrow> exn option" where
  "send_frame_check fr c =
     (if c_transport c = None then Some FitzConnectionError
      else if int (length fr) > c_max_message c then Some FitzTransportError
      else None)"

text \<open>\<open>send\<close> up to the transport: a one-way frame may use up a correlation id.\<close>

definition one_way_frame :: "int \<Rightarrow> bytes \<Rightarrow> conn \<Rightarrow> (exn + bytes) \<times> conn" where
  "one_way_frame mtype body c =
     (let (corr, m) = (if one_way_needs_correlation mtype body then next_correlation_id (c_mux c)
                       else (Inr 0, c_mux c));
          c = c\<lparr>c_mux := m\<rparr>
      in (bind_r corr (\<lambda>i. bind_r (encode_frame mtype body 0 i) (\<lambda>fr.
            case send_frame_check fr c of Some e \<Rightarrow> Inl e | None \<Rightarrow> Inr fr)), c))"

text \<open>\<open>_send_connect\<close>: the CONNECT frame for a token and the configured service name.\<close>

definition CLIENT_BUILD :: string where
  "CLIENT_BUILD = ''fitz-py/0.4.0''"

definition connect_frame :: "ustr \<Rightarrow> config \<Rightarrow> exn + bytes" where
  "connect_frame token g =
     bind_r (build_payload [U16 3, U16 3, U32 0, Str token,
         Str (strip (case service_name g of None \<Rightarrow> [] | Some s \<Rightarrow> s)), Str (lit CLIENT_BUILD)])
       (\<lambda>core. bind_r (encode_capabilities CLIENT_CAPABILITY_IDS) (\<lambda>caps.
        bind_r (encode_payload core [(1, caps)]) (\<lambda>body.
        encode_frame MSG_CONNECT body EXTENSIONS_PRESENT 0)))"

section \<open>Frames from the broker\<close>

text \<open>\<open>transport.set_max_frame_size\<close>\<close>

definition set_max_frame_size :: "int \<Rightarrow> conn \<Rightarrow> exn option \<times> conn" where
  "set_max_frame_size n c =
     (if c_transport c = None then (None, c)
      else if n < 15 then (Some PyValueError, c)
      else (None, c\<lparr>c_frame_limit := n\<rparr>))"

definition read_hello :: "bytes \<Rightarrow> exn + int \<times> int \<times> int \<times> int \<times> int" where
  "read_hello body =
     run_reader (rd_bind read_u16_be (\<lambda>version. rd_bind read_u32_be (\<lambda>caps.
       rd_bind read_u32_be (\<lambda>msg. rd_bind read_u32_be (\<lambda>flight.
       rd_bind read_u64_be (\<lambda>session. rd_return (version, caps, msg, flight, session))))))) body"

definition settle_auth :: "auth_fut \<Rightarrow> conn \<Rightarrow> conn" where
  "settle_auth f c = (if c_auth c = Some Auth_pending then c\<lparr>c_auth := Some f\<rparr> else c)"

definition handle_hello :: "frame \<Rightarrow> int list \<Rightarrow> conn \<Rightarrow> exn option \<times> conn" where
  "handle_hello f ids c =
     (if m_version (c_mux c) \<noteq> 0 then (Some (ProtocolError None), c)
      else if flags f \<noteq> EXTENSIONS_PRESENT \<or> correlation_id f \<noteq> 0 \<or> length (payload f) \<noteq> 22
        then (Some FitzConnectionError, c)
      else case read_hello (payload f) of
        Inl e \<Rightarrow> (Some e, c)
      | Inr (version, caps, msg, flight, session) \<Rightarrow>
          let c = c\<lparr>c_session := session\<rparr>
          in if version \<noteq> 3 \<or> caps \<noteq> 0 \<or> msg < 15 \<or> flight < 1 then (Some FitzConnectionError, c)
             else
               let g = c_config c;
                   c = c\<lparr>c_max_message := min msg (min (max_frame_size g) 1048576),
                         c_max_in_flight := min flight (max_in_flight (limits g))\<rparr>;
                   (err, c) = set_max_frame_size (c_max_message c) c
               in if err \<noteq> None then (err, c)
                  else (None, settle_auth Auth_ok
                    (c\<lparr>c_mux := (set_capabilities version caps (c_mux c))
                          \<lparr>m_capability_ids := filter (\<lambda>v. v \<in> set CLIENT_CAPABILITY_IDS) ids\<rparr>,
                       c_gate := new_gate (c_max_in_flight c) (request_queue_size (limits g)),
                       c_gate_id := Suc (c_gate_id c)\<rparr>)))"

definition handle_rejected :: "frame \<Rightarrow> exn" where
  "handle_rejected f =
     (case run_reader (rd_bind read_u16_be (\<lambda>code. rd_bind read_string (\<lambda>message.
             rd_bind (rd_get is_eof) (\<lambda>eof. rd_return (code, message, eof))))) (payload f) of
        Inl e \<Rightarrow> e
      | Inr (code, message, eof) \<Rightarrow>
          if \<not> eof \<or> flags f AND NOT EXTENSIONS_PRESENT \<noteq> 0 \<or> correlation_id f \<noteq> 0
            then FitzConnectionError
          else if code = 50 then ProtocolError (Some code)
          else AuthenticationError (Some code))"

definition handle_goaway :: "frame \<Rightarrow> conn \<Rightarrow> exn option \<times> conn" where
  "handle_goaway f c =
     (case run_reader (rd_bind read_u16_be (\<lambda>code. rd_bind read_u32_be (\<lambda>grace.
             rd_bind read_string (\<lambda>reason. rd_bind (rd_get is_eof) (\<lambda>eof.
               rd_return (code, grace, reason, eof)))))) (payload f) of
        Inl e \<Rightarrow> (Some e, c)
      | Inr (code, grace, reason, eof) \<Rightarrow>
          if \<not> eof \<or> flags f AND NOT EXTENSIONS_PRESENT \<noteq> 0 \<or> correlation_id f \<noteq> 0
            then (Some FitzConnectionError, c)
          else (None, c\<lparr>c_goaway := Some (code, of_int grace / 1000, reason),
                  c_calls := c_calls c @ [On_goaway code (of_int grace / 1000) reason]\<rparr>))"

definition dispatch_transport_frame :: "bytes \<Rightarrow> conn \<Rightarrow> exn option \<times> conn" where
  "dispatch_transport_frame data c =
     (if int (length data) > c_max_message c then (Some FitzConnectionError, c)
      else case parse_frames data of
        Inl e \<Rightarrow> (Some e, c)
      | Inr [] \<Rightarrow> (None, c)
      | Inr (f # _) \<Rightarrow>
          (case (if flags f AND EXTENSIONS_PRESENT \<noteq> 0 \<or> message_type f = MSG_HELLO
                 then decode_payload (payload f) (message_type f) (flags f)
                 else Inr (payload f, [])) of
             Inl e \<Rightarrow> (Some e, c)
           | Inr (body, ids) \<Rightarrow>
               let f = f\<lparr>payload := body\<rparr>
               in if message_type f = MSG_HELLO then handle_hello f ids c
                  else if message_type f = MSG_CONNECT_REJECTED then (Some (handle_rejected f), c)
                  else if message_type f = MSG_GOAWAY then handle_goaway f c
                  else if correlation_id f = 0
                    then (None, c\<lparr>c_mux := mux_dispatch (message_type f) (payload f) (c_mux c)\<rparr>)
                  else let (e, m) = dispatch_correlated (correlation_id f) (message_type f) (payload f)
                             (flags f AND RESPONSE_FINAL \<noteq> 0) (c_mux c)
                       in (e, c\<lparr>c_mux := m\<rparr>)))"

section \<open>Listeners\<close>

text \<open>A failing listener is reported and skipped; a cancellation stops the loop.\<close>

fun run_listeners :: "(nat \<Rightarrow> call) \<Rightarrow> (nat \<Rightarrow> exn option) \<Rightarrow> nat list \<Rightarrow> conn \<Rightarrow> exn option \<times> conn" where
  "run_listeners mk outcome [] c = (None, c)"
| "run_listeners mk outcome (l # ls) c =
     (let c = c\<lparr>c_calls := c_calls c @ [mk l]\<rparr>
      in if outcome l = Some CancelledError then (Some CancelledError, c)
         else run_listeners mk outcome ls c)"

definition notify_disconnect :: "(nat \<Rightarrow> exn option) \<Rightarrow> conn \<Rightarrow> exn option \<times> conn" where
  "notify_disconnect outcome c = run_listeners On_disconnect outcome (c_disconnect_listeners c) c"

definition notify_close :: "(nat \<Rightarrow> exn option) \<Rightarrow> conn \<Rightarrow> exn option \<times> conn" where
  "notify_close outcome c =
     (if c_close_notified c then (None, c)
      else run_listeners On_close outcome (c_close_listeners c) (c\<lparr>c_close_notified := True\<rparr>))"

section \<open>Opening\<close>

text \<open>\<open>_open_and_authenticate\<close>, up to \<open>transport.connect()\<close>.\<close>

definition open_begin :: "bool \<Rightarrow> conn \<Rightarrow> exn option \<times> conn" where
  "open_begin again c =
     (if c_closed c then (Some FitzConnectionError, c)
      else let t = c_fresh c
           in (None,
               set_state (if again then RECONNECTING else CONNECTING)
                 (if again then ''reconnecting'' else ''connecting'')
                 (c\<lparr>c_gate := config_gate (c_config c), c_gate_id := Suc (c_gate_id c), c_transport := Some t,
                    c_frame_limit := max_frame_size (c_config c), c_fresh := Suc t,
                    c_attempt := Some \<lparr>at_transport = t, at_receive = None, at_reconnect = again,
                      at_phase = Dialing\<rparr>\<rparr>)))"

text \<open>The transport is up: the receive task starts and CONNECT is sent.\<close>

definition open_dialed :: "attempt \<Rightarrow> conn \<Rightarrow> conn" where
  "open_dialed a c =
     (let c = set_state AUTHENTICATING ''authenticating'' (set_state CONNECTED ''connected'' c);
          r = c_fresh c
      in c\<lparr>c_auth := Some Auth_pending, c_receive := Some r, c_fresh := Suc r,
           c_attempt := Some (a\<lparr>at_receive := Some r, at_phase := Authing\<rparr>)\<rparr>)"

definition assert_transport_owner :: "attempt \<Rightarrow> conn \<Rightarrow> exn option" where
  "assert_transport_owner a c =
     (if c_closed c \<or> c_transport c \<noteq> Some (at_transport a) \<or> c_receive c \<noteq> at_receive a \<or>
         (case at_receive a of None \<Rightarrow> False | Some r \<Rightarrow> r \<in> set (c_receive_done c)) \<or>
         c_state c = DISCONNECTED
      then Some FitzConnectionError else None)"

fun finite_value :: "pyfloat \<Rightarrow> rat" where
  "finite_value (Num x) = x"
| "finite_value _ = 0"

definition is_auth_error :: "exn \<Rightarrow> bool" where
  "is_auth_error e = (case e of AuthenticationError _ \<Rightarrow> True | _ \<Rightarrow> False)"

text \<open>How the reconnect loop goes on after an attempt.\<close>

definition loop_failed :: "exn \<Rightarrow> (nat \<Rightarrow> exn option) \<Rightarrow> conn \<Rightarrow> conn" where
  "loop_failed e outcome c =
     (case c_loop c of
        None \<Rightarrow> c
      | Some (n, delay, pc) \<Rightarrow>
          if e = CancelledError then c\<lparr>c_loop := None\<rparr>
          else if is_auth_error e
            then set_state CLOSED ''auth_rejected'' (c\<lparr>c_closed := True, c_loop := None\<rparr>)
          else let c = emit ''reconnect_failed'' c
               in if e = ProtocolError (Some 50)
                  then snd (notify_close outcome
                    (set_state DISCONNECTED ''reconnect_exhausted'' (c\<lparr>c_loop := None\<rparr>)))
                  else c\<lparr>c_loop := Some (n, min (delay * 2)
                    (finite_value (rc_max_backoff (reconnect (c_config c)))), Top)\<rparr>)"

text \<open>The handler around the whole attempt.\<close>

definition open_failed :: "exn \<Rightarrow> (nat \<Rightarrow> exn option) \<Rightarrow> attempt \<Rightarrow> conn \<Rightarrow> conn" where
  "open_failed e outcome a c =
     (let c = c\<lparr>c_restoring := (if at_phase a = Restoring then False else c_restoring c),
                c_mux := set_disconnected (c_mux c),
                c_transport := (if c_transport c = Some (at_transport a) then None else c_transport c),
                c_receive_done := (case at_receive a of None \<Rightarrow> c_receive_done c
                                   | Some r \<Rightarrow> r # c_receive_done c),
                c_attempt := None\<rparr>;
          c = (if is_auth_error e
               then set_state CLOSED ''auth_rejected''
                 (c\<lparr>c_closed := True, c_gate := gate_close (c_gate c), c_dispatcher_closed := True\<rparr>)
               else if \<not> c_closed c then set_state DISCONNECTED ''connect_failed'' c
               else c)
      in if at_reconnect a then loop_failed e outcome c else c)"

definition open_finish :: "(nat \<Rightarrow> exn option) \<Rightarrow> attempt \<Rightarrow> conn \<Rightarrow> conn" where
  "open_finish outcome a c =
     (let c = c\<lparr>c_restoring := False\<rparr>
      in case assert_transport_owner a c of
           Some e \<Rightarrow> open_failed e outcome a c
         | None \<Rightarrow>
             set_state AUTHENTICATED ''authenticated''
               (c\<lparr>c_ever_authenticated := True, c_attempt := None,
                  c_loop := (if at_reconnect a then None else c_loop c)\<rparr>))"

text \<open>HELLO has arrived; a reconnect restores the registrations before it finishes.\<close>

definition open_authenticated :: "(nat \<Rightarrow> exn option) \<Rightarrow> attempt \<Rightarrow> conn \<Rightarrow> conn" where
  "open_authenticated outcome a c =
     (let c = c\<lparr>c_auth := None\<rparr>
      in case assert_transport_owner a c of
           Some e \<Rightarrow> open_failed e outcome a c
         | None \<Rightarrow>
             let c = c\<lparr>c_generation := c_generation c + 1, c_mux := set_connected (c_mux c)\<rparr>
             in if at_reconnect a
                then c\<lparr>c_restoring := True, c_attempt := Some (a\<lparr>at_phase := Restoring\<rparr>)\<rparr>
                else open_finish outcome a c)"

section \<open>Losing the connection and reconnecting\<close>

definition connection_lost :: "(nat \<Rightarrow> exn option) \<Rightarrow> conn \<Rightarrow> conn" where
  "connection_lost outcome c =
     (if c_state c \<in> {DISCONNECTED, RECONNECTING, CLOSED} then c
      else
        let c = set_state DISCONNECTED ''disconnected''
                  (c\<lparr>c_mux := set_disconnected (c_mux c), c_gate := gate_close (c_gate c)\<rparr>);
            c = c\<lparr>c_transport := None,
                  c_receive_done := (case c_receive c of None \<Rightarrow> c_receive_done c
                                     | Some r \<Rightarrow> r # c_receive_done c)\<rparr>;
            (e, c) = notify_disconnect outcome c
        in if e \<noteq> None then c
           else if \<not> c_ever_authenticated c \<or> \<not> rc_enabled (reconnect (c_config c)) \<or> c_closed c then c
           else if c_loop c = None
             then c\<lparr>c_loop := Some (0, finite_value (rc_backoff (reconnect (c_config c))), Top)\<rparr>
           else c)"

text \<open>The handler of \<open>_receive_loop\<close> when a frame or the transport raised \<open>e\<close>.\<close>

definition receive_failed :: "exn \<Rightarrow> (nat \<Rightarrow> exn option) \<Rightarrow> conn \<Rightarrow> conn" where
  "receive_failed e outcome c =
     (let done = (case c_receive c of None \<Rightarrow> c_receive_done c | Some r \<Rightarrow> r # c_receive_done c)
      in if c_state c = AUTHENTICATING \<and> c_auth c \<noteq> None
         then settle_auth (Auth_failed e) (c\<lparr>c_receive_done := done\<rparr>)
         else (connection_lost outcome c)\<lparr>c_receive_done := done\<rparr>)"

definition loop_top :: "(nat \<Rightarrow> exn option) \<Rightarrow> conn \<Rightarrow> conn" where
  "loop_top outcome c =
     (case c_loop c of
        None \<Rightarrow> c
      | Some (n, delay, pc) \<Rightarrow>
          if \<not> c_closed c \<and>
             (case rc_max_attempts (reconnect (c_config c)) of None \<Rightarrow> True | Some m \<Rightarrow> int n < m)
          then set_state RECONNECTING ''reconnect_attempt'' (c\<lparr>c_loop := Some (Suc n, delay, Asleep)\<rparr>)
          else if \<not> c_closed c
            then snd (notify_close outcome
              (set_state DISCONNECTED ''reconnect_exhausted'' (c\<lparr>c_loop := None\<rparr>)))
          else c\<lparr>c_loop := None\<rparr>)"

text \<open>The sleep is over; a closed connection fails at once.\<close>

definition loop_wakes :: "(nat \<Rightarrow> exn option) \<Rightarrow> conn \<Rightarrow> conn" where
  "loop_wakes outcome c =
     (case c_loop c of
        None \<Rightarrow> c
      | Some (n, delay, pc) \<Rightarrow>
          (case open_begin True c of
             (None, c) \<Rightarrow> c\<lparr>c_loop := Some (n, delay, Trying)\<rparr>
           | (Some e, c) \<Rightarrow> loop_failed e outcome c))"

section \<open>Closing\<close>

text \<open>
  \<open>_close\<close>. The cancelled attempt and loop find the connection closed, so their handlers
  change nothing that is not reset here.
\<close>

definition close_connection :: "(nat \<Rightarrow> exn option) \<Rightarrow> conn \<Rightarrow> exn option \<times> conn" where
  "close_connection outcome c =
     (if c_closed c then (None, c)
      else
        let c = set_state CLOSED ''closed'' (c\<lparr>c_closed := True\<rparr>);
            c = c\<lparr>c_gate := gate_close (c_gate c), c_mux := set_disconnected (c_mux c)\<rparr>;
            (e, c) = notify_disconnect outcome c
        in if e \<noteq> None then (e, c)
           else
             let (e, c) = notify_close outcome c
             in if e \<noteq> None then (e, c)
                else (None, c\<lparr>c_transport := None, c_attempt := None, c_loop := None, c_restoring := False,
                        c_receive_done := (case c_receive c of None \<Rightarrow> c_receive_done c
                                           | Some r \<Rightarrow> r # c_receive_done c),
                        c_dispatcher_closed := True\<rparr>))"

text \<open>What \<open>connect\<close> does before it waits.\<close>

datatype choice = Refuse exn | Already | Join_reconnect | Join_connect | Start_connect

definition connect_choice :: "conn \<Rightarrow> choice" where
  "connect_choice c =
     (if c_closed c then Refuse FitzConnectionError
      else if is_connected c then Already
      else if c_loop c \<noteq> None then Join_reconnect
      else if c_attempt c = None then Start_connect
      else Join_connect)"

section \<open>Interleavings\<close>

text \<open>
  One step of the event loop. \<open>traffic\<close> stands for requests, responses and pushes: they change
  the multiplexer and the gate without touching the session.
\<close>

inductive conn_step :: "conn \<Rightarrow> conn \<Rightarrow> bool" where
  listen_disconnect: "conn_step c (c\<lparr>c_disconnect_listeners := ls\<rparr>)"
| listen_close: "conn_step c (c\<lparr>c_close_listeners := ls\<rparr>)"
| start: "connect_choice c = Start_connect \<Longrightarrow> conn_step c (snd (open_begin False c))"
| dialed: "c_attempt c = Some a \<Longrightarrow> at_phase a = Dialing \<Longrightarrow> conn_step c (open_dialed a c)"
| frame: "c_transport c \<noteq> None \<Longrightarrow> c_receive c = Some r \<Longrightarrow> r \<notin> set (c_receive_done c) \<Longrightarrow>
    \<not> c_closed c \<Longrightarrow> dispatch_transport_frame data c = (None, c') \<Longrightarrow> conn_step c c'"
| bad_frame: "c_transport c \<noteq> None \<Longrightarrow> c_receive c = Some r \<Longrightarrow> r \<notin> set (c_receive_done c) \<Longrightarrow>
    \<not> c_closed c \<Longrightarrow> dispatch_transport_frame data c = (Some e, c') \<Longrightarrow>
    conn_step c (receive_failed e outcome c')"
| receive_error: "c_receive c = Some r \<Longrightarrow> r \<notin> set (c_receive_done c) \<Longrightarrow> \<not> c_closed c \<Longrightarrow>
    conn_step c (receive_failed e outcome c)"
| authenticated: "c_attempt c = Some a \<Longrightarrow> at_phase a = Authing \<Longrightarrow> c_auth c = Some Auth_ok \<Longrightarrow>
    conn_step c (open_authenticated outcome a c)"
| finished: "c_attempt c = Some a \<Longrightarrow> at_phase a = Restoring \<Longrightarrow> conn_step c (open_finish outcome a c)"
| failed: "c_attempt c = Some a \<Longrightarrow> conn_step c (open_failed e outcome a c)"
| lost: "conn_step c (connection_lost outcome c)"
| looped: "c_loop c = Some (n, d, Top) \<Longrightarrow> conn_step c (loop_top outcome c)"
| woke: "c_loop c = Some (n, d, Asleep) \<Longrightarrow> c_attempt c = None \<Longrightarrow> conn_step c (loop_wakes outcome c)"
| traffic: "m_version m = m_version (c_mux c) \<Longrightarrow> m_connected m = m_connected (c_mux c) \<Longrightarrow>
    maximum g = maximum (c_gate c) \<Longrightarrow> closed g = closed (c_gate c) \<Longrightarrow>
    conn_step c (c\<lparr>c_mux := m, c_gate := g\<rparr>)"
| closing: "conn_step c (snd (close_connection outcome c))"

inductive conn_reach :: "config \<Rightarrow> conn \<Rightarrow> bool" for g where
  start: "conn_reach g (new_conn g)"
| step: "conn_reach g c \<Longrightarrow> conn_step c c' \<Longrightarrow> conn_reach g c'"

section \<open>The invariant\<close>

definition negotiated :: "conn \<Rightarrow> bool" where
  "negotiated c \<longleftrightarrow>
     m_version (c_mux c) = 3 \<and>
     15 \<le> c_max_message c \<and> c_max_message c \<le> min (max_frame_size (c_config c)) 1048576 \<and>
     1 \<le> c_max_in_flight c \<and> c_max_in_flight c \<le> max_in_flight (limits (c_config c)) \<and>
     maximum (c_gate c) = c_max_in_flight c \<and> \<not> closed (c_gate c)"

definition states_of :: "at_phase \<Rightarrow> conn_state set" where
  "states_of p = (if p = Dialing then {CONNECTING, RECONNECTING} else {AUTHENTICATING})"

text \<open>The transport of the running attempt is still the connection's.\<close>

definition owns :: "attempt \<Rightarrow> conn \<Rightarrow> bool" where
  "owns a c \<longleftrightarrow> c_attempt c = Some a \<and> c_transport c = Some (at_transport a) \<and> \<not> c_closed c"

definition conn_inv :: "config \<Rightarrow> conn \<Rightarrow> bool" where
  "conn_inv g c \<longleftrightarrow>
     c_config c = g \<and> (c_closed c \<longleftrightarrow> c_state c = CLOSED) \<and>
     (c_attempt c \<noteq> None \<longrightarrow> c_state c \<noteq> AUTHENTICATED) \<and>
     (\<forall>a. owns a c \<longrightarrow> c_state c \<in> states_of (at_phase a)) \<and>
     (\<forall>n d pc a. c_loop c = Some (n, d, pc) \<and> pc \<noteq> Trying \<longrightarrow> \<not> owns a c) \<and>
     (c_state c = AUTHENTICATED \<longrightarrow>
        negotiated c \<and> c_transport c \<noteq> None \<and> m_connected (c_mux c) \<and> c_ever_authenticated c \<and>
        (\<forall>n d pc. c_loop c = Some (n, d, pc) \<longrightarrow> pc = Trying)) \<and>
     (c_state c = AUTHENTICATING \<and> c_auth c = Some Auth_ok \<longrightarrow> negotiated c) \<and>
     (\<forall>a. owns a c \<and> at_phase a = Restoring \<longrightarrow>
        negotiated c \<and> m_connected (c_mux c) \<and> c_auth c = None)"

lemma conn_inv_new: "conn_inv g (new_conn g)"
  by (simp add: conn_inv_def new_conn_def owns_def)

text \<open>A down connection satisfies the invariant whatever else it holds.\<close>

definition conn_down :: "config \<Rightarrow> conn \<Rightarrow> bool" where
  "conn_down g c \<longleftrightarrow>
     c_config c = g \<and> (c_closed c \<longleftrightarrow> c_state c = CLOSED) \<and>
     c_state c \<in> {DISCONNECTED, CLOSED} \<and> (\<forall>a. \<not> owns a c)"

lemma conn_inv_down: "conn_down g c \<Longrightarrow> conn_inv g c"
  by (auto simp: conn_down_def conn_inv_def)

fun heard :: "(nat \<Rightarrow> exn option) \<Rightarrow> nat list \<Rightarrow> nat list" where
  "heard outcome [] = []"
| "heard outcome (l # ls) =
     (if outcome l = Some CancelledError then [l] else l # heard outcome ls)"

lemma run_listeners_eq:
  "run_listeners mk outcome ls c =
     (if \<exists>l\<in>set ls. outcome l = Some CancelledError then Some CancelledError else None,
      c\<lparr>c_calls := c_calls c @ map mk (heard outcome ls)\<rparr>)"
  by (induction ls arbitrary: c) (simp_all add: Let_def)

lemmas listener_simps = notify_disconnect_def notify_close_def run_listeners_eq

lemma conn_down_set_state: "conn_down g c \<Longrightarrow> conn_down g (set_state DISCONNECTED ev c)"
  by (auto simp: conn_down_def owns_def set_state_def emit_def)

lemma conn_down_notify: "conn_down g c \<Longrightarrow> conn_down g (snd (notify_close outcome c))"
  by (auto simp: conn_down_def owns_def listener_simps)

lemma conn_down_emit: "conn_down g c \<Longrightarrow> conn_down g (emit ev c)"
  by (auto simp: conn_down_def owns_def emit_def)

lemma conn_down_loop: "conn_down g c \<Longrightarrow> conn_down g (c\<lparr>c_loop := l\<rparr>)"
  by (auto simp: conn_down_def owns_def)

lemma conn_down_rejected:
  "conn_down g c \<Longrightarrow> conn_down g (set_state CLOSED ev (c\<lparr>c_closed := True, c_loop := l\<rparr>))"
  by (simp add: conn_down_def owns_def set_state_def emit_def)

lemmas conn_down_intros = conn_down_set_state conn_down_notify conn_down_emit conn_down_loop
  conn_down_rejected

lemma conn_down_loop_failed: "conn_down g c \<Longrightarrow> conn_down g (loop_failed e outcome c)"
  by (auto simp: loop_failed_def Let_def intro!: conn_down_intros split: option.split)

lemma conn_down_open_failed:
  assumes "c_config c = g" "c_closed c \<longleftrightarrow> c_state c = CLOSED"
  shows "conn_down g (open_failed e outcome a c)"
proof -
  let ?c = "c\<lparr>c_restoring := (if at_phase a = Restoring then False else c_restoring c),
                c_mux := set_disconnected (c_mux c),
                c_transport := (if c_transport c = Some (at_transport a) then None else c_transport c),
                c_receive_done := (case at_receive a of None \<Rightarrow> c_receive_done c
                                   | Some r \<Rightarrow> r # c_receive_done c),
                c_attempt := None\<rparr>"
  let ?d = "if is_auth_error e
      then set_state CLOSED ''auth_rejected''
        (?c\<lparr>c_closed := True, c_gate := gate_close (c_gate ?c), c_dispatcher_closed := True\<rparr>)
      else if \<not> c_closed ?c then set_state DISCONNECTED ''connect_failed'' ?c else ?c"
  have "conn_down g ?d" using assms by (simp add: conn_down_def owns_def set_state_def emit_def)
  then show ?thesis unfolding open_failed_def Let_def by (simp add: conn_down_loop_failed)
qed

lemma conn_inv_basic:
  assumes "conn_inv g c"
  shows "c_config c = g" "c_closed c \<longleftrightarrow> c_state c = CLOSED"
  using assms by (simp_all add: conn_inv_def)

lemma conn_inv_lost:
  assumes inv: "conn_inv g c"
  shows "conn_inv g (connection_lost outcome c)"
proof (cases "c_state c \<in> {DISCONNECTED, RECONNECTING, CLOSED}")
  case True
  then show ?thesis using inv by (simp add: connection_lost_def)
next
  case False
  then have "\<not> c_closed c" using conn_inv_basic [OF inv] by blast
  then have "conn_down g (connection_lost outcome c)"
    using False conn_inv_basic [OF inv]
    by (simp add: connection_lost_def Let_def listener_simps conn_down_def owns_def set_state_def emit_def)
  then show ?thesis by (rule conn_inv_down)
qed

text \<open>Fields the invariant does not read.\<close>

lemma conn_inv_cong:
  assumes "conn_inv g c" "c_config c' = c_config c" "c_closed c' = c_closed c" "c_state c' = c_state c"
    "c_attempt c' = c_attempt c" "c_transport c' = c_transport c" "c_loop c' = c_loop c"
    "m_version (c_mux c') = m_version (c_mux c)" "m_connected (c_mux c') = m_connected (c_mux c)"
    "c_max_message c' = c_max_message c" "c_max_in_flight c' = c_max_in_flight c"
    "maximum (c_gate c') = maximum (c_gate c)" "closed (c_gate c') = closed (c_gate c)"
    "c_ever_authenticated c' = c_ever_authenticated c" "c_auth c' = c_auth c"
  shows "conn_inv g c'"
proof -
  have n: "negotiated c' = negotiated c" using assms(2-) by (simp add: negotiated_def)
  have o: "owns a c' = owns a c" for a using assms(2-) by (simp add: owns_def)
  show ?thesis using assms(1) unfolding conn_inv_def n o assms(2-9) assms(14) assms(15) .
qed

lemma conn_inv_auth_failed:
  assumes inv: "conn_inv g c"
  shows "conn_inv g (settle_auth (Auth_failed e) (c\<lparr>c_receive_done := ds\<rparr>))"
proof (cases "c_auth c = Some Auth_pending")
  case True
  let ?c = "settle_auth (Auth_failed e) (c\<lparr>c_receive_done := ds\<rparr>)"
  have rest: "negotiated ?c = negotiated c" "\<And>a. owns a ?c = owns a c" "c_auth ?c = Some (Auth_failed e)"
    using True by (simp_all add: settle_auth_def negotiated_def owns_def)
  have none: "\<forall>a. owns a c \<longrightarrow> at_phase a \<noteq> Restoring"
    using inv True unfolding conn_inv_def by auto
  have same: "c_config ?c = c_config c" "c_closed ?c = c_closed c" "c_state ?c = c_state c"
    "c_attempt ?c = c_attempt c" "c_transport ?c = c_transport c" "c_loop ?c = c_loop c"
    "c_mux ?c = c_mux c" "c_ever_authenticated ?c = c_ever_authenticated c"
    by (simp_all add: settle_auth_def)
  show ?thesis using inv none unfolding conn_inv_def rest same by blast
next
  case False
  then show ?thesis
    by (intro conn_inv_cong [OF inv]) (simp_all add: settle_auth_def)
qed

lemma conn_inv_receive_failed:
  assumes inv: "conn_inv g c"
  shows "conn_inv g (receive_failed e outcome c)"
  using conn_inv_auth_failed [OF inv] conn_inv_cong [OF conn_inv_lost [OF inv, of outcome]]
  by (simp add: receive_failed_def Let_def)

lemma conn_inv_failed: "conn_inv g c \<Longrightarrow> conn_inv g (open_failed e outcome a c)"
  by (intro conn_inv_down conn_down_open_failed) (simp_all add: conn_inv_def)

lemma conn_inv_start:
  assumes inv: "conn_inv g c" and choice: "connect_choice c = Start_connect"
  shows "conn_inv g (snd (open_begin False c))"
proof -
  have "\<not> c_closed c" "c_attempt c = None" "c_loop c = None" "c_state c \<noteq> AUTHENTICATED"
    using choice by (auto simp: connect_choice_def is_connected_def
        simp del: not_None_eq split_paired_All split_paired_Ex split: if_splits)
  then show ?thesis using conn_inv_basic [OF inv]
    by (simp add: open_begin_def Let_def set_state_def emit_def conn_inv_def owns_def states_of_def)
qed

lemma conn_inv_dialed:
  assumes inv: "conn_inv g c" and a: "c_attempt c = Some a" "at_phase a = Dialing"
  shows "conn_inv g (open_dialed a c)"
proof (cases "c_closed c")
  case True
  then show ?thesis using conn_inv_basic [OF inv]
    by (simp add: open_dialed_def Let_def set_state_def emit_def conn_inv_def owns_def)
next
  case False
  have "\<forall>n d pc. c_loop c = Some (n, d, pc) \<and> pc \<noteq> Trying \<longrightarrow> \<not> owns a c"
    using inv unfolding conn_inv_def by blast
  then show ?thesis using conn_inv_basic [OF inv] False a
    by (simp add: open_dialed_def Let_def set_state_def emit_def conn_inv_def owns_def states_of_def)
qed

lemma conn_inv_finish:
  assumes c: "c_config c = g" "c_closed c \<longleftrightarrow> c_state c = CLOSED"
    and ok: "owns a c \<Longrightarrow> negotiated c \<and> m_connected (c_mux c) \<and>
      (\<forall>n d pc. c_loop c = Some (n, d, pc) \<longrightarrow> pc = Trying)"
    and a: "c_attempt c = Some a"
  shows "conn_inv g (open_finish outcome a c)"
proof -
  let ?c = "c\<lparr>c_restoring := False\<rparr>"
  show ?thesis
  proof (cases "assert_transport_owner a ?c")
    case (Some e)
    have "conn_down g (open_failed e outcome a ?c)"
      by (rule conn_down_open_failed) (simp_all add: c)
    then show ?thesis using Some by (simp add: open_finish_def conn_inv_down)
  next
    case None
    then have "owns a c" using a by (auto simp: assert_transport_owner_def owns_def split: if_splits)
    then show ?thesis using None ok c
      by (auto simp: open_finish_def Let_def set_state_def emit_def conn_inv_def negotiated_def owns_def)
  qed
qed

lemma conn_inv_finished:
  assumes inv: "conn_inv g c" and a: "c_attempt c = Some a" "at_phase a = Restoring"
  shows "conn_inv g (open_finish outcome a c)"
proof (rule conn_inv_finish)
  show "owns a c \<Longrightarrow> negotiated c \<and> m_connected (c_mux c) \<and>
      (\<forall>n d pc. c_loop c = Some (n, d, pc) \<longrightarrow> pc = Trying)"
    using inv a(2) unfolding conn_inv_def by blast
qed (use inv a in \<open>simp_all add: conn_inv_def\<close>)

lemma conn_inv_authenticated:
  assumes inv: "conn_inv g c" and a: "c_attempt c = Some a" "at_phase a = Authing"
    and auth: "c_auth c = Some Auth_ok"
  shows "conn_inv g (open_authenticated outcome a c)"
proof -
  let ?c = "c\<lparr>c_auth := None\<rparr>"
  let ?d = "?c\<lparr>c_generation := c_generation c + 1, c_mux := set_connected (c_mux c)\<rparr>"
  show ?thesis
  proof (cases "assert_transport_owner a ?c")
    case (Some e)
    have "conn_down g (open_failed e outcome a ?c)"
      by (rule conn_down_open_failed) (use inv in \<open>simp_all add: conn_inv_def\<close>)
    then show ?thesis using Some by (simp add: open_authenticated_def conn_inv_down)
  next
    case None
    then have own: "owns a c" using a by (auto simp: assert_transport_owner_def owns_def split: if_splits)
    then have st: "c_state c = AUTHENTICATING"
      using inv a(2) unfolding conn_inv_def states_of_def by auto
    then have neg: "negotiated c" using inv auth unfolding conn_inv_def by blast
    have loop: "\<forall>n d pc. c_loop c = Some (n, d, pc) \<longrightarrow> pc = Trying"
      using inv own unfolding conn_inv_def by blast
    have base: "c_config c = g" "\<not> c_closed c" using inv own by (auto simp: conn_inv_def owns_def)
    show ?thesis
    proof (cases "at_reconnect a")
      case True
      have "conn_inv g (?d\<lparr>c_restoring := True, c_attempt := Some (a\<lparr>at_phase := Restoring\<rparr>)\<rparr>)"
        unfolding conn_inv_def
        using base st neg loop
        by (auto simp: states_of_def negotiated_def set_connected_def owns_def)
      then show ?thesis using None True by (simp add: open_authenticated_def Let_def)
    next
      case False
      have "conn_inv g (open_finish outcome a ?d)"
        by (rule conn_inv_finish)
          (use base st neg loop a in \<open>auto simp: negotiated_def set_connected_def\<close>)
      then show ?thesis using None False by (simp add: open_authenticated_def Let_def)
    qed
  qed
qed

text \<open>Frames: only a HELLO touches the session, and only before one is negotiated.\<close>

lemma mux_dispatch_session [simp]:
  "m_version (mux_dispatch mt b m) = m_version m" "m_connected (mux_dispatch mt b m) = m_connected m"
  by (simp_all add: mux_dispatch_def dispatch_lane_def dispatch_push_rest report_error_def
      split: option.split sum.split bool.split list.split)

lemma dispatch_correlated_session [simp]:
  "m_version (snd (dispatch_correlated i mt b fin m)) = m_version m"
  "m_connected (snd (dispatch_correlated i mt b fin m)) = m_connected m"
  by (simp_all add: dispatch_correlated_def split: option.split)

definition hello_effect :: "conn \<Rightarrow> conn \<Rightarrow> bool" where
  "hello_effect c c' \<longleftrightarrow>
     m_version (c_mux c) = 0 \<and> c_config c' = c_config c \<and> c_closed c' = c_closed c \<and>
     c_state c' = c_state c \<and> c_attempt c' = c_attempt c \<and> c_transport c' = c_transport c \<and>
     c_loop c' = c_loop c \<and> c_ever_authenticated c' = c_ever_authenticated c \<and>
     (c_auth c' = c_auth c \<or> c_auth c' = Some Auth_ok \<and> negotiated c')"

lemma conn_inv_hello:
  assumes inv: "conn_inv g c" and e: "hello_effect c c'"
  shows "conn_inv g c'"
proof -
  have "\<not> negotiated c" using e by (simp add: hello_effect_def negotiated_def)
  moreover have "owns a c' = owns a c" for a using e by (simp add: owns_def hello_effect_def)
  ultimately show ?thesis using inv e unfolding conn_inv_def hello_effect_def
    by (auto simp del: not_None_eq split_paired_All split_paired_Ex)
qed

lemma read_hello_range:
  assumes "read_hello body = Inr (version, caps, msg, flight, session)"
  shows "0 \<le> version" "0 \<le> msg" "msg < 4294967296" "0 \<le> flight" "0 \<le> session"
  using assms
  by (auto simp: read_hello_def run_reader_Inr_iff rd_bind_Inr_iff dest!: read_range)

lemma handle_hello_effect:
  assumes cfg: "check_config (c_config c) = None" and h: "handle_hello f ids c = (e, c')"
  shows "c' = c \<or> hello_effect c c'"
proof (cases "m_version (c_mux c) \<noteq> 0 \<or> flags f \<noteq> EXTENSIONS_PRESENT \<or> correlation_id f \<noteq> 0 \<or>
    length (payload f) \<noteq> 22")
  case True
  then show ?thesis using h by (auto simp: handle_hello_def split: if_splits)
next
  case v0: False
  show ?thesis
  proof (cases "read_hello (payload f)")
    case (Inl x)
    then show ?thesis using h v0 by (simp add: handle_hello_def)
  next
    case (Inr t)
    obtain version caps msg flight session where t: "t = (version, caps, msg, flight, session)"
      by (cases t)
    show ?thesis
    proof (cases "version \<noteq> 3 \<or> caps \<noteq> 0 \<or> msg < 15 \<or> flight < 1")
      case True
      then have "c' = c\<lparr>c_session := session\<rparr>"
        using h v0 Inr t by (simp add: handle_hello_def Let_def split: if_splits)
      then show ?thesis using v0 by (simp add: hello_effect_def)
    next
      case False
      note ok = check_config_ok(1,2) [OF cfg]
      have "hello_effect c c'"
        using h v0 Inr t False ok
        by (auto simp: handle_hello_def Let_def set_max_frame_size_def settle_auth_def hello_effect_def
            negotiated_def set_capabilities_def new_gate_def split: if_splits)
      then show ?thesis by blast
    qed
  qed
qed

lemma conn_inv_dispatch:
  assumes inv: "conn_inv g c" and cfg: "check_config g = None"
    and d: "dispatch_transport_frame data c = (e, c')"
  shows "conn_inv g c'"
proof -
  have cfg': "check_config (c_config c) = None" using inv cfg by (simp add: conn_inv_def)
  have hello: "conn_inv g c'" if "handle_hello f ids c = (e, c')" for f ids
    using handle_hello_effect [OF cfg' that] inv conn_inv_hello by blast
  have goaway: "conn_inv g c'" if "handle_goaway f c = (e, c')" for f
  proof -
    have "conn_inv g (c\<lparr>c_goaway := x, c_calls := y\<rparr>)" for x y
      by (intro conn_inv_cong [OF inv]) simp_all
    then show ?thesis using that inv
      by (simp add: handle_goaway_def split: sum.splits prod.splits if_splits) blast+
  qed
  have mux: "conn_inv g (c\<lparr>c_mux := m\<rparr>)"
    if "m_version m = m_version (c_mux c)" "m_connected m = m_connected (c_mux c)" for m
    using that by (intro conn_inv_cong [OF inv]) simp_all
  show ?thesis
    using d inv hello goaway
    by (auto simp: dispatch_transport_frame_def Let_def split_beta intro!: mux
        split: if_splits sum.splits list.splits)
qed

lemma conn_inv_loop_top:
  assumes inv: "conn_inv g c" and l: "c_loop c = Some (n, d, Top)"
  shows "conn_inv g (loop_top outcome c)"
proof -
  have own: "\<not> owns a c" for a using inv l unfolding conn_inv_def by blast
  have base: "c_config c = g" "c_closed c \<longleftrightarrow> c_state c = CLOSED"
    and na: "c_state c \<noteq> AUTHENTICATED" using inv l by (auto simp: conn_inv_def)
  have free: "\<not> (c_attempt c = Some a \<and> c_transport c = Some (at_transport a) \<and> \<not> c_closed c)" for a
    using own by (simp add: owns_def)
  show ?thesis
  proof (cases "\<not> c_closed c \<and>
      (case rc_max_attempts (reconnect (c_config c)) of None \<Rightarrow> True | Some m \<Rightarrow> int n < m)")
    case True
    then have "loop_top outcome c =
        set_state RECONNECTING ''reconnect_attempt'' (c\<lparr>c_loop := Some (Suc n, d, Asleep)\<rparr>)"
      using l by (simp add: loop_top_def)
    then show ?thesis using True base free
      by (auto simp: set_state_def emit_def conn_inv_def owns_def)
  next
    case False
    have "conn_down g (loop_top outcome c)"
    proof (cases "c_closed c")
      case True
      then show ?thesis using l base free by (auto simp: loop_top_def conn_down_def owns_def)
    next
      case open_: False
      then have eq: "loop_top outcome c = snd (notify_close outcome
          (set_state DISCONNECTED ''reconnect_exhausted'' (c\<lparr>c_loop := None\<rparr>)))"
        using l False by (auto simp: loop_top_def)
      have "conn_down g (set_state DISCONNECTED ''reconnect_exhausted'' (c\<lparr>c_loop := None\<rparr>))"
        using base free open_ by (auto simp: conn_down_def owns_def set_state_def emit_def)
      then show ?thesis unfolding eq by (rule conn_down_notify)
    qed
    then show ?thesis by (rule conn_inv_down)
  qed
qed

lemma conn_inv_loop_wakes:
  assumes inv: "conn_inv g c" and l: "c_loop c = Some (n, d, Asleep)" and a: "c_attempt c = None"
  shows "conn_inv g (loop_wakes outcome c)"
proof -
  have base: "c_config c = g" "c_closed c \<longleftrightarrow> c_state c = CLOSED" using inv by (auto simp: conn_inv_def)
  show ?thesis
  proof (cases "c_closed c")
    case True
    then have "conn_down g (loop_failed FitzConnectionError outcome c)"
      using base a by (intro conn_down_loop_failed) (simp add: conn_down_def owns_def)
    then show ?thesis using l True by (simp add: loop_wakes_def open_begin_def conn_inv_down)
  next
    case False
    then show ?thesis using l base
      by (simp add: loop_wakes_def open_begin_def Let_def set_state_def emit_def conn_inv_def owns_def
          states_of_def)
  qed
qed

lemma conn_inv_close:
  assumes inv: "conn_inv g c"
  shows "conn_inv g (snd (close_connection outcome c))"
proof (cases "c_closed c")
  case False
  have "conn_down g (snd (close_connection outcome c))"
    using False inv
    by (simp add: close_connection_def Let_def listener_simps set_state_def emit_def conn_down_def
        owns_def conn_inv_def)
  then show ?thesis by (rule conn_inv_down)
qed (simp add: close_connection_def inv)

lemma conn_inv_step:
  assumes "conn_step c c'" "conn_inv g c" "check_config g = None"
  shows "conn_inv g c'"
  using assms
proof (induction rule: conn_step.induct)
  case (listen_disconnect c ls)
  then show ?case by - (rule conn_inv_cong [of g c], simp_all)
next
  case (listen_close c ls)
  then show ?case by - (rule conn_inv_cong [of g c], simp_all)
next
  case (traffic m c g')
  then show ?case by - (rule conn_inv_cong [of g c], simp_all)
next
  case (bad_frame c r data e c' outcome)
  then show ?case using conn_inv_receive_failed [OF conn_inv_dispatch] by blast
next
  case (frame c r data c')
  then show ?case using conn_inv_dispatch by blast
next
  case (start c)
  then show ?case by - (rule conn_inv_start)
next
  case (dialed c a)
  then show ?case by - (rule conn_inv_dialed)
next
  case (receive_error c r e outcome)
  then show ?case by - (rule conn_inv_receive_failed)
next
  case (authenticated c a outcome)
  then show ?case by - (rule conn_inv_authenticated)
next
  case (finished c a outcome)
  then show ?case by - (rule conn_inv_finished)
next
  case (failed c a e outcome)
  then show ?case by - (rule conn_inv_failed)
next
  case (lost c outcome)
  then show ?case by - (rule conn_inv_lost)
next
  case (looped c n d outcome)
  then show ?case by - (rule conn_inv_loop_top)
next
  case (woke c n d outcome)
  then show ?case by - (rule conn_inv_loop_wakes)
next
  case (closing c outcome)
  then show ?case by - (rule conn_inv_close)
qed

lemma conn_inv_reach: "conn_reach g c \<Longrightarrow> check_config g = None \<Longrightarrow> conn_inv g c"
proof (induction rule: conn_reach.induct)
  case start
  show ?case by (rule conn_inv_new)
next
  case (step c c')
  then show ?case by (intro conn_inv_step [OF step.hyps(2)])
qed

end
