(* ===== verification/Lifecycle.thy ===== *)
theory Lifecycle
  imports Connection
begin

text \<open>What the connection's life cycle guarantees, and two runs in which it does less.\<close>

section \<open>Closed is final\<close>

lemma closed_kept:
  "c_closed (snd (run_listeners mk o' ls c)) = c_closed c"
  "c_closed (set_state s ev c) = c_closed c" "c_closed (emit ev c) = c_closed c"
  "c_closed (snd (notify_close o' c)) = c_closed c" "c_closed (snd (notify_disconnect o' c)) = c_closed c"
  "c_closed (settle_auth f c) = c_closed c"
  by (simp_all add: run_listeners_eq set_state_def emit_def listener_simps settle_auth_def)

lemma loop_failed_closed: "c_closed c \<Longrightarrow> c_closed (loop_failed e o' c)"
  by (simp add: loop_failed_def Let_def closed_kept split: option.split)

lemma open_failed_closed: "c_closed c \<Longrightarrow> c_closed (open_failed e o' a c)"
  by (simp add: open_failed_def Let_def closed_kept loop_failed_closed)

lemma owner_closed: "c_closed c \<Longrightarrow> assert_transport_owner a c \<noteq> None"
  by (simp add: assert_transport_owner_def)

lemma closed_step:
  assumes "conn_step c c'" "c_closed c"
  shows "c_closed c'"
  using assms
proof (induction rule: conn_step.induct)
  case (authenticated c a outcome)
  then show ?case using owner_closed [of "c\<lparr>c_auth := None\<rparr>" a]
    by (auto simp: open_authenticated_def open_failed_closed)
next
  case (finished c a outcome)
  then show ?case using owner_closed [of "c\<lparr>c_restoring := False\<rparr>" a]
    by (auto simp: open_finish_def open_failed_closed)
next
  case (failed c a e outcome)
  then show ?case by (simp add: open_failed_closed)
next
  case (lost c outcome)
  then show ?case
    by (simp add: connection_lost_def Let_def split_beta closed_kept)
next
  case (looped c n d outcome)
  then show ?case by (simp add: loop_top_def closed_kept)
next
  case (woke c n d outcome)
  then show ?case by (simp add: loop_wakes_def open_begin_def loop_failed_closed)
next
  case (closing c outcome)
  then show ?case by (simp add: close_connection_def)
qed (simp_all add: open_begin_def open_dialed_def closed_kept Let_def)

section \<open>Properties\<close>


text \<open>
  C20. From a closed connection every step leads to a closed connection that refuses requests and
  connects.
\<close>

lemma closed_is_final:
  assumes "conn_reach g c" "check_config g = None" "c_closed c" "conn_step c c'"
  shows "c_state c' = CLOSED \<and> ensure_authenticated c' = Some FitzConnectionError \<and>
    connect_choice c' = Refuse FitzConnectionError"
proof -
  have "c_closed c'" by (rule closed_step [OF assms(4,3)])
  moreover have "conn_inv g c'"
    by (rule conn_inv_reach [OF conn_reach.step [OF assms(1,4)] assms(2)])
  ultimately show ?thesis
    by (simp add: conn_inv_def ensure_authenticated_def connect_choice_def)
qed

section \<open>Concrete runs\<close>

definition demo_config :: config where
  "demo_config = default_config (lit ''tcp://h'')"

lemma demo_config_ok: "check_config demo_config = None"
  by (simp add: demo_config_def check_config_def default_config_def default_limits_def
      check_service_name_def positive_finite_def lit_def)

definition hello_core :: "int \<Rightarrow> int \<Rightarrow> int \<Rightarrow> bytes" where
  "hello_core msg flight session =
     be_bytes 2 3 @ be_bytes 4 0 @ be_bytes 4 msg @ be_bytes 4 flight @ be_bytes 8 session"

lemma read_hello_core:
  assumes "0 \<le> msg" "msg < 4294967296" "0 \<le> flight" "flight < 4294967296"
    "0 \<le> session" "session < 18446744073709551616"
  shows "read_hello (hello_core msg flight session) = Inr (3, 0, msg, flight, session)"
  using assms by (simp add: read_hello_def hello_core_def run_reader_def new_reader_at)

text \<open>A connection that has sent CONNECT and waits for the broker's HELLO.\<close>

definition awaits_hello :: "conn \<Rightarrow> bool" where
  "awaits_hello c \<longleftrightarrow> c_transport c \<noteq> None \<and> c_auth c = Some Auth_pending \<and> m_version (c_mux c) = 0"

lemma dispatch_hello:
  assumes caps: "encode_capabilities ids = Inr caps"
    and body: "encode_payload (hello_core msg flight session) [(1, caps)] = Inr body"
    and data: "encode_frame MSG_HELLO body EXTENSIONS_PRESENT 0 = Inr data"
    and r: "15 \<le> msg" "msg < 4294967296" "1 \<le> flight" "flight < 4294967296"
      "0 \<le> session" "session < 18446744073709551616"
    and c: "awaits_hello c" "int (length data) \<le> c_max_message c" "check_config (c_config c) = None"
  shows "\<exists>c'. dispatch_transport_frame data c = (None, c') \<and>
    c_auth c' = Some Auth_ok \<and> c_session c' = session \<and>
    c_max_message c' = min msg (min (max_frame_size (c_config c)) 1048576) \<and>
    c_frame_limit c' = c_max_message c' \<and>
    c_max_in_flight c' = min flight (max_in_flight (limits (c_config c))) \<and>
    c_gate c' = new_gate (c_max_in_flight c') (request_queue_size (limits (c_config c))) \<and>
    m_version (c_mux c') = 3 \<and>
    m_capability_ids (c_mux c') = filter (\<lambda>v. v \<in> set CLIENT_CAPABILITY_IDS) ids \<and>
    c_state c' = c_state c \<and> c_closed c' = c_closed c \<and> c_attempt c' = c_attempt c \<and>
    c_transport c' = c_transport c \<and> c_receive c' = c_receive c \<and>
    c_receive_done c' = c_receive_done c \<and> c_loop c' = c_loop c \<and>
    c_close_listeners c' = c_close_listeners c \<and> c_config c' = c_config c \<and>
    c_calls c' = c_calls c \<and> c_close_notified c' = c_close_notified c \<and> c_fresh c' = c_fresh c"
proof -
  let ?f = "\<lparr>message_type = MSG_HELLO, flags = EXTENSIONS_PRESENT, correlation_id = 0, payload = body\<rparr>"
  have frame: "frame_ok ?f" "data = frame_bytes ?f"
    using data by (auto simp: encode_frame_eq Let_def split: if_splits)
  then have "data \<noteq> []" by (auto simp: frame_bytes_def)
  then have parse: "parse_frames data = Inr [?f]"
    using frame by (simp add: parse_frames_def decode_frame_bytes)
  have ext: "decode_payload body MSG_HELLO EXTENSIONS_PRESENT = Inr (hello_core msg flight session, ids)"
    by (rule hello_roundtrip [OF caps body])
  have len: "length (hello_core msg flight session) = 22" by (simp add: hello_core_def)
  have core: "read_hello (hello_core msg flight session) = Inr (3, 0, msg, flight, session)"
    using r by (intro read_hello_core) simp_all
  have limit: "15 \<le> max_frame_size (c_config c)" by (rule check_config_ok(1) [OF c(3)])
  have "dispatch_transport_frame data c =
      handle_hello (?f\<lparr>payload := hello_core msg flight session\<rparr>) ids c"
    using c(2) parse ext by (simp add: dispatch_transport_frame_def)
  then show ?thesis using c(1) core len r limit
    by (auto simp: handle_hello_def awaits_hello_def Let_def set_max_frame_size_def settle_auth_def
        set_capabilities_def)
qed

text \<open>A HELLO that offers 4096 bytes per message and 8 requests in flight.\<close>

definition hello_caps :: bytes where
  "hello_caps = be_bytes 2 1 @ be_bytes 4 2"

definition hello_body :: bytes where
  "hello_body = be_bytes 4 22 @ hello_core 4096 8 77 @ be_bytes 2 1 @ be_bytes 4 6 @ hello_caps"

definition hello_data :: bytes where
  "hello_data = frame_bytes \<lparr>message_type = 2, flags = 4, correlation_id = 0, payload = hello_body\<rparr>"

lemma hello_data_encoded:
  "encode_capabilities [2] = Inr hello_caps"
  "encode_payload (hello_core 4096 8 77) [(1, hello_caps)] = Inr hello_body"
  "encode_frame MSG_HELLO hello_body EXTENSIONS_PRESENT 0 = Inr hello_data"
  "int (length hello_data) \<le> 1048576"
proof -
  show "encode_capabilities [2] = Inr hello_caps"
    by (simp add: encode_capabilities_Inr_iff hello_caps_def)
  show "encode_payload (hello_core 4096 8 77) [(1, hello_caps)] = Inr hello_body"
    by (simp add: encode_payload_def pack_def hello_body_def hello_core_def hello_caps_def bind_r_def
        guard_r_def)
  have len: "length hello_body = 38" by (simp add: hello_body_def hello_core_def hello_caps_def)
  then show "encode_frame MSG_HELLO hello_body EXTENSIONS_PRESENT 0 = Inr hello_data"
    by (simp add: encode_frame_eq frame_ok_def hello_data_def)
  show "int (length hello_data) \<le> 1048576" using len by (simp add: hello_data_def)
qed

abbreviation "quiet \<equiv> (\<lambda>_. None) :: nat \<Rightarrow> exn option"

text \<open>A whole successful first connection attempt.\<close>

definition dialed_up :: "conn \<Rightarrow> conn" where
  "dialed_up c =
     (let c1 = snd (open_begin False c) in open_dialed (the (c_attempt c1)) c1)"

definition dial_up :: "conn \<Rightarrow> conn" where
  "dial_up c =
     (let c3 = snd (dispatch_transport_frame hello_data (dialed_up c))
      in open_authenticated quiet (the (c_attempt c3)) c3)"

definition ready_to_dial :: "conn \<Rightarrow> bool" where
  "ready_to_dial c \<longleftrightarrow>
     connect_choice c = Start_connect \<and> m_version (c_mux c) = 0 \<and> 53 \<le> c_max_message c \<and>
     Suc (c_fresh c) \<notin> set (c_receive_done c)"

lemma connect_choice_start:
  "connect_choice c = Start_connect \<longleftrightarrow>
     \<not> c_closed c \<and> c_state c \<noteq> AUTHENTICATED \<and> c_loop c = None \<and> c_attempt c = None"
  by (simp add: connect_choice_def is_connected_def del: not_None_eq split_paired_All split_paired_Ex)

lemma dialed_up_state:
  assumes "ready_to_dial c"
  shows "c_attempt (dialed_up c) = Some \<lparr>at_transport = c_fresh c, at_receive = Some (Suc (c_fresh c)),
      at_reconnect = False, at_phase = Authing\<rparr>"
    "c_transport (dialed_up c) = Some (c_fresh c)" "c_receive (dialed_up c) = Some (Suc (c_fresh c))"
    "c_receive_done (dialed_up c) = c_receive_done c" "\<not> c_closed (dialed_up c)"
    "awaits_hello (dialed_up c)" "c_config (dialed_up c) = c_config c"
    "c_max_message (dialed_up c) = c_max_message c" "c_state (dialed_up c) = AUTHENTICATING"
    "c_loop (dialed_up c) = None" "c_close_listeners (dialed_up c) = c_close_listeners c"
    "c_calls (dialed_up c) = c_calls c" "c_close_notified (dialed_up c) = c_close_notified c"
    "c_fresh (dialed_up c) = Suc (Suc (c_fresh c))"
  using assms
  by (simp_all add: ready_to_dial_def connect_choice_start dialed_up_def awaits_hello_def
      open_begin_def open_dialed_def set_state_def emit_def Let_def)

lemma dial_up:
  assumes reach: "conn_reach g c" and g: "check_config g = None" and ready: "ready_to_dial c"
    and cfg: "c_config c = g"
  shows "conn_reach g (dial_up c) \<and> is_connected (dial_up c) \<and> \<not> c_closed (dial_up c) \<and>
    c_max_in_flight (dial_up c) = min 8 (max_in_flight (limits g)) \<and>
    c_ever_authenticated (dial_up c) \<and> c_loop (dial_up c) = None \<and> c_attempt (dial_up c) = None \<and>
    c_close_listeners (dial_up c) = c_close_listeners c \<and> c_calls (dial_up c) = c_calls c \<and>
    c_close_notified (dial_up c) = c_close_notified c \<and> c_config (dial_up c) = g \<and>
    c_max_message (dial_up c) = min 4096 (min (max_frame_size g) 1048576) \<and>
    c_fresh (dial_up c) = Suc (Suc (c_fresh c)) \<and> c_receive (dial_up c) = Some (Suc (c_fresh c)) \<and>
    c_receive_done (dial_up c) = c_receive_done c"
proof -
  note d = dialed_up_state [OF ready]
  have len: "int (length hello_data) \<le> c_max_message (dialed_up c)"
    using ready d(8) by (simp add: ready_to_dial_def hello_data_def hello_body_def hello_core_def hello_caps_def)
  obtain c' where c': "dispatch_transport_frame hello_data (dialed_up c) = (None, c')"
    and e: "c_auth c' = Some Auth_ok \<and>
      c_max_in_flight c' = min 8 (max_in_flight (limits (c_config (dialed_up c)))) \<and>
      c_max_message c' = min 4096 (min (max_frame_size (c_config (dialed_up c))) 1048576) \<and>
      c_fresh c' = c_fresh (dialed_up c) \<and>
      c_state c' = c_state (dialed_up c) \<and> c_closed c' = c_closed (dialed_up c) \<and>
      c_attempt c' = c_attempt (dialed_up c) \<and> c_transport c' = c_transport (dialed_up c) \<and>
      c_receive c' = c_receive (dialed_up c) \<and> c_receive_done c' = c_receive_done (dialed_up c) \<and>
      c_loop c' = c_loop (dialed_up c) \<and> c_close_listeners c' = c_close_listeners (dialed_up c) \<and>
      c_config c' = c_config (dialed_up c) \<and> c_calls c' = c_calls (dialed_up c) \<and>
      c_close_notified c' = c_close_notified (dialed_up c)"
    using dispatch_hello [OF hello_data_encoded(1-3), of "dialed_up c"] d len g cfg by auto
  have "conn_step c (snd (open_begin False c))"
    using ready by (intro conn_step.start) (simp add: ready_to_dial_def)
  then have "conn_reach g (snd (open_begin False c))" by (rule conn_reach.step [OF reach])
  moreover obtain a where "c_attempt (snd (open_begin False c)) = Some a" "at_phase a = Dialing"
    using ready by (simp add: ready_to_dial_def connect_choice_start open_begin_def set_state_def emit_def Let_def)
  ultimately have r1: "conn_reach g (dialed_up c)"
    unfolding dialed_up_def Let_def using conn_reach.step [OF _ conn_step.dialed] by simp
  have fresh: "Suc (c_fresh c) \<notin> set (c_receive_done (dialed_up c))"
    using ready d by (simp add: ready_to_dial_def)
  have "conn_step (dialed_up c) c'"
    by (rule conn_step.frame [OF _ d(3) fresh d(5) c']) (simp add: d)
  then have r2: "conn_reach g c'" by (rule conn_reach.step [OF r1])
  have eq: "dial_up c = open_authenticated quiet (the (c_attempt c')) c'"
    by (simp add: dial_up_def c')
  have "conn_step c' (open_authenticated quiet (the (c_attempt c')) c')"
    using e d by (intro conn_step.authenticated) simp_all
  then have r3: "conn_reach g (dial_up c)" unfolding eq by (rule conn_reach.step [OF r2])
  have owner: "assert_transport_owner (the (c_attempt c')) (c'\<lparr>c_auth := None\<rparr>) = None"
    using e d fresh by (simp add: assert_transport_owner_def)
  show ?thesis using r3 owner e d fresh cfg unfolding eq
    by (simp add: open_authenticated_def open_finish_def assert_transport_owner_def Let_def set_state_def
        emit_def is_connected_def)
qed

definition run_up :: conn where
  "run_up = dial_up ((new_conn demo_config)\<lparr>c_close_listeners := [7]\<rparr>)"

lemma run_up:
  "conn_reach demo_config run_up" "is_connected run_up" "\<not> c_closed run_up"
  "c_max_in_flight run_up = 8" "c_ever_authenticated run_up" "c_loop run_up = None"
  "c_attempt run_up = None" "c_close_listeners run_up = [7]" "c_calls run_up = []"
  "\<not> c_close_notified run_up" "c_config run_up = demo_config" "c_max_message run_up = 4096"
  "c_fresh run_up = 2" "c_receive run_up = Some 1" "c_receive_done run_up = []"
proof -
  let ?n = "(new_conn demo_config)\<lparr>c_close_listeners := [7]\<rparr>"
  have r: "conn_reach demo_config ?n"
    by (rule conn_reach.step [OF conn_reach.start conn_step.listen_close])
  have "ready_to_dial ?n"
    by (simp add: ready_to_dial_def connect_choice_start new_conn_def new_mux_def demo_config_def
        default_config_def)
  note up = dial_up [OF r demo_config_ok this, folded run_up_def]
  show "conn_reach demo_config run_up" "is_connected run_up" "\<not> c_closed run_up"
    "c_max_in_flight run_up = 8" "c_ever_authenticated run_up" "c_loop run_up = None"
    "c_attempt run_up = None" "c_close_listeners run_up = [7]" "c_calls run_up = []"
    "\<not> c_close_notified run_up" "c_config run_up = demo_config" "c_max_message run_up = 4096"
    "c_fresh run_up = 2" "c_receive run_up = Some 1" "c_receive_done run_up = []"
    using up by (simp_all add: new_conn_def demo_config_def default_config_def default_limits_def)
qed


definition run_closed :: conn where
  "run_closed = snd (close_connection quiet run_up)"

lemma closed_is_final_witness:
  "c_state (connection_lost quiet run_closed) = CLOSED"
proof -
  have r: "conn_reach demo_config run_closed"
    unfolding run_closed_def by (rule conn_reach.step [OF run_up(1) conn_step.closing])
  have "c_closed run_closed"
    by (simp add: run_closed_def close_connection_def run_up listener_simps Let_def set_state_def emit_def)
  from closed_is_final [OF r demo_config_ok this conn_step.lost] show ?thesis by blast
qed

text \<open>
  C19. A well-formed HELLO during authentication settles it and takes the smaller of the offered
  and the configured limits, for the message size, the transport and a fresh gate, and keeps
  only the capabilities the client knows.
\<close>

lemma hello_negotiates:
  assumes "encode_capabilities ids = Inr caps"
    and "encode_payload (hello_core msg flight session) [(1, caps)] = Inr body"
    and "encode_frame MSG_HELLO body EXTENSIONS_PRESENT 0 = Inr data"
    and "15 \<le> msg" "msg < 4294967296" "1 \<le> flight" "flight < 4294967296"
      "0 \<le> session" "session < 18446744073709551616"
    and "awaits_hello c" "int (length data) \<le> c_max_message c" "check_config (c_config c) = None"
  shows "\<exists>c'. dispatch_transport_frame data c = (None, c') \<and>
    c_auth c' = Some Auth_ok \<and> c_session c' = session \<and> m_version (c_mux c') = 3 \<and>
    c_max_message c' = min msg (min (max_frame_size (c_config c)) 1048576) \<and>
    c_frame_limit c' = c_max_message c' \<and>
    c_gate c' = new_gate (min flight (max_in_flight (limits (c_config c))))
      (request_queue_size (limits (c_config c))) \<and>
    m_capability_ids (c_mux c') = filter (\<lambda>v. v \<in> set CLIENT_CAPABILITY_IDS) ids"
proof -
  obtain c' where "dispatch_transport_frame data c = (None, c')"
    and "c_auth c' = Some Auth_ok \<and> c_session c' = session \<and> m_version (c_mux c') = 3 \<and>
      c_max_message c' = min msg (min (max_frame_size (c_config c)) 1048576) \<and>
      c_frame_limit c' = c_max_message c' \<and>
      c_max_in_flight c' = min flight (max_in_flight (limits (c_config c))) \<and>
      c_gate c' = new_gate (c_max_in_flight c') (request_queue_size (limits (c_config c))) \<and>
      m_capability_ids (c_mux c') = filter (\<lambda>v. v \<in> set CLIENT_CAPABILITY_IDS) ids"
    using dispatch_hello [OF assms] by auto
  then show ?thesis by (intro exI [of _ c']) simp
qed

lemma hello_negotiates_witness:
  "c_frame_limit (snd (dispatch_transport_frame hello_data (dialed_up (new_conn demo_config)))) = 4096"
proof -
  have "ready_to_dial (new_conn demo_config)"
    by (simp add: ready_to_dial_def connect_choice_start new_conn_def new_mux_def demo_config_def
        default_config_def)
  note d = dialed_up_state [OF this]
  have "c_config (dialed_up (new_conn demo_config)) = demo_config"
    "c_max_message (dialed_up (new_conn demo_config)) = 1048576"
    using d by (simp_all add: new_conn_def demo_config_def default_config_def)
  then show ?thesis
    using hello_negotiates [OF hello_data_encoded(1-3), of "dialed_up (new_conn demo_config)"] d
      hello_data_encoded(4) demo_config_ok
    by (auto simp: demo_config_def default_config_def)
qed

section \<open>Close listeners that are never called\<close>

text \<open>
  A connection with a close listener is authenticated, lost, and rejected when it reconnects:
  it is closed for good, but neither the rejection nor a later \<open>close\<close> calls the listener.
\<close>

definition lost_up :: "conn \<Rightarrow> conn" where
  "lost_up c = loop_wakes quiet (loop_top quiet (connection_lost quiet c))"

definition set_option_list :: "'b option \<Rightarrow> 'b list" where
  "set_option_list x = (case x of None \<Rightarrow> [] | Some y \<Rightarrow> [y])"

lemma lost_up:
  assumes "conn_reach g c" "is_connected c" "\<not> c_closed c" "c_ever_authenticated c" "c_loop c = None"
    "c_attempt c = None" "c_config c = g" "rc_enabled (reconnect g)" "rc_max_attempts (reconnect g) = None"
    "finite_value (rc_backoff (reconnect g)) = d"
  shows "conn_reach g (lost_up c) \<and> c_loop (lost_up c) = Some (1, d, Trying) \<and>
    c_attempt (lost_up c) = Some \<lparr>at_transport = c_fresh c, at_receive = None, at_reconnect = True, at_phase = Dialing\<rparr> \<and>
    \<not> c_closed (lost_up c) \<and> c_close_listeners (lost_up c) = c_close_listeners c \<and>
    c_calls (lost_up c) = c_calls c @ map On_disconnect (c_disconnect_listeners c) \<and>
    c_close_notified (lost_up c) = c_close_notified c \<and> c_config (lost_up c) = g \<and>
    c_max_message (lost_up c) = c_max_message c \<and> c_fresh (lost_up c) = Suc (c_fresh c) \<and>
    c_receive_done (lost_up c) = set_option_list (c_receive c) @ c_receive_done c"
proof -
  let ?l = "connection_lost quiet c"
  have h: "heard quiet ls = ls" for ls by (induction ls) simp_all
  have l: "c_loop ?l = Some (0, d, Top)" "c_attempt ?l = None" "\<not> c_closed ?l" "c_config ?l = g"
    "c_fresh ?l = c_fresh c" "c_close_listeners ?l = c_close_listeners c"
    "c_calls ?l = c_calls c @ map On_disconnect (c_disconnect_listeners c)"
    "c_close_notified ?l = c_close_notified c" "c_max_message ?l = c_max_message c"
    "c_receive_done ?l = set_option_list (c_receive c) @ c_receive_done c"
    using assms by (simp_all add: connection_lost_def is_connected_def listener_simps h Let_def
        set_state_def emit_def set_option_list_def split: option.split)
  have r1: "conn_reach g ?l" by (rule conn_reach.step [OF assms(1) conn_step.lost])
  have r2: "conn_reach g (loop_top quiet ?l)"
    by (rule conn_reach.step [OF r1 conn_step.looped [OF l(1)]])
  have t: "c_loop (loop_top quiet ?l) = Some (1, d, Asleep)" "c_attempt (loop_top quiet ?l) = None"
    "\<not> c_closed (loop_top quiet ?l)" "c_fresh (loop_top quiet ?l) = c_fresh c"
    "c_close_listeners (loop_top quiet ?l) = c_close_listeners c"
    "c_calls (loop_top quiet ?l) = c_calls c @ map On_disconnect (c_disconnect_listeners c)"
    "c_close_notified (loop_top quiet ?l) = c_close_notified c"
    "c_config (loop_top quiet ?l) = g" "c_max_message (loop_top quiet ?l) = c_max_message c"
    "c_receive_done (loop_top quiet ?l) = set_option_list (c_receive c) @ c_receive_done c"
    using l assms by (simp_all add: loop_top_def set_state_def emit_def)
  have "conn_reach g (lost_up c)" unfolding lost_up_def
    by (rule conn_reach.step [OF r2 conn_step.woke [OF t(1,2)]])
  then show ?thesis using t
    by (simp add: lost_up_def loop_wakes_def open_begin_def set_state_def emit_def Let_def)
qed

lemma lost_run_up:
  "conn_reach demo_config (lost_up run_up)" "c_loop (lost_up run_up) = Some (1, 1/4, Trying)"
  "c_attempt (lost_up run_up) = Some \<lparr>at_transport = 2, at_receive = None, at_reconnect = True, at_phase = Dialing\<rparr>"
  "\<not> c_closed (lost_up run_up)" "c_close_listeners (lost_up run_up) = [7]"
  "c_calls (lost_up run_up) = map On_disconnect (c_disconnect_listeners run_up)"
  "\<not> c_close_notified (lost_up run_up)" "c_config (lost_up run_up) = demo_config"
  "c_max_message (lost_up run_up) = 4096" "c_fresh (lost_up run_up) = 3"
  "c_receive_done (lost_up run_up) = [1]"
  using lost_up [OF run_up(1,2,3,5,6,7,11), of "1/4"] run_up
  by (simp_all add: demo_config_def default_config_def set_option_list_def)

definition run_rejected :: conn where
  "run_rejected =
     (let c = lost_up run_up in open_failed (AuthenticationError (Some 1)) quiet (the (c_attempt c)) c)"

lemma rejection_skips_close_listeners:
  "conn_reach demo_config run_rejected \<and> c_closed run_rejected \<and>
   c_close_listeners run_rejected = [7] \<and>
   On_close 7 \<notin> set (c_calls (snd (close_connection quiet run_rejected)))"
proof -
  have "conn_step (lost_up run_up) run_rejected"
    unfolding run_rejected_def Let_def by (intro conn_step.failed) (simp add: lost_run_up)
  then have "conn_reach demo_config run_rejected" by (rule conn_reach.step [OF lost_run_up(1)])
  moreover have "c_closed run_rejected" "c_close_listeners run_rejected = [7]"
    "c_calls run_rejected = map On_disconnect (c_disconnect_listeners run_up)"
    by (simp_all add: run_rejected_def open_failed_def loop_failed_def is_auth_error_def
        set_state_def emit_def Let_def lost_run_up)
  ultimately show ?thesis by (auto simp: close_connection_def)
qed

text \<open>
  The close listeners are called at most once in a connection's life: after a reconnect loop
  gave up and a later \<open>connect\<close> succeeded, \<open>close\<close> calls none of those registered since.
\<close>

definition run_gave_up :: conn where
  "run_gave_up = (let c = lost_up run_up in open_failed (ProtocolError (Some 50)) quiet (the (c_attempt c)) c)"

definition run_again :: conn where
  "run_again = dial_up (run_gave_up\<lparr>c_close_listeners := [9]\<rparr>)"

lemma late_close_listener_is_skipped:
  "conn_reach demo_config run_again \<and> is_connected run_again \<and> c_close_listeners run_again = [9] \<and>
   c_closed (snd (close_connection quiet run_again)) \<and>
   On_close 9 \<notin> set (c_calls (snd (close_connection quiet run_again)))"
proof -
  let ?d = "run_gave_up\<lparr>c_close_listeners := [9]\<rparr>"
  have "conn_reach demo_config run_gave_up"
    unfolding run_gave_up_def Let_def
    by (rule conn_reach.step [OF lost_run_up(1) conn_step.failed]) (simp add: lost_run_up)
  then have g: "conn_reach demo_config ?d" by (rule conn_reach.step [OF _ conn_step.listen_close])
  have s: "\<not> c_closed run_gave_up" "c_loop run_gave_up = None" "c_attempt run_gave_up = None"
    "c_state run_gave_up = DISCONNECTED" "c_close_notified run_gave_up"
    "c_calls run_gave_up = map On_disconnect (c_disconnect_listeners run_up) @ [On_close 7]"
    "m_version (c_mux run_gave_up) = 0" "c_config run_gave_up = demo_config"
    "c_max_message run_gave_up = 4096" "c_fresh run_gave_up = 3" "c_receive_done run_gave_up = [1]"
    by (simp_all add: run_gave_up_def open_failed_def loop_failed_def is_auth_error_def
        set_state_def emit_def Let_def lost_run_up listener_simps set_disconnected_rest)
  have "ready_to_dial ?d" by (simp add: ready_to_dial_def connect_choice_start s)
  note up = dial_up [OF g demo_config_ok this, folded run_again_def]
  have "c_calls (snd (close_connection quiet run_again)) =
      c_calls run_again @ map On_disconnect (heard quiet (c_disconnect_listeners run_again))"
    "c_closed (snd (close_connection quiet run_again))"
    using up s by (simp_all add: close_connection_def listener_simps Let_def set_state_def emit_def)
  then show ?thesis using up s by auto
qed

section \<open>A small limit of one session outlives it\<close>

lemma length_str_field: "str_field s = Inr fld \<Longrightarrow> 4 \<le> length fld"
  by (auto simp: str_field_Inr_iff)

lemma length_connect_core:
  assumes "build_payload [U16 i, U16 j, U32 k, Str x, Str y, Str z] = Inr core"
  obtains a b c where "str_field x = Inr a" "str_field y = Inr b" "str_field z = Inr c"
    "length core = 8 + length a + length b + length c"
  using assms by (auto simp: build_payload_spec bind_r_Inr_iff pack_Inr_iff)

lemma connect_frame_length:
  assumes "connect_frame token g = Inr fr"
  shows "52 \<le> length fr"
proof -
  obtain core caps body where p: "build_payload [U16 3, U16 3, U32 0, Str token,
      Str (strip (case service_name g of None \<Rightarrow> [] | Some s \<Rightarrow> s)), Str (lit CLIENT_BUILD)] = Inr core"
    "encode_payload core [(1, caps)] = Inr body" "encode_frame MSG_CONNECT body EXTENSIONS_PRESENT 0 = Inr fr"
    using assms by (auto simp: connect_frame_def bind_r_Inr_iff)
  have "utf8_encode (lit CLIENT_BUILD) = Inr (map u8_of (lit CLIENT_BUILD))" 
    by (simp add: utf8_encode_def lit_def CLIENT_BUILD_def scalar_def utf8_char.simps)
  then have build: "length c = 17" if "str_field (lit CLIENT_BUILD) = Inr c" for c
    using that by (auto simp: str_field_Inr_iff lit_def CLIENT_BUILD_def)
  obtain a b c where ab: "str_field token = Inr a" "str_field (strip (case service_name g of None \<Rightarrow> [] | Some s \<Rightarrow> s)) = Inr b"
    "str_field (lit CLIENT_BUILD) = Inr c" "length core = 8 + length a + length b + length c"
    by (rule length_connect_core [OF p(1)])
  then have "33 \<le> length core" using length_str_field [OF ab(1)] length_str_field [OF ab(2)] build [OF ab(3)] by simp
  moreover obtain es where "body = be_bytes 4 (int (length core)) @ core @ es"
    using encode_payload_Inr [OF p(2)] by auto
  moreover have "length fr = 15 + length body"
    using p(3) by (auto simp: encode_frame_eq Let_def split: if_splits)
  ultimately show ?thesis by simp
qed

text \<open>The limit a broker announced stays through the loss and the next dialling, and refuses the CONNECT.\<close>

lemma small_limit_refuses_connect:
  assumes "c_max_message c < 52" "connect_frame token g = Inr fr"
  shows "c_max_message (connection_lost listeners c) = c_max_message c \<and>
    (\<not> c_closed c \<longrightarrow> send_frame_check fr (open_dialed a (snd (open_begin again c))) = Some FitzTransportError)"
  using assms connect_frame_length [OF assms(2)]
  by (simp add: connection_lost_def open_begin_def open_dialed_def send_frame_check_def set_state_def emit_def
      listener_simps Let_def)

end
