(* ===== verification/Effects.thy ===== *)
theory Effects
  imports Errors
begin

text \<open>
  Coroutines that touch shared state: a call maps the state to its result (an exception or a
  value) and the state it leaves. A sequence stops at the first exception, as \<open>await\<close> does.
\<close>

type_synonym ('s, 'a) io = "'s \<Rightarrow> (exn + 'a) \<times> 's"

definition io_return :: "'a \<Rightarrow> ('s, 'a) io" where
  "io_return x s = (Inr x, s)"

definition io_raise :: "exn \<Rightarrow> ('s, 'a) io" where
  "io_raise e s = (Inl e, s)"

definition io_lift :: "exn + 'a \<Rightarrow> ('s, 'a) io" where
  "io_lift r s = (r, s)"

definition io_gets :: "('s \<Rightarrow> 'a) \<Rightarrow> ('s, 'a) io" where
  "io_gets f s = (Inr (f s), s)"

definition io_modify :: "('s \<Rightarrow> 's) \<Rightarrow> ('s, unit) io" where
  "io_modify f s = (Inr (), f s)"

definition io_bind :: "('s, 'a) io \<Rightarrow> ('a \<Rightarrow> ('s, 'b) io) \<Rightarrow> ('s, 'b) io" where
  "io_bind m f s = (case m s of (Inl e, s') \<Rightarrow> (Inl e, s') | (Inr x, s') \<Rightarrow> f x s')"

abbreviation io_then :: "('s, 'a) io \<Rightarrow> ('s, 'b) io \<Rightarrow> ('s, 'b) io" where
  "io_then m n \<equiv> io_bind m (\<lambda>_. n)"

text \<open>\<open>if not b: raise e\<close>\<close>

definition io_check :: "bool \<Rightarrow> exn \<Rightarrow> ('s, unit) io" where
  "io_check b e = (if b then io_return () else io_raise e)"

lemma io_simps [simp]:
  "io_return x s = (Inr x, s)" "io_raise e s = (Inl e, s)" "io_lift r s = (r, s)"
  "io_gets f s = (Inr (f s), s)" "io_modify g s = (Inr (), g s)"
  "io_check b e s = (if b then Inr () else Inl e, s)"
  by (simp_all add: io_return_def io_raise_def io_lift_def io_gets_def io_modify_def io_check_def)

lemma io_bind_simps [simp]:
  "io_bind (io_return x) f s = f x s"
  "io_bind (io_raise e) f s = (Inl e, s)"
  "io_bind (io_lift (Inr x)) f s = f x s"
  "io_bind (io_lift (Inl e)) f s = (Inl e, s)"
  "io_bind (io_gets g) f s = f (g s) s"
  "io_bind (io_modify h) f' s = f' () (h s)"
  "io_bind (io_check b e) f' s = (if b then f' () s else (Inl e, s))"
  by (simp_all add: io_bind_def)

lemma io_bind_Inr: "m s = (Inr x, s') \<Longrightarrow> io_bind m f s = f x s'"
  by (simp add: io_bind_def)

lemma io_bind_Inl: "m s = (Inl e, s') \<Longrightarrow> io_bind m f s = (Inl e, s')"
  by (simp add: io_bind_def)

lemma io_bind_Inr_iff:
  "io_bind m f s = (Inr y, s'') \<longleftrightarrow> (\<exists>x s'. m s = (Inr x, s') \<and> f x s' = (Inr y, s''))"
  by (auto simp: io_bind_def split: prod.splits sum.splits)

lemma io_return_bind: "io_bind (io_return x) f = f x"
  by (simp add: fun_eq_iff)

lemma io_bind_assoc: "io_bind (io_bind m f) g = io_bind m (\<lambda>x. io_bind (f x) g)"
  by (auto simp: io_bind_def fun_eq_iff split: prod.splits sum.splits)

section \<open>What a call does to the state\<close>

text \<open>\<open>moves R m\<close>: whatever \<open>m\<close> ends with, the states before and after it are related by \<open>R\<close>.\<close>

definition moves :: "('s \<Rightarrow> 's \<Rightarrow> bool) \<Rightarrow> ('s, 'a) io \<Rightarrow> bool" where
  "moves R m \<longleftrightarrow> (\<forall>s. R s (snd (m s)))"

lemma moves_bind:
  assumes "transp R" "moves R m" "\<And>x. moves R (f x)"
  shows "moves R (io_bind m f)"
  unfolding moves_def
proof
  fix s
  obtain r s' where m: "m s = (r, s')" by fastforce
  then have "R s s'" using assms(2) by (auto simp: moves_def dest: spec [of _ s])
  then show "R s (snd (io_bind m f s))"
    using transpD [OF assms(1)] assms(3) m by (cases r) (auto simp: io_bind_def moves_def)
qed

lemma moves_D: "moves R m \<Longrightarrow> R s (snd (m s))"
  by (simp add: moves_def)

lemma moves_if: "moves R m \<Longrightarrow> moves R n \<Longrightarrow> moves R (if b then m else n)"
  by simp

lemma moves_still:
  "reflp R \<Longrightarrow> moves R (io_return x)" "reflp R \<Longrightarrow> moves R (io_raise e)"
  "reflp R \<Longrightarrow> moves R (io_lift r)" "reflp R \<Longrightarrow> moves R (io_gets g)"
  "reflp R \<Longrightarrow> moves R (io_check b e)"
  by (simp_all add: moves_def reflpD)

end
