(* ===== verification/Retry.thy ===== *)
theory Retry
  imports Connection Effects
begin

text \<open>
  The loops that try again: \<open>Connection.run_with_retry\<close> and \<open>Client.connect_when_ready\<close>. What
  attempt \<open>k\<close> ends with, the random factor of its sleep and the clock are functions of \<open>k\<close>.
\<close>

section \<open>Retrying an operation\<close>

text \<open>
  \<open>retry_from op jit m k n delay s\<close>: attempt \<open>k\<close> starts in state \<open>s\<close> with \<open>n\<close> attempts left,
  this one included. The result comes with the sleeps between the attempts; what happens
  during a sleep is part of the attempt that follows it.
\<close>

fun retry_from :: "('s, 'a) io \<Rightarrow> (nat \<Rightarrow> rat) \<Rightarrow> rat \<Rightarrow> nat \<Rightarrow> nat \<Rightarrow> rat \<Rightarrow> 's \<Rightarrow>
    ((exn + 'a) \<times> rat list) \<times> 's" where
  "retry_from op jit m k 0 delay s = ((Inl (OtherException 0), []), s)"
| "retry_from op jit m k (Suc n) delay s =
     (case op s of
        (Inr x, s') \<Rightarrow> ((Inr x, []), s')
      | (Inl e, s') \<Rightarrow>
          if n = 0 \<or> \<not> is_retryable e then ((Inl e, []), s')
          else apfst (apsnd (Cons (delay * jit k))) (retry_from op jit m (Suc k) n (min (delay * 2) m) s'))"

definition retry_attempts :: "retry_policy \<Rightarrow> bool \<Rightarrow> int" where
  "retry_attempts p replay_safe = (if rt_enabled p \<and> replay_safe then rt_max_attempts p else 1)"

definition run_with_retry ::
  "retry_policy \<Rightarrow> (nat \<Rightarrow> rat) \<Rightarrow> bool \<Rightarrow> ('s, 'a) io \<Rightarrow> 's \<Rightarrow> ((exn + 'a) \<times> rat list) \<times> 's" where
  "run_with_retry p jit replay_safe op s =
     retry_from op jit (finite_value (rt_max_backoff p)) 1 (nat (retry_attempts p replay_safe))
       (finite_value (rt_backoff p)) s"

text \<open>
  What the loop promises: \<open>i\<close> failed attempts were retried, and the next one, in the state they
  left, ended it.
\<close>

definition attempt_state :: "('s, 'a) io \<Rightarrow> 's \<Rightarrow> nat \<Rightarrow> 's" where
  "attempt_state op s i = ((\<lambda>t. snd (op t)) ^^ i) s"

definition retried ::
  "('s, 'a) io \<Rightarrow> rat \<Rightarrow> nat \<Rightarrow> 's \<Rightarrow> ((exn + 'a) \<times> rat list) \<times> 's \<Rightarrow> bool" where
  "retried op m n s r \<longleftrightarrow>
     (let i = length (snd (fst r)); outcome = (\<lambda>j. fst (op (attempt_state op s j))) in
      i < n \<and> (fst (fst r), snd r) = op (attempt_state op s i) \<and>
      (\<forall>j<i. \<exists>e. outcome j = Inl e \<and> is_retryable e) \<and>
      (\<forall>e. outcome i = Inl e \<longrightarrow> is_retryable e \<longrightarrow> Suc i = n) \<and>
      (\<forall>d\<in>set (snd (fst r)). 0 \<le> d \<and> d \<le> m * (6/5)))"

lemma attempt_state_simps [simp]:
  "attempt_state op s 0 = s" "attempt_state op s (Suc i) = attempt_state op (snd (op s)) i"
  by (simp_all add: attempt_state_def funpow_Suc_right del: funpow.simps(2))

lemma retried_Cons:
  assumes "retried op m n (snd (op s)) r" "fst (op s) = Inl e" "is_retryable e" "0 \<le> d" "d \<le> m * (6/5)"
  shows "retried op m (Suc n) s (apfst (apsnd (Cons d)) r)"
proof -
  have "\<exists>e. fst (op (attempt_state op s j)) = Inl e \<and> is_retryable e"
    if "j < Suc (length (snd (fst r)))" for j
    using that assms(1-3) by (cases j) (auto simp: retried_def Let_def)
  then show ?thesis using assms by (auto simp: retried_def Let_def)
qed

lemma retry_from_result:
  "0 < n \<Longrightarrow> 0 < delay \<Longrightarrow> delay \<le> m \<Longrightarrow> (\<And>k. 0 \<le> jit k \<and> jit k \<le> 6/5) \<Longrightarrow>
   retried op m n s (retry_from op jit m k n delay s)"
proof (induction n arbitrary: k delay s)
  case (Suc n)
  have j: "0 \<le> delay * jit k" "delay * jit k \<le> m * (6/5)"
    using Suc.prems(2,3) Suc.prems(4) [of k] by (simp, intro mult_mono) simp_all
  obtain r s' where op: "op s = (r, s')" by fastforce
  show ?case
  proof (cases r)
    case (Inl e)
    show ?thesis
    proof (cases "n = 0 \<or> \<not> is_retryable e")
      case False
      then have "retried op m n s' (retry_from op jit m (Suc k) n (min (delay * 2) m) s')"
        using Suc.IH Suc.prems by simp
      then show ?thesis using retried_Cons [of op m n s _ e] False Inl op j by simp
    qed (use Inl op in \<open>auto simp: retried_def\<close>)
  qed (use op in \<open>simp add: retried_def\<close>)
qed simp

text \<open>
  C14. run_with_retry makes at most max_attempts attempts (one when retrying is off or the
  operation is not replay safe), retries exactly the retryable failures before the last
  attempt, returns what the last attempt returned, and sleeps within the backoff bound.
\<close>

lemma run_with_retry_semantics:
  assumes "check_config g = None" "\<And>k. 0 \<le> jit k \<and> jit k \<le> 6/5"
  shows "retried op (finite_value (rt_max_backoff (retry g)))
      (if rt_enabled (retry g) \<and> safe then nat (rt_max_attempts (retry g)) else 1) s
      (run_with_retry (retry g) jit safe op s)"
proof -
  obtain b m where b: "rt_backoff (retry g) = Num b" "rt_max_backoff (retry g) = Num m" "0 < b" "b \<le> m"
    using check_config_ok(10) [OF assms(1)] by (auto simp: backoff_ok_def)
  have n: "0 < nat (retry_attempts (retry g) safe)"
    using check_config_ok(7) [OF assms(1)] by (auto simp: retry_attempts_def)
  have "(if rt_enabled (retry g) \<and> safe then nat (rt_max_attempts (retry g)) else 1) =
      nat (retry_attempts (retry g) safe)" by (simp add: retry_attempts_def)
  then show ?thesis using retry_from_result [OF n b(3,4) assms(2), where op = op and s = s and k = 1]
    by (simp add: run_with_retry_def b)
qed

lemma run_with_retry_semantics_witness:
  "retried (\<lambda>k. (if k < 3 then Inl FitzTimeoutError else Inr k, Suc k)) 1 3 (1::nat)
     (run_with_retry (retry (default_config [104])) (\<lambda>_. 1) True
       (\<lambda>k. (if k < 3 then Inl FitzTimeoutError else Inr k, Suc k)) 1)"
proof -
  have ok: "check_config (default_config [104]) = None"
    by (simp add: check_config_def default_config_def default_limits_def check_service_name_def
        positive_finite_def)
  have "\<And>k::nat. (0::rat) \<le> (\<lambda>_. 1) k \<and> (\<lambda>_. 1) k \<le> (6/5::rat)" by simp
  from run_with_retry_semantics [OF ok this,
      of "\<lambda>k. (if k < 3 then Inl FitzTimeoutError else Inr k, Suc k)" True "1::nat"]
  show ?thesis by (simp add: default_config_def)
qed

section \<open>Waiting for the broker\<close>

text \<open>\<open>Client.connect\<close> of a client that may have been closed by the \<open>k\<close>th attempt.\<close>

definition client_connect :: "(nat \<Rightarrow> bool) \<Rightarrow> (nat \<Rightarrow> exn option) \<Rightarrow> nat \<Rightarrow> exn option" where
  "client_connect shut conn k = (if shut k then Some FitzConnectionError else conn k)"

text \<open>
  The clock: what the \<open>k\<close>th attempt takes, what passes between the two readings of the
  clock after it failed, and how late the task wakes from its sleep.
\<close>

record clock =
  ck_attempt :: "nat \<Rightarrow> rat"
  ck_gap :: "nat \<Rightarrow> rat"
  ck_late :: "nat \<Rightarrow> rat"

definition not_ready :: "exn \<Rightarrow> bool" where
  "not_ready e \<longleftrightarrow> e = FitzTransportError \<or> e = FitzConnectionError"

definition ready_sleep :: "rat option \<Rightarrow> rat \<Rightarrow> rat \<Rightarrow> rat \<Rightarrow> rat" where
  "ready_sleep deadline delay factor now =
     (case deadline of
        None \<Rightarrow> delay * factor
      | Some d \<Rightarrow> min (delay * factor) (max 0 (d - now)))"

text \<open>
  \<open>ready_loop attempt jit ck deadline m k delay t\<close>: attempt \<open>k\<close> starts at time \<open>t\<close>. The result
  is the exception that leaves the loop, if one does, with the number of the last attempt;
  \<open>None\<close> when the loop never ends.
\<close>

partial_function (option) ready_loop ::
  "(nat \<Rightarrow> exn option) \<Rightarrow> (nat \<Rightarrow> rat) \<Rightarrow> clock \<Rightarrow> rat option \<Rightarrow> rat \<Rightarrow> nat \<Rightarrow> rat \<Rightarrow> rat \<Rightarrow>
   (exn option \<times> nat) option" where
  "ready_loop attempt jit ck deadline m k delay t =
     (case attempt k of
        None \<Rightarrow> Some (None, k)
      | Some e \<Rightarrow>
          let t1 = t + ck_attempt ck k; t2 = t1 + ck_gap ck k in
          if \<not> not_ready e then Some (Some e, k)
          else if (case deadline of None \<Rightarrow> False | Some d \<Rightarrow> d \<le> t1) then Some (Some e, k)
          else ready_loop attempt jit ck deadline m (Suc k) (min (delay * 2) m)
            (t2 + ready_sleep deadline delay (jit k) t2 + ck_late ck k))"

definition connect_when_ready ::
  "(nat \<Rightarrow> bool) \<Rightarrow> (nat \<Rightarrow> exn option) \<Rightarrow> (nat \<Rightarrow> rat) \<Rightarrow> clock \<Rightarrow> rat option \<Rightarrow> rat \<Rightarrow> rat \<Rightarrow> rat \<Rightarrow>
   (exn option \<times> nat) option" where
  "connect_when_ready shut conn jit ck timeout backoff max_backoff now =
     (if shut 0 then Some (Some FitzConnectionError, 0)
      else if (case timeout of None \<Rightarrow> False | Some x \<Rightarrow> x \<le> 0) then Some (Some PyValueError, 0)
      else if backoff \<le> 0 \<or> max_backoff < backoff then Some (Some PyValueError, 0)
      else ready_loop (client_connect shut conn) jit ck (map_option ((+) now) timeout) max_backoff
        1 backoff now)"

definition clock_ok :: "(nat \<Rightarrow> rat) \<Rightarrow> clock \<Rightarrow> bool" where
  "clock_ok jit ck \<longleftrightarrow> (\<forall>k. 4/5 \<le> jit k \<and> 0 \<le> ck_attempt ck k \<and> 0 \<le> ck_gap ck k \<and> 0 \<le> ck_late ck k)"

text \<open>A sleep brings the deadline or uses up four fifths of the smallest delay.\<close>

lemma ready_sleep_progress:
  assumes "0 < b" "b \<le> delay" "4/5 \<le> f" "now \<le> t'" "t' + ready_sleep (Some d) delay f t' \<le> t''"
    "d - now \<le> of_nat (Suc n) * (4/5 * b)"
  shows "d - t'' \<le> of_nat n * (4/5 * b)"
proof -
  have "b * (4/5) \<le> delay * f" using assms(1-3) by (intro mult_mono) simp_all
  moreover have "0 \<le> of_nat n * (4/5 * b)" using assms(1) by simp
  ultimately show ?thesis using assms(4-6)
    by (simp add: ready_sleep_def min_def max_def algebra_simps split: if_splits)
qed

definition settled_at :: "(nat \<Rightarrow> exn option) \<Rightarrow> nat \<Rightarrow> exn option \<Rightarrow> nat \<Rightarrow> bool" where
  "settled_at attempt k r i \<longleftrightarrow>
     k \<le> i \<and> r = attempt i \<and> (\<forall>j. k \<le> j \<longrightarrow> j < i \<longrightarrow> (\<exists>e. attempt j = Some e \<and> not_ready e))"

lemma settled_at_Suc:
  "settled_at attempt (Suc k) r i \<Longrightarrow> attempt k = Some e \<Longrightarrow> not_ready e \<Longrightarrow> settled_at attempt k r i"
  by (auto simp: settled_at_def) (metis Suc_leI le_neq_implies_less)

lemma ready_loop_deadline:
  assumes "clock_ok jit ck" "0 < b" "b \<le> m"
  shows "b \<le> delay \<Longrightarrow> d - t \<le> of_nat n * (4/5 * b) \<Longrightarrow>
    \<exists>r i. ready_loop attempt jit ck (Some d) m k delay t = Some (r, i) \<and>
      settled_at attempt k r i \<and> i \<le> k + n"
proof (induction n arbitrary: k delay t)
  case 0
  have "d \<le> t + ck_attempt ck k" using 0(2) assms(1) by (simp add: clock_ok_def add_increasing2)
  then show ?case
    by (subst ready_loop.simps) (simp add: settled_at_def Let_def split: option.splits)
next
  case (Suc n)
  let ?t2 = "t + ck_attempt ck k + ck_gap ck k"
  let ?t' = "?t2 + ready_sleep (Some d) delay (jit k) ?t2 + ck_late ck k"
  let ?d = "min (delay * 2) m"
  have ck: "4/5 \<le> jit k" "0 \<le> ck_attempt ck k" "0 \<le> ck_gap ck k" "0 \<le> ck_late ck k"
    using assms(1) by (simp_all add: clock_ok_def)
  have d: "b \<le> ?d" using Suc.prems(1) assms(2,3) by simp
  have left: "d - ?t' \<le> of_nat n * (4/5 * b)"
    using ck by (intro ready_sleep_progress
        [OF assms(2) Suc.prems(1) ck(1) _ _ Suc.prems(2), of ?t2]) simp_all
  from Suc.IH [OF d left, of "Suc k"] obtain r i where
    ri: "ready_loop attempt jit ck (Some d) m (Suc k) ?d ?t' = Some (r, i)"
      "settled_at attempt (Suc k) r i" "i \<le> Suc k + n" by blast
  show ?case
  proof (cases "\<exists>e. attempt k = Some e \<and> not_ready e \<and> \<not> d \<le> t + ck_attempt ck k")
    case True
    then show ?thesis using ri settled_at_Suc [OF ri(2)]
      by (subst ready_loop.simps) (auto simp: Let_def)
  next
    case False
    then show ?thesis
      by (subst ready_loop.simps) (auto simp: Let_def settled_at_def split: option.splits)
  qed
qed


text \<open>
  Without one, a client that is closed while the loop sleeps keeps it going for ever: the
  refusal of a closed client is an \<open>FitzConnectionError\<close>, which the loop takes for a broker
  that is not there yet.
\<close>

definition never_ready :: "(nat \<Rightarrow> exn option) \<Rightarrow> nat \<Rightarrow> bool" where
  "never_ready attempt k \<longleftrightarrow> (\<forall>j\<ge>k. \<exists>e. attempt j = Some e \<and> not_ready e)"

lemma never_ready_step: "never_ready attempt k \<Longrightarrow> \<exists>e. attempt k = Some e \<and> not_ready e"
  and never_ready_Suc: "never_ready attempt k \<Longrightarrow> never_ready attempt (Suc k)"
  by (simp_all add: never_ready_def)

lemma ready_loop_ends:
  assumes "ready_loop attempt jit ck deadline m k delay t = Some y"
  shows "deadline = None \<longrightarrow> never_ready attempt k \<longrightarrow> False"
proof (rule ready_loop.raw_induct [OF _ assms, where
      P = "\<lambda>attempt jit ck deadline m k delay t y. deadline = None \<longrightarrow> never_ready attempt k \<longrightarrow> False"])
  fix rec attempt jit ck deadline m k delay t y
  assume IH: "\<And>attempt jit ck deadline m k delay t y.
      rec attempt jit ck deadline m k delay t = Some y \<Longrightarrow>
      deadline = None \<longrightarrow> never_ready attempt k \<longrightarrow> False"
    and eq: "(case attempt k of
        None \<Rightarrow> Some (None, k)
      | Some e \<Rightarrow>
          let t1 = t + ck_attempt ck k; t2 = t1 + ck_gap ck k in
          if \<not> not_ready e then Some (Some e, k)
          else if (case deadline of None \<Rightarrow> False | Some d \<Rightarrow> d \<le> t1) then Some (Some e, k)
          else rec attempt jit ck deadline m (Suc k) (min (delay * 2) m)
            (t2 + ready_sleep deadline delay (jit k) t2 + ck_late ck k)) = Some y"
  show "deadline = None \<longrightarrow> never_ready attempt k \<longrightarrow> False"
  proof (intro impI)
    assume None: "deadline = None" and never: "never_ready attempt k"
    from never_ready_step [OF never] obtain e where "attempt k = Some e" "not_ready e" by blast
    with eq None show False using IH never_ready_Suc [OF never] by (simp add: Let_def)
  qed
qed

text \<open>
  Without a timeout connect_when_ready never returns once the client is closed while it waits.
\<close>

lemma connect_when_ready_forever:
  assumes "\<And>j. 1 \<le> j \<Longrightarrow> shut j" "0 < b" "b \<le> m" "\<not> shut 0"
  shows "connect_when_ready shut conn jit ck None b m now = None"
proof (cases "ready_loop (client_connect shut conn) jit ck None m 1 b now")
  case (Some y)
  from ready_loop_ends [OF this] assms(1) show ?thesis
    by (simp add: never_ready_def client_connect_def not_ready_def)
qed (use assms in \<open>simp add: connect_when_ready_def\<close>)

definition tick :: clock where
  "tick = \<lparr>ck_attempt = \<lambda>_. 1/10, ck_gap = \<lambda>_. 0, ck_late = \<lambda>_. 0\<rparr>"


lemma connect_when_ready_forever_witness:
  "connect_when_ready (\<lambda>k. 1 \<le> k) (\<lambda>_. None) (\<lambda>_. 1) tick None (1/4) 2 0 = None"
  by (rule connect_when_ready_forever) simp_all

end
