(* ===== verification/Transport.thy ===== *)
theory Transport
  imports Config Effects
begin

text \<open>
  \<open>transport/tcp.py\<close> and \<open>transport/websocket.py\<close>. A TCP transport is its two byte streams: what
  has arrived and not been read, and what has been written. How an awaited call of asyncio or of
  the \<open>websockets\<close> package ends is an argument. The lemmas show that the length prefix recovers
  the messages of the peer whatever way TCP cuts the bytes into pieces.
\<close>

section \<open>TCP\<close>

record tcp =
  t_connected :: bool
  t_limit :: int
  t_in :: bytes
  t_eof :: bool
  t_out :: bytes

text \<open>How a wait ended.\<close>

datatype io_end = Finished | Timed_out | Broken | Cancelled

definition new_tcp :: "int \<Rightarrow> tcp" where
  "new_tcp limit = \<lparr>t_connected = False, t_limit = limit, t_in = [], t_eof = False, t_out = []\<rparr>"

definition tcp_connect :: "io_end \<Rightarrow> (tcp, unit) io" where
  "tcp_connect w t =
     (case w of
        Finished \<Rightarrow> (Inr (), t\<lparr>t_connected := True, t_in := [], t_eof := False, t_out := []\<rparr>)
      | Timed_out \<Rightarrow> (Inl FitzTimeoutError, t)
      | Broken \<Rightarrow> (Inl FitzTransportError, t)
      | Cancelled \<Rightarrow> (Inl CancelledError, t))"

text \<open>Both ends are dropped first; a failure of \<open>wait_closed\<close> is ignored.\<close>

definition tcp_close :: "io_end \<Rightarrow> (tcp, unit) io" where
  "tcp_close w t =
     (if \<not> t_connected t then (Inr (), t)
      else (if w = Cancelled then Inl CancelledError else Inr (), t\<lparr>t_connected := False\<rparr>))"

definition tcp_send :: "io_end \<Rightarrow> bytes \<Rightarrow> (tcp, unit) io" where
  "tcp_send w data t =
     (if \<not> t_connected t then (Inl FitzTransportError, t)
      else if int (length data) > t_limit t then (Inl FitzTransportError, t)
      else case pack OverflowError 4 (int (length data)) of
        Inl e \<Rightarrow> (Inl e, t)
      | Inr header \<Rightarrow>
          (case w of
             Finished \<Rightarrow> Inr ()
           | Timed_out \<Rightarrow> Inl FitzTimeoutError
           | Broken \<Rightarrow> Inl FitzTransportError
           | Cancelled \<Rightarrow> Inl CancelledError,
           t\<lparr>t_out := t_out t @ header @ data\<rparr>))"

text \<open>
  \<open>StreamReader.readexactly\<close>: the next \<open>n\<close> bytes, or the end of the stream, which empties the
  buffer, or \<open>None\<close> while more bytes may come.
\<close>

definition readexactly :: "nat \<Rightarrow> tcp \<Rightarrow> (bytes option \<times> tcp) option" where
  "readexactly n t =
     (if n \<le> length (t_in t) then Some (Some (take n (t_in t)), t\<lparr>t_in := drop n (t_in t)\<rparr>)
      else if t_eof t then Some (None, t\<lparr>t_in := []\<rparr>)
      else None)"

text \<open>\<open>receive\<close>; \<open>None\<close> while it waits.\<close>

definition tcp_receive :: "tcp \<Rightarrow> ((exn + bytes) \<times> tcp) option" where
  "tcp_receive t =
     (if \<not> t_connected t then Some (Inl FitzTransportError, t)
      else case readexactly 4 t of
        None \<Rightarrow> None
      | Some (None, t1) \<Rightarrow> Some (Inl FitzTransportError, t1)
      | Some (Some header, t1) \<Rightarrow>
          let n = be_int header in
          if n > t_limit t1 then Some (Inl FitzTransportError, t1)
          else (case readexactly (nat n) t1 of
                  None \<Rightarrow> None
                | Some (None, t2) \<Rightarrow> Some (Inl FitzTransportError, t2)
                | Some (Some data, t2) \<Rightarrow> Some (Inr data, t2)))"

definition tcp_set_max_frame_size :: "int \<Rightarrow> (tcp, unit) io" where
  "tcp_set_max_frame_size n t = (if n < 15 then (Inl PyValueError, t) else (Inr (), t\<lparr>t_limit := n\<rparr>))"

definition tcp_heartbeat :: "bool \<Rightarrow> io_end \<Rightarrow> (tcp, unit) io" where
  "tcp_heartbeat closing w t =
     (if \<not> t_connected t \<or> closing then Inl FitzTransportError
      else case w of Finished \<Rightarrow> Inr () | Cancelled \<Rightarrow> Inl CancelledError | _ \<Rightarrow> Inl FitzTransportError, t)"

section \<open>WebSocket\<close>

record ws =
  w_connected :: bool
  w_limit :: int
  w_max_size :: int  \<comment> \<open>the limit the socket was opened with\<close>
  w_out :: "bytes list"

datatype ws_message = Text ustr | Binary bytes

definition ws_outcome :: "io_end \<Rightarrow> exn + unit" where
  "ws_outcome w = (case w of Finished \<Rightarrow> Inr () | Cancelled \<Rightarrow> Inl CancelledError | _ \<Rightarrow> Inl FitzTransportError)"

definition ws_connect :: "io_end \<Rightarrow> (ws, unit) io" where
  "ws_connect w s =
     (ws_outcome w, if w = Finished then s\<lparr>w_connected := True, w_max_size := w_limit s\<rparr> else s)"

definition ws_close :: "io_end \<Rightarrow> (ws, unit) io" where
  "ws_close w s =
     (if \<not> w_connected s then (Inr (), s)
      else (if w = Cancelled then Inl CancelledError else Inr (), s\<lparr>w_connected := False\<rparr>))"

definition ws_send :: "io_end \<Rightarrow> bytes \<Rightarrow> (ws, unit) io" where
  "ws_send w data s =
     (if \<not> w_connected s then (Inl FitzTransportError, s)
      else if int (length data) > w_limit s then (Inl FitzTransportError, s)
      else (ws_outcome w, s\<lparr>w_out := w_out s @ [data]\<rparr>))"

definition ws_receive :: "(exn + ws_message) \<Rightarrow> (ws, bytes) io" where
  "ws_receive m s =
     (if \<not> w_connected s then (Inl FitzTransportError, s)
      else case m of
        Inl CancelledError \<Rightarrow> (Inl CancelledError, s)
      | Inl _ \<Rightarrow> (Inl FitzTransportError, s)
      | Inr (Text _) \<Rightarrow> (Inl FitzTransportError, s)
      | Inr (Binary data) \<Rightarrow> (Inr data, s))"

definition ws_set_max_frame_size :: "int \<Rightarrow> (ws, unit) io" where
  "ws_set_max_frame_size n s = (if n < 15 then (Inl PyValueError, s) else (Inr (), s\<lparr>w_limit := n\<rparr>))"

definition ws_heartbeat :: "io_end \<Rightarrow> (ws, unit) io" where
  "ws_heartbeat w s = (if \<not> w_connected s then Inl FitzTransportError else ws_outcome w, s)"

section \<open>Receiving everything that has arrived\<close>

lemma tcp_receive_shrinks:
  assumes "tcp_receive t = Some (Inr data, t')"
  shows "length (t_in t') < length (t_in t)"
  using assms by (auto simp: tcp_receive_def readexactly_def Let_def split: if_splits)

text \<open>The receive loop of the connection, until it waits or fails.\<close>

function receive_all :: "tcp \<Rightarrow> (bytes list \<times> exn option) \<times> tcp" where
  "receive_all t =
     (case tcp_receive t of
        None \<Rightarrow> (([], None), t)
      | Some (Inl e, t') \<Rightarrow> (([], Some e), t')
      | Some (Inr data, t') \<Rightarrow> apfst (apfst (Cons data)) (receive_all t'))"
  by auto
termination by (relation "measure (\<lambda>t. length (t_in t))") (auto dest: tcp_receive_shrinks)

declare receive_all.simps [simp del]

definition arrive :: "bytes \<Rightarrow> tcp \<Rightarrow> tcp" where
  "arrive bs t = t\<lparr>t_in := t_in t @ bs\<rparr>"

lemma arrive_simps [simp]:
  "arrive (a @ b) t = arrive b (arrive a t)" "t_connected (arrive a t) = t_connected t"
  "t_limit (arrive a t) = t_limit t" "t_eof (arrive a t) = t_eof t" "t_in (arrive a t) = t_in t @ a"
  by (simp_all add: arrive_def)

text \<open>More bytes do not change what an undisturbed receive has decided.\<close>

lemma readexactly_arrive:
  "readexactly n t = Some (x, t') \<Longrightarrow> \<not> t_eof t \<Longrightarrow> readexactly n (arrive b t) = Some (x, arrive b t')"
  by (auto simp: readexactly_def arrive_def split: if_splits)

lemma tcp_receive_arrive:
  assumes "tcp_receive t = Some (r, t')" "\<not> t_eof t"
  shows "tcp_receive (arrive b t) = Some (r, arrive b t')" "\<not> t_eof t'"
  using assms
  by (auto simp: tcp_receive_def readexactly_def arrive_def Let_def split: if_splits)

lemma receive_all_arrive:
  "\<not> t_eof t \<Longrightarrow> receive_all (arrive b t) =
    (case receive_all t of
       ((ms, Some e), t') \<Rightarrow> ((ms, Some e), arrive b t')
     | ((ms, None), t') \<Rightarrow> (case receive_all (arrive b t') of ((ns, e), t'') \<Rightarrow> ((ms @ ns, e), t'')))"
proof (induction t rule: receive_all.induct)
  case (1 t)
  show ?case
  proof (cases "tcp_receive t")
    case None
    then show ?thesis by (simp add: receive_all.simps [of t] split: prod.split)
  next
    case (Some p)
    obtain r t' where p: "p = (r, t')" by (cases p)
    note more = tcp_receive_arrive(1) [OF Some [unfolded p] 1(2), where b = b]
      tcp_receive_arrive(2) [OF Some [unfolded p] 1(2)]
    show ?thesis
    proof (cases r)
      case (Inl e)
      then show ?thesis using Some p more(1)
        by (simp add: receive_all.simps [of t] receive_all.simps [of "arrive b t"])
    next
      case (Inr data)
      have "receive_all (arrive b t') =
        (case receive_all t' of
           ((ms, Some e), t'') \<Rightarrow> ((ms, Some e), arrive b t'')
         | ((ms, None), t'') \<Rightarrow> (case receive_all (arrive b t'') of ((ns, e), t3) \<Rightarrow> ((ms @ ns, e), t3)))"
        using 1(1) [OF Some p [symmetric] Inr more(2)] .
      then show ?thesis using Some p Inr more(1)
        by (auto simp: receive_all.simps [of t] receive_all.simps [of "arrive b t"]
            split: prod.splits option.splits)
    qed
  qed
qed

text \<open>The loop beside a peer whose bytes arrive in pieces; it ends with the first exception.\<close>

fun feed :: "bytes list \<Rightarrow> tcp \<Rightarrow> (bytes list \<times> exn option) \<times> tcp" where
  "feed [] t = (([], None), t)"
| "feed (b # bs) t =
     (case receive_all (arrive b t) of
        ((ms, Some e), t') \<Rightarrow> ((ms, Some e), t')
      | ((ms, None), t') \<Rightarrow> apfst (apfst ((@) ms)) (feed bs t'))"

lemma receive_all_eof: "\<not> t_eof t \<Longrightarrow> \<not> t_eof (snd (receive_all t))"
proof (induction t rule: receive_all.induct)
  case (1 t)
  then show ?case
    using tcp_receive_arrive(2) [of t]
    by (subst receive_all.simps) (auto split: option.split sum.split prod.split)
qed

lemma receive_all_waits: "snd (fst (receive_all t)) = None \<Longrightarrow> tcp_receive (snd (receive_all t)) = None"
proof (induction t rule: receive_all.induct)
  case (1 t)
  show ?case
  proof (cases "tcp_receive t")
    case None
    then show ?thesis by (simp add: receive_all.simps [of t])
  next
    case (Some p)
    obtain r t' where p: "p = (r, t')" by (cases p)
    show ?thesis
    proof (cases r)
      case (Inl e)
      then show ?thesis using Some p 1(2) by (simp add: receive_all.simps [of t])
    next
      case (Inr data)
      then show ?thesis using 1(1) [OF Some p [symmetric] Inr] 1(2) Some p by (simp add: receive_all.simps [of t])
    qed
  qed
qed

text \<open>However the bytes are cut, the messages and the exception are those of the whole.\<close>

lemma feed_chunks:
  assumes "\<not> t_eof t" "tcp_receive t = None"
  shows "fst (feed bs t) = fst (receive_all (arrive (concat bs) t))"
  using assms
proof (induction bs arbitrary: t)
  case Nil
  then show ?case by (simp add: receive_all.simps arrive_def)
next
  case (Cons b bs)
  obtain ms e t' where b: "receive_all (arrive b t) = ((ms, e), t')" by (metis prod.collapse)
  have eof: "\<not> t_eof t'" using receive_all_eof [of "arrive b t"] Cons.prems(1) b by simp
  show ?case
  proof (cases e)
    case None
    then have "fst (feed bs t') = fst (receive_all (arrive (concat bs) t'))"
      using Cons.IH [OF eof] receive_all_waits [of "arrive b t"] b by simp
    then show ?thesis using b None receive_all_arrive [of "arrive b t" "concat bs"] Cons.prems(1)
      by (auto simp: prod_eq_iff split: prod.splits)
  next
    case (Some x)
    then show ?thesis using b receive_all_arrive [of "arrive b t" "concat bs"] Cons.prems(1)
      by simp
  qed
qed

section \<open>Both ends\<close>

definition framed :: "bytes \<Rightarrow> bytes" where
  "framed m = be_bytes 4 (int (length m)) @ m"

text \<open>What a sender writes for messages within the limit of both sides.\<close>

fun send_all :: "bytes list \<Rightarrow> tcp \<Rightarrow> exn option \<times> tcp" where
  "send_all [] t = (None, t)"
| "send_all (m # ms) t = (case tcp_send Finished m t of (Inl e, t') \<Rightarrow> (Some e, t') | (Inr _, t') \<Rightarrow> send_all ms t')"

lemma send_all_out:
  "send_all ms t = (None, t') \<Longrightarrow>
   t_out t' = t_out t @ concat (map framed ms) \<and> (\<forall>m\<in>set ms. int (length m) < 4294967296)"
proof (induction ms arbitrary: t)
  case (Cons m ms)
  obtain r t1 where s: "tcp_send Finished m t = (r, t1)" by fastforce
  with Cons.prems have ok: "r = Inr ()" "send_all ms t1 = (None, t')" by (auto split: sum.splits)
  have "t_out t1 = t_out t @ framed m" "int (length m) < 4294967296"
    using s ok(1) by (auto simp: tcp_send_def framed_def pack_Inr_iff split: if_splits sum.splits)
  then show ?case using Cons.IH [OF ok(2)] by simp
qed simp

lemma receive_framed:
  assumes "t_connected t" "int (length m) < 4294967296" "int (length m) \<le> t_limit t"
    "t_in t = framed m @ rest"
  shows "tcp_receive t = Some (Inr m, t\<lparr>t_in := rest\<rparr>)"
  using assms by (simp add: tcp_receive_def readexactly_def framed_def Let_def)

lemma receive_all_framed:
  assumes "t_connected t" "\<not> t_eof t"
  shows "\<forall>m\<in>set ms. int (length m) < 4294967296 \<and> int (length m) \<le> t_limit t \<Longrightarrow>
    t_in t = concat (map framed ms) \<Longrightarrow> receive_all t = ((ms, None), t\<lparr>t_in := []\<rparr>)"
  using assms
proof (induction ms arbitrary: t)
  case Nil
  then show ?case by (subst receive_all.simps) (simp add: tcp_receive_def readexactly_def)
next
  case (Cons m ms)
  have "tcp_receive t = Some (Inr m, t\<lparr>t_in := concat (map framed ms)\<rparr>)"
    using Cons.prems by (intro receive_framed) simp_all
  then show ?case using Cons.IH [of "t\<lparr>t_in := concat (map framed ms)\<rparr>"] Cons.prems
    by (subst receive_all.simps) simp
qed

text \<open>
  C18. However TCP cuts the bytes a peer sent into pieces, receive returns the messages of the
  peer, in order and complete, and then waits.
\<close>

lemma tcp_stream_roundtrip:
  assumes "send_all ms s = (None, s')" "t_out s = []" "t_connected t" "\<not> t_eof t" "t_in t = []"
    "t_limit s \<le> t_limit t" "concat pieces = t_out s'"
  shows "fst (feed pieces t) = (ms, None)"
proof -
  have out: "t_out s' = concat (map framed ms)" "\<forall>m\<in>set ms. int (length m) < 4294967296"
    using send_all_out [OF assms(1)] assms(2) by simp_all
  have "\<forall>m\<in>set ms. int (length m) \<le> t_limit s" using assms(1)
  proof (induction ms arbitrary: s)
    case (Cons m ms)
    then show ?case
      by (fastforce simp: tcp_send_def split: if_splits sum.splits)
  qed simp
  then have "receive_all (arrive (concat pieces) t) = ((ms, None), arrive (concat pieces) t\<lparr>t_in := []\<rparr>)"
    using assms out by (intro receive_all_framed) (auto dest: order_trans)
  moreover have "tcp_receive t = None" using assms by (simp add: tcp_receive_def readexactly_def)
  ultimately show ?thesis using feed_chunks [OF assms(4)] by simp
qed

text \<open>A frame over the limit ends the loop after the messages before it.\<close>

lemma oversized_frame_refused:
  assumes "t_connected t" "t_limit t < be_int (take 4 (t_in t))" "4 \<le> length (t_in t)"
  shows "\<exists>t'. tcp_receive t = Some (Inl FitzTransportError, t')"
  using assms by (simp add: tcp_receive_def readexactly_def Let_def)

lemma tcp_stream_roundtrip_witness:
  "fst (feed [[0, 0], [0, 2, 5, 6, 0], [0, 0, 1], [7]]
     \<lparr>t_connected = True, t_limit = 15, t_in = [], t_eof = False, t_out = []\<rparr>) = ([[5, 6], [7]], None)"
proof -
  let ?s = "\<lparr>t_connected = True, t_limit = 15, t_in = [], t_eof = False, t_out = []\<rparr>"
  have "send_all [[5, 6], [7]] ?s = (None, ?s\<lparr>t_out := [0, 0, 0, 2, 5, 6, 0, 0, 0, 1, 7]\<rparr>)" by code_simp
  from tcp_stream_roundtrip [OF this, where t = ?s] show ?thesis by (simp del: feed.simps)
qed

lemma oversized_frame_refused_witness:
  "\<exists>t'. tcp_receive \<lparr>t_connected = True, t_limit = 15, t_in = [0, 0, 0, 16], t_eof = False, t_out = []\<rparr> =
     Some (Inl FitzTransportError, t')"
  by (rule oversized_frame_refused) (simp_all add: be_int_def)

end
