(* ===== verification/Lazy.thy ===== *)
theory Lazy
  imports Errors
begin

text \<open>
  \<open>_runtime.LazyAsyncIterator\<close> and \<open>LazyAsyncContext\<close>: a resource opened on first use under a
  start lock. Callers interleave at their awaits (the lock, the factory, the closing of a
  resource); resources are numbers. \<open>z_closing\<close> lists the resources whose closing has been
  called, \<open>z_swept\<close> whether some \<open>aclose\<close> has had the lock.
\<close>

section \<open>State and steps\<close>

datatype lock_holder = Creating | Discarding | Closing

record lazy =
  z_resource :: "nat option"
  z_closed :: bool
  z_lock :: "lock_holder option"
  z_created :: "nat list"
  z_closing :: "nat list"
  z_swept :: bool

definition new_lazy :: lazy where
  "new_lazy = \<lparr>z_resource = None, z_closed = False, z_lock = None, z_created = [], z_closing = [],
     z_swept = False\<rparr>"

text \<open>
  \<open>getattr(resource, "aclose", None)\<close>: \<open>closable\<close> tells which resources have something to call;
  a context has a closing function for all of them.
\<close>

definition call_close :: "(nat \<Rightarrow> bool) \<Rightarrow> nat \<Rightarrow> lock_holder \<Rightarrow> lazy \<Rightarrow> lazy" where
  "call_close closable r why z =
     (if closable r then z\<lparr>z_closing := z_closing z @ [r], z_lock := Some why\<rparr> else z\<lparr>z_lock := None\<rparr>)"

text \<open>
  \<open>_start\<close> once it has the lock: an exception, the resource there is, or the factory is called
  (\<open>None\<close>) with the lock held.
\<close>

definition start_locked :: "lazy \<Rightarrow> (exn + nat) option \<times> lazy" where
  "start_locked z =
     (if z_closed z then (Some (Inl FitzConnectionError), z)
      else case z_resource z of
        Some r \<Rightarrow> (Some (Inr r), z)
      | None \<Rightarrow> (None, z\<lparr>z_lock := Some Creating\<rparr>))"

text \<open>The factory ended. A resource that comes after the closing is given back at once.\<close>

definition factory_ended :: "(nat \<Rightarrow> bool) \<Rightarrow> exn + nat \<Rightarrow> lazy \<Rightarrow> (exn + nat) option \<times> lazy" where
  "factory_ended closable answer z =
     (case answer of
        Inl e \<Rightarrow> (Some (Inl e), z\<lparr>z_lock := None\<rparr>)
      | Inr r \<Rightarrow>
          let z = z\<lparr>z_created := z_created z @ [r]\<rparr>
          in if z_closed z
             then (if closable r then None else Some (Inl FitzConnectionError), call_close closable r Discarding z)
             else (Some (Inr r), z\<lparr>z_resource := Some r, z_lock := None\<rparr>))"

text \<open>The closing of a late resource ended, by itself or with an exception of its own.\<close>

definition discard_ended :: "exn option \<Rightarrow> lazy \<Rightarrow> exn \<times> lazy" where
  "discard_ended failed z =
     (case failed of None \<Rightarrow> FitzConnectionError | Some e \<Rightarrow> e, z\<lparr>z_lock := None\<rparr>)"

definition aclose_mark :: "lazy \<Rightarrow> lazy" where
  "aclose_mark z = z\<lparr>z_closed := True\<rparr>"

definition aclose_locked :: "(nat \<Rightarrow> bool) \<Rightarrow> lazy \<Rightarrow> lazy" where
  "aclose_locked closable z =
     (let z = z\<lparr>z_swept := True\<rparr> in
      case z_resource z of
        None \<Rightarrow> z
      | Some r \<Rightarrow> call_close closable r Closing (z\<lparr>z_resource := None\<rparr>))"

definition aclose_ended :: "lazy \<Rightarrow> lazy" where
  "aclose_ended z = z\<lparr>z_lock := None\<rparr>"

inductive lazy_step :: "(nat \<Rightarrow> bool) \<Rightarrow> lazy \<Rightarrow> lazy \<Rightarrow> bool" for closable where
  start: "z_lock z = None \<Longrightarrow> lazy_step closable z (snd (start_locked z))"
| made: "z_lock z = Some Creating \<Longrightarrow> (\<And>r. answer = Inr r \<Longrightarrow> r \<notin> set (z_created z)) \<Longrightarrow>
    lazy_step closable z (snd (factory_ended closable answer z))"
| discarded: "z_lock z = Some Discarding \<Longrightarrow> lazy_step closable z (snd (discard_ended failed z))"
| mark: "lazy_step closable z (aclose_mark z)"
| sweep: "z_lock z = None \<Longrightarrow> z_closed z \<Longrightarrow> lazy_step closable z (aclose_locked closable z)"
| closed: "z_lock z = Some Closing \<Longrightarrow> lazy_step closable z (aclose_ended z)"

section \<open>A context is the case where every resource can be closed\<close>

definition context_factory_ended :: "exn + nat \<Rightarrow> lazy \<Rightarrow> (exn + nat) option \<times> lazy" where
  "context_factory_ended = factory_ended (\<lambda>_. True)"

definition context_aclose_locked :: "lazy \<Rightarrow> lazy" where
  "context_aclose_locked = aclose_locked (\<lambda>_. True)"

section \<open>No resource is lost, opened twice or closed twice\<close>

definition lazy_inv :: "(nat \<Rightarrow> bool) \<Rightarrow> lazy \<Rightarrow> bool" where
  "lazy_inv closable z \<longleftrightarrow>
     distinct (z_created z) \<and> distinct (z_closing z) \<and>
     set (z_closing z) = {r \<in> set (z_created z). closable r \<and> z_resource z \<noteq> Some r} \<and>
     set_option (z_resource z) \<subseteq> set (z_created z) \<and>
     (z_lock z = Some Creating \<longrightarrow> z_resource z = None) \<and>
     (z_swept z \<longrightarrow> z_closed z \<and> z_resource z = None)"

lemma lazy_inv_new: "lazy_inv closable new_lazy"
  by (simp add: lazy_inv_def new_lazy_def)

lemma lazy_inv_step: "lazy_step closable z z' \<Longrightarrow> lazy_inv closable z \<Longrightarrow> lazy_inv closable z'"
proof (induction rule: lazy_step.induct)
  case (start z)
  then show ?case by (auto simp: start_locked_def lazy_inv_def split: option.splits)
next
  case (made z answer)
  then show ?case
    by (cases answer) (auto simp: factory_ended_def call_close_def lazy_inv_def Let_def)
next
  case (sweep z)
  then show ?case
    by (cases "z_resource z") (auto simp: aclose_locked_def call_close_def lazy_inv_def Let_def)
qed (auto simp: discard_ended_def aclose_mark_def aclose_ended_def lazy_inv_def)

text \<open>
  C22. However opening, closing and the end of the factory interleave, no resource is closed twice,
  and once a closing has had the lock every resource ever created that can be closed has been
  closed.
\<close>

lemma lazy_no_leak:
  assumes "(lazy_step closable)\<^sup>*\<^sup>* new_lazy z"
  shows "distinct (z_closing z) \<and> set (z_closing z) \<subseteq> set (z_created z) \<and>
    (z_swept z \<longrightarrow> z_resource z = None \<and> set (z_closing z) = {r \<in> set (z_created z). closable r})"
proof -
  have "lazy_inv closable z" using assms
    by (induction rule: rtranclp_induct) (auto simp: lazy_inv_new intro: lazy_inv_step)
  then show ?thesis by (auto simp: lazy_inv_def)
qed

text \<open>Two callers and an \<open>aclose\<close> that overtakes the factory: the late resource is given back.\<close>

lemma lazy_no_leak_witness:
  "let z = snd (factory_ended (\<lambda>_. True) (Inr 7) (aclose_mark (snd (start_locked new_lazy)))) in
     distinct (z_closing z) \<and> set (z_closing z) \<subseteq> {7} \<and>
     set (z_closing (aclose_locked (\<lambda>_. True) (snd (discard_ended None z)))) = {7}"
proof -
  let ?a = "snd (start_locked new_lazy)"
  let ?b = "aclose_mark ?a"
  let ?c = "snd (factory_ended (\<lambda>_. True) (Inr 7) ?b)"
  let ?d = "snd (discard_ended None ?c)"
  let ?e = "aclose_locked (\<lambda>_. True) ?d"
  have "lazy_step (\<lambda>_. True) new_lazy ?a" by (rule lazy_step.start) (simp add: new_lazy_def)
  moreover have "lazy_step (\<lambda>_. True) ?a ?b" by (rule lazy_step.mark)
  moreover have "lazy_step (\<lambda>_. True) ?b ?c"
    by (rule lazy_step.made) (simp_all add: start_locked_def new_lazy_def aclose_mark_def)
  moreover have "lazy_step (\<lambda>_. True) ?c ?d"
    by (rule lazy_step.discarded)
      (simp add: factory_ended_def call_close_def start_locked_def new_lazy_def aclose_mark_def)
  moreover have "lazy_step (\<lambda>_. True) ?d ?e"
    by (rule lazy_step.sweep) (simp_all add: factory_ended_def call_close_def start_locked_def new_lazy_def
        aclose_mark_def discard_ended_def)
  ultimately have c: "(lazy_step (\<lambda>_. True))\<^sup>*\<^sup>* new_lazy ?c" and e: "(lazy_step (\<lambda>_. True))\<^sup>*\<^sup>* new_lazy ?e"
    by (meson rtranclp.rtrancl_into_rtrancl rtranclp.rtrancl_refl)+
  show ?thesis
    using lazy_no_leak [OF c] lazy_no_leak [OF e]
    by (auto simp: Let_def factory_ended_def call_close_def start_locked_def new_lazy_def aclose_mark_def
        discard_ended_def aclose_locked_def)
qed

end
