(* ===== verification/Link.thy ===== *)
theory Link
  imports Retry Response Registry
begin

text \<open>
  What the domain clients use of the connection: requests, one-way frames, the generation of
  the session, the notification of a lost connection and the retry loop. A link is a record of
  these over any state; \<open>Requests\<close> builds one from the connection of \<open>Connection\<close>.
\<close>

section \<open>Links\<close>

record 's link =
  lk_request :: "int \<Rightarrow> bytes \<Rightarrow> int \<Rightarrow> ('s, bytes) io"
    \<comment> \<open>message type, payload, flags\<close>
  lk_send :: "int \<Rightarrow> bytes \<Rightarrow> ('s, unit) io"
  lk_generation :: "'s \<Rightarrow> int"
  lk_losses :: "'s \<Rightarrow> nat"
    \<comment> \<open>how often the disconnect listeners have been called\<close>
  lk_capabilities :: "'s \<Rightarrow> int list"
  lk_retry :: retry_policy
  lk_jitter :: "nat \<Rightarrow> rat"

definition retrying :: "'s link \<Rightarrow> bool \<Rightarrow> ('s, 'a) io \<Rightarrow> ('s, 'a) io" where
  "retrying lk safe op s = apfst fst (run_with_retry (lk_retry lk) (lk_jitter lk) safe op s)"

text \<open>
  A handle that registered a disconnect listener: \<open>inval\<close> runs on it whenever the listeners were
  called while one of its coroutines waited.
\<close>

definition hear :: "('h \<Rightarrow> 'h) \<Rightarrow> 's link \<Rightarrow> 's \<Rightarrow> 's \<Rightarrow> 'h \<Rightarrow> 'h" where
  "hear inval lk s s' h = (if lk_losses lk s' = lk_losses lk s then h else inval h)"

definition hook :: "('h \<Rightarrow> 'h) \<Rightarrow> 's link \<Rightarrow> ('h \<times> 's) link" where
  "hook inval lk = \<lparr>
     lk_request = (\<lambda>mt p fl (h, s). let (r, s') = lk_request lk mt p fl s in (r, (hear inval lk s s' h, s'))),
     lk_send = (\<lambda>mt p (h, s). let (r, s') = lk_send lk mt p s in (r, (hear inval lk s s' h, s'))),
     lk_generation = (\<lambda>(h, s). lk_generation lk s),
     lk_losses = (\<lambda>(h, s). lk_losses lk s),
     lk_capabilities = (\<lambda>(h, s). lk_capabilities lk s),
     lk_retry = lk_retry lk, lk_jitter = lk_jitter lk\<rparr>"

text \<open>A link that records what is sent: the generation at that moment, the type and the payload.\<close>

type_synonym sent = "(int \<times> int \<times> bytes) list"

definition traced :: "'s link \<Rightarrow> ('s \<times> sent) link" where
  "traced lk = \<lparr>
     lk_request = (\<lambda>mt p fl (s, l). let (r, s') = lk_request lk mt p fl s
        in (r, (s', l @ [(lk_generation lk s, mt, p)]))),
     lk_send = (\<lambda>mt p (s, l). let (r, s') = lk_send lk mt p s
        in (r, (s', l @ [(lk_generation lk s, mt, p)]))),
     lk_generation = (\<lambda>(s, l). lk_generation lk s),
     lk_losses = (\<lambda>(s, l). lk_losses lk s),
     lk_capabilities = (\<lambda>(s, l). lk_capabilities lk s),
     lk_retry = lk_retry lk, lk_jitter = lk_jitter lk\<rparr>"

lemma hook_simps [simp]:
  "lk_generation (hook i lk) (h, s) = lk_generation lk s"
  "lk_losses (hook i lk) (h, s) = lk_losses lk s"
  "lk_capabilities (hook i lk) (h, s) = lk_capabilities lk s"
  "lk_request (hook i lk) mt p fl (h, s) =
     (let (r, s') = lk_request lk mt p fl s in (r, (hear i lk s s' h, s')))"
  "lk_send (hook i lk) mt p (h, s) =
     (let (r, s') = lk_send lk mt p s in (r, (hear i lk s s' h, s')))"
  by (simp_all add: hook_def)

lemma traced_simps [simp]:
  "lk_generation (traced lk) (s, l) = lk_generation lk s"
  "lk_losses (traced lk) (s, l) = lk_losses lk s"
  "lk_capabilities (traced lk) (s, l) = lk_capabilities lk s"
  "lk_request (traced lk) mt p fl (s, l) =
     (let (r, s') = lk_request lk mt p fl s in (r, (s', l @ [(lk_generation lk s, mt, p)])))"
  "lk_send (traced lk) mt p (s, l) =
     (let (r, s') = lk_send lk mt p s in (r, (s', l @ [(lk_generation lk s, mt, p)])))"
  by (simp_all add: traced_def)

section \<open>Relations kept by retries\<close>

lemma moves_retry_from:
  assumes "reflp R" "transp R" "moves R op"
  shows "R s (snd (retry_from op jit m k n delay s))"
proof (induction n arbitrary: k delay s)
  case (Suc n)
  obtain r s' where op: "op s = (r, s')" by fastforce
  then have "R s s'" using assms(3) by (auto simp: moves_def dest: spec [of _ s])
  then show ?case using op Suc.IH [of s' "Suc k" "min (delay * 2) m"] transpD [OF assms(2), of s s']
    by (auto split: sum.splits)
qed (simp add: reflpD [OF assms(1)])

lemma moves_retrying:
  "reflp R \<Longrightarrow> transp R \<Longrightarrow> moves R op \<Longrightarrow> moves R (retrying lk safe op)"
  unfolding moves_def [of R "retrying lk safe op"] retrying_def run_with_retry_def
  by (simp add: moves_retry_from)

text \<open>An operation that succeeds at once, or fails for good, is not repeated.\<close>

lemma retrying_Inr: "0 < retry_attempts (lk_retry lk) safe \<Longrightarrow> op s = (Inr x, s') \<Longrightarrow>
   retrying lk safe op s = (Inr x, s')"
  by (cases "nat (retry_attempts (lk_retry lk) safe)") (auto simp: retrying_def run_with_retry_def)

section \<open>Replies\<close>

text \<open>The two ways the clients report an unsuccessful reply, and an ill-formed one.\<close>

definition bad :: "domain \<Rightarrow> string \<Rightarrow> exn" where
  "bad d reason = DomainError d reason None None None"

definition plain_failure :: "domain \<Rightarrow> string \<Rightarrow> response \<Rightarrow> exn" where
  "plain_failure d op r = DomainError d op (rs_error_code r) (rs_error_class r) (rs_effect r)"

definition mapped_failure :: "domain \<Rightarrow> string \<Rightarrow> response \<Rightarrow> exn" where
  "mapped_failure d op r =
     domain_error d op (case rs_error_code r of None \<Rightarrow> 0 | Some c \<Rightarrow> c) (rs_error_class r) (rs_effect r)"

definition reply_data :: "(response \<Rightarrow> exn) \<Rightarrow> bytes \<Rightarrow> exn + bytes" where
  "reply_data failure raw =
     bind_r (parse_response raw) (\<lambda>r. if success r then Inr (rs_data r) else Inl (failure r))"

definition expect_empty :: "domain \<Rightarrow> bytes \<Rightarrow> exn + unit" where
  "expect_empty d data = (if data = [] then Inr () else Inl (bad d ''INVALID_RESPONSE''))"

definition acknowledged :: "domain \<Rightarrow> (response \<Rightarrow> exn) \<Rightarrow> bytes \<Rightarrow> exn + unit" where
  "acknowledged d failure raw = bind_r (reply_data failure raw) (expect_empty d)"

section \<open>Arguments\<close>

text \<open>A number a caller passed: \<open>isinstance(True, int)\<close> holds in Python, so booleans are apart.\<close>

datatype py_num = Py_int int | Py_bool bool | Py_other

definition check_duration :: "py_num \<Rightarrow> bool \<Rightarrow> exn + int" where
  "check_duration v positive =
     (case v of
        Py_int n \<Rightarrow> if n < (if positive then 1 else 0) then Inl PyValueError else Inr n
      | _ \<Rightarrow> Inl PyTypeError)"

section \<open>Requests with a reply\<close>

text \<open>A request whose reply is decoded.\<close>

definition ask :: "'s link \<Rightarrow> int \<Rightarrow> exn + bytes \<Rightarrow> int \<Rightarrow> (bytes \<Rightarrow> exn + 'a) \<Rightarrow> ('s, 'a) io" where
  "ask lk mt body fl decode =
     io_bind (io_lift body) (\<lambda>p. io_bind (lk_request lk mt p fl) (\<lambda>raw. io_lift (decode raw)))"

lemma reply_data_success [simp]: "reply_data failure (0 # d) = Inr d"
  by (simp add: reply_data_def success_def success_response_def)

lemma acknowledged_ok [simp]: "acknowledged d failure [0] = Inr ()"
  by (simp add: acknowledged_def expect_empty_def)

lemma moves_ask:
  assumes "reflp R" "transp R" "\<And>p. moves R (lk_request lk mt p fl)"
  shows "moves R (ask lk mt body fl decode)"
  unfolding ask_def
  by (intro moves_bind [OF assms(2)] moves_still assms(1) assms(3))

text \<open>The part of a registry's wire subscription that the domains share: an id behind a marker.\<close>

definition marked_id :: "domain \<Rightarrow> bytes \<Rightarrow> exn + int" where
  "marked_id d = run_reader
     (rd_bind read_u8 (\<lambda>marker.
      if marker \<noteq> 1 then rd_raise (bad d ''INVALID_RESPONSE'')
      else rd_bind read_u64_be (\<lambda>i. rd_bind (expect_eof (bad d ''INVALID_RESPONSE'')) (\<lambda>_. rd_return i))))"

lemma marked_id_ok [simp]: "0 \<le> i \<Longrightarrow> i < 18446744073709551616 \<Longrightarrow> marked_id d (1 # be_bytes 8 i) = Inr i"
  by (simp add: marked_id_def run_reader_def new_reader_at)

text \<open>
  \<open>LazyAsyncIterator(lambda: subscriptions.subscribe(selector))\<close>: the registry asks the wire only
  for a selector it does not hold yet.
\<close>

definition registry_subscribe ::
  "('s, int) io \<Rightarrow> ustr \<Rightarrow> 'n registry \<Rightarrow> 's \<Rightarrow> ((exn + nat) \<times> 'n registry) \<times> 's" where
  "registry_subscribe wire sel r s =
     (if map_of (by_registration r) sel = None
      then let (a, s') = wire s
           in (subscribe sel (case a of Inl e \<Rightarrow> Rejected e | Inr i \<Rightarrow> Replied i) r, s')
      else (subscribe sel (Rejected CancelledError) r, s))"

definition registry_notify :: "(bytes \<Rightarrow> exn + int \<times> 'n) \<Rightarrow> bytes \<Rightarrow> 'n registry \<Rightarrow> exn option \<times> 'n registry" where
  "registry_notify decode body r =
     (case decode body of Inl e \<Rightarrow> (Some e, r) | Inr (i, x) \<Rightarrow> (None, publish i x r))"

section \<open>The law of a link\<close>

text \<open>A session never goes back to an earlier generation: what is stale stays stale.\<close>

locale requester =
  fixes lk :: "'s link"
  assumes request_generation: "lk_generation lk s \<le> lk_generation lk (snd (lk_request lk mt p fl s))"
    and send_generation: "lk_generation lk s \<le> lk_generation lk (snd (lk_send lk mt p s))"
begin

lemma ask_generation: "lk_generation lk s \<le> lk_generation lk (snd (ask lk mt body fl decode s))"
  using moves_ask [of "\<lambda>s t. lk_generation lk s \<le> lk_generation lk t" lk mt fl body decode] request_generation
  by (simp add: moves_def reflp_def transp_def)

lemma hooked: "requester (hook inval lk)"
  by unfold_locales (simp_all add: split_beta Let_def hook_def request_generation send_generation)

lemma tracing: "requester (traced lk)"
  by unfold_locales (simp_all add: split_beta Let_def traced_def request_generation send_generation)

end

end
