(* ===== verification/Kv.thy ===== *)
theory Kv
  imports Link Routes Messages "HOL-Library.List_Lexorder"
begin

text \<open>
  \<open>domains/kv.py\<close>: transactions, scans and mutation subscriptions. A transaction is a handle
  beside the state of its link; its disconnect listener is the link's hook.
\<close>

unbundle bit_operations_syntax

section \<open>Data\<close>

datatype kv_mode = READ_ONLY | READ_WRITE

datatype kv_durability = BUFFERED | SYNC

definition parse_mode :: "string \<Rightarrow> exn + kv_mode" where
  "parse_mode s = (if s = ''read_only'' then Inr READ_ONLY
     else if s = ''read_write'' then Inr READ_WRITE else Inl PyValueError)"

definition parse_durability :: "string \<Rightarrow> exn + kv_durability" where
  "parse_durability s = (if s = ''buffered'' then Inr BUFFERED
     else if s = ''sync'' then Inr SYNC else Inl PyValueError)"

record kv_pair =
  kv_key :: bytes
  kv_value :: bytes

record kv_page =
  kp_entries :: "kv_pair list"
  kp_has_more :: bool

record kv_note =
  kn_route :: ustr
  kn_count :: int

record kv_tx =
  tx_route :: ustr
  tx_id :: int
  tx_generation :: int
  tx_closed :: bool
  tx_listening :: bool

definition tx_invalidate :: "kv_tx \<Rightarrow> kv_tx" where
  "tx_invalidate h = (if tx_listening h then h\<lparr>tx_closed := True\<rparr> else h)"

abbreviation kv_link :: "'s link \<Rightarrow> (kv_tx \<times> 's) link" where
  "kv_link \<equiv> hook tx_invalidate"

section \<open>Replies\<close>

text \<open>\<open>KVTransaction._status\<close>\<close>

definition kv_status :: "string \<Rightarrow> unit rd" where
  "kv_status op =
     rd_bind read_u8 (\<lambda>status.
     if status = 1 then
       rd_bind read_u16_be (\<lambda>code. rd_bind read_u8 (\<lambda>cls. rd_bind read_u8 (\<lambda>eff.
       rd_bind read_string (\<lambda>_. rd_bind (expect_eof (bad KV ''INVALID_RESPONSE'')) (\<lambda>_.
       rd_raise (domain_error KV op code (Some cls) (Some eff)))))))
     else if status \<noteq> 0 then rd_raise (bad KV ''INVALID_RESPONSE'')
     else rd_return ())"

definition kv_get_reply :: "bytes option rd" where
  "kv_get_reply =
     rd_bind (kv_status ''GET'') (\<lambda>_. rd_bind read_u8 (\<lambda>flag.
     if flag \<noteq> 0 \<and> flag \<noteq> 1 then rd_raise (bad KV ''INVALID_RESPONSE'')
     else if flag \<noteq> 1 then rd_bind (expect_eof (bad KV ''INVALID_RESPONSE'')) (\<lambda>_. rd_return None)
     else rd_bind read_blob (\<lambda>v.
       rd_bind (expect_eof (bad KV ''INVALID_RESPONSE'')) (\<lambda>_. rd_return (Some v)))))"

definition read_pair :: "kv_pair rd" where
  "read_pair = rd_bind read_blob (\<lambda>k. rd_bind read_blob (\<lambda>v. rd_return \<lparr>kv_key = k, kv_value = v\<rparr>))"

definition kv_scan_reply :: "kv_page rd" where
  "kv_scan_reply =
     rd_bind (kv_status ''SCAN'') (\<lambda>_. rd_bind read_u32_be (\<lambda>count.
     rd_bind (rd_get remaining_bytes) (\<lambda>left.
     if count > max 0 (left - 1) div 8 then rd_raise (bad KV ''INVALID_RESPONSE'')
     else
       rd_bind (rd_times (nat count) read_pair) (\<lambda>entries. rd_bind read_u8 (\<lambda>more.
       rd_bind (rd_get is_eof) (\<lambda>eof.
       if more \<noteq> 0 \<and> more \<noteq> 1 \<or> \<not> eof then rd_raise (bad KV ''INVALID_RESPONSE'')
       else rd_return \<lparr>kp_entries = entries, kp_has_more = (more = 1)\<rparr>))))))"

definition kv_id_reply :: "string \<Rightarrow> int rd" where
  "kv_id_reply op =
     rd_bind (kv_status op) (\<lambda>_. rd_bind (rd_get remaining_bytes) (\<lambda>left.
     if left \<noteq> 8 then rd_raise (bad KV ''INVALID_RESPONSE'') else read_u64_be))"

section \<open>Transactions\<close>

definition tx_ensure_open :: "'s link \<Rightarrow> (kv_tx \<times> 's, unit) io" where
  "tx_ensure_open lk = (\<lambda>(h, s).
     (if tx_generation h \<noteq> lk_generation lk s then Inl StaleHandleError
      else if tx_closed h then Inl (bad KV ''TX_CLOSED'') else Inr (), (h, s)))"

definition blob_fields :: "bytes \<Rightarrow> wop list" where
  "blob_fields bs = [U32 (int (length bs)), Raw bs]"

text \<open>\<open>_prefix\<close> with the fields that follow it.\<close>

definition tx_fields :: "kv_tx \<Rightarrow> wop list \<Rightarrow> wop list" where
  "tx_fields h ops = [U64 (tx_id h), Route (tx_route h)] @ ops"

definition tx_ask :: "'s link \<Rightarrow> int \<Rightarrow> wop list \<Rightarrow> 'a rd \<Rightarrow> (kv_tx \<times> 's, 'a) io" where
  "tx_ask lk mt ops reply =
     io_bind (io_gets fst) (\<lambda>h.
       ask (kv_link lk) mt (build_payload (tx_fields h ops)) 0 (run_reader reply))"

definition tx_get :: "'s link \<Rightarrow> bytes \<Rightarrow> (kv_tx \<times> 's, bytes option) io" where
  "tx_get lk key =
     io_then (tx_ensure_open lk)
       (retrying (kv_link lk) True
         (io_then (tx_ensure_open lk) (tx_ask lk MSG_KV_GET (blob_fields key) kv_get_reply)))"

definition tx_write :: "'s link \<Rightarrow> int \<Rightarrow> string \<Rightarrow> bytes \<Rightarrow> bytes \<Rightarrow> (kv_tx \<times> 's, unit) io" where
  "tx_write lk mt op key val =
     io_then (tx_ensure_open lk) (tx_ask lk mt (blob_fields key @ blob_fields val) (kv_status op))"

definition tx_put :: "'s link \<Rightarrow> bytes \<Rightarrow> bytes \<Rightarrow> (kv_tx \<times> 's, unit) io" where
  "tx_put lk = tx_write lk MSG_KV_PUT ''PUT''"

definition tx_insert :: "'s link \<Rightarrow> bytes \<Rightarrow> bytes \<Rightarrow> (kv_tx \<times> 's, unit) io" where
  "tx_insert lk = tx_write lk MSG_KV_INSERT ''INSERT''"

definition tx_delete :: "'s link \<Rightarrow> bytes \<Rightarrow> (kv_tx \<times> 's, unit) io" where
  "tx_delete lk key =
     io_then (tx_ensure_open lk) (tx_ask lk MSG_KV_DELETE (blob_fields key) (kv_status ''DELETE''))"

definition tx_delete_range :: "'s link \<Rightarrow> bytes \<Rightarrow> bytes \<Rightarrow> (kv_tx \<times> 's, unit) io" where
  "tx_delete_range lk lo hi =
     io_then (io_check (lo < hi) (bad KV ''INVALID_RANGE''))
       (io_then (tx_ensure_open lk)
         (tx_ask lk MSG_KV_DELETE_RANGE (blob_fields lo @ blob_fields hi) (kv_status ''DELETE_RANGE'')))"

text \<open>What a caller may pass as a scan's limit.\<close>

datatype scan_limit = No_limit | A_bool | Not_an_index | Limit int

fun check_limit :: "scan_limit \<Rightarrow> exn + int option" where
  "check_limit No_limit = Inr None"
| "check_limit A_bool = Inl (bad KV ''INVALID_LIMIT'')"
| "check_limit Not_an_index = Inl (bad KV ''INVALID_LIMIT'')"
| "check_limit (Limit n) = (if 0 \<le> n \<and> n \<le> 0xFFFFFFFF then Inr (Some n) else Inl (bad KV ''INVALID_LIMIT''))"

definition opt_blob :: "bytes option \<Rightarrow> wop list" where
  "opt_blob v = (case v of None \<Rightarrow> [U8 0] | Some bs \<Rightarrow> U8 1 # blob_fields bs)"

definition scan_fields :: "bytes option \<Rightarrow> bytes option \<Rightarrow> int option \<Rightarrow> bool \<Rightarrow> bool \<Rightarrow> wop list" where
  "scan_fields lo hi limit rvs excl =
     opt_blob lo @ opt_blob hi @ (case limit of None \<Rightarrow> [U8 0] | Some n \<Rightarrow> [U8 1, U32 n]) @
     [U8 (of_bool rvs OR push_bit 1 (of_bool excl))]"

definition tx_scan_page ::
  "'s link \<Rightarrow> bytes option \<Rightarrow> bytes option \<Rightarrow> scan_limit \<Rightarrow> bool \<Rightarrow> bool \<Rightarrow> (kv_tx \<times> 's, kv_page) io" where
  "tx_scan_page lk lo hi limit rvs excl =
     io_bind (io_lift (check_limit limit)) (\<lambda>n.
     if (case (lo, hi) of (Some a, Some b) \<Rightarrow> (\<not> rvs \<and> b < a) \<or> (rvs \<and> a < b) | _ \<Rightarrow> False)
     then io_then (tx_ensure_open lk) (io_return \<lparr>kp_entries = [], kp_has_more = False\<rparr>)
     else io_then (tx_ensure_open lk)
       (retrying (kv_link lk) True
         (io_then (tx_ensure_open lk) (tx_ask lk MSG_KV_SCAN (scan_fields lo hi n rvs excl) kv_scan_reply))))"

text \<open>\<open>scan\<close>: what the generator yields and how it ends.\<close>

definition tx_scan ::
  "'s link \<Rightarrow> bytes option \<Rightarrow> bytes option \<Rightarrow> scan_limit \<Rightarrow> bool \<Rightarrow> (kv_tx \<times> 's, kv_pair list) io" where
  "tx_scan lk lo hi limit rvs =
     io_bind (tx_scan_page lk lo hi limit rvs False) (\<lambda>page.
     io_then (io_check (\<not> kp_has_more page) (bad KV ''SCAN_TRUNCATED'')) (io_return (kp_entries page)))"

text \<open>
  \<open>scan_all\<close>, drained by its caller: the pairs yielded, the exception that ended it, and the
  state; \<open>None\<close> when the broker's pages never end.
\<close>

partial_function (option) scan_all_loop ::
  "'s link \<Rightarrow> bytes option \<Rightarrow> scan_limit \<Rightarrow> bool \<Rightarrow> bytes option \<Rightarrow> bool \<Rightarrow> kv_pair list \<Rightarrow> kv_tx \<times> 's \<Rightarrow>
   ((kv_pair list \<times> exn option) \<times> kv_tx \<times> 's) option" where
  "scan_all_loop lk hi limit rvs lo excl acc s =
     (case tx_scan_page lk lo hi limit rvs excl s of
        (Inl e, s') \<Rightarrow> Some ((acc, Some e), s')
      | (Inr page, s') \<Rightarrow>
          if kp_has_more page \<and> kp_entries page = []
          then Some ((acc, Some (bad KV ''SCAN_TRUNCATED'')), s')
          else if \<not> kp_has_more page then Some ((acc @ kp_entries page, None), s')
          else scan_all_loop lk hi limit rvs (Some (kv_key (last (kp_entries page)))) True
            (acc @ kp_entries page) s')"

definition tx_scan_all ::
  "'s link \<Rightarrow> bytes option \<Rightarrow> bytes option \<Rightarrow> scan_limit \<Rightarrow> bool \<Rightarrow> kv_tx \<times> 's \<Rightarrow>
   ((kv_pair list \<times> exn option) \<times> kv_tx \<times> 's) option" where
  "tx_scan_all lk lo hi limit rvs s = scan_all_loop lk hi limit rvs lo False [] s"

text \<open>\<open>_finish\<close>: the handle is closed before the request.\<close>

definition tx_finish :: "'s link \<Rightarrow> int \<Rightarrow> string \<Rightarrow> int option \<Rightarrow> (kv_tx \<times> 's, unit) io" where
  "tx_finish lk mt op persistence =
     io_then (tx_ensure_open lk)
       (io_then (io_modify (apfst (\<lambda>h. h\<lparr>tx_closed := True, tx_listening := False\<rparr>)))
         (tx_ask lk mt (case persistence of None \<Rightarrow> [] | Some v \<Rightarrow> [U8 v]) (kv_status op)))"

definition tx_commit :: "'s link \<Rightarrow> string \<Rightarrow> (kv_tx \<times> 's, unit) io" where
  "tx_commit lk durability =
     io_bind (io_lift (parse_durability durability)) (\<lambda>d.
       tx_finish lk MSG_KV_COMMIT ''COMMIT'' (Some (if d = SYNC then 1 else 0)))"

definition tx_rollback :: "'s link \<Rightarrow> (kv_tx \<times> 's, unit) io" where
  "tx_rollback lk = io_bind (io_gets (tx_closed \<circ> fst)) (\<lambda>shut.
     if shut then io_return () else tx_finish lk MSG_KV_ROLLBACK ''ROLLBACK'' None)"

section \<open>The client\<close>

definition kv_begin :: "'s link \<Rightarrow> ustr \<Rightarrow> string \<Rightarrow> ('s, kv_tx) io" where
  "kv_begin lk route mode =
     io_then (io_check (is_exact_route_shape route (lit ''kv'') 3) (bad KV ''INVALID_ROUTE''))
       (io_bind (ask lk MSG_KV_BEGIN
           (bind_r (build_payload [Route route]) (\<lambda>_. bind_r (parse_mode mode) (\<lambda>m.
              build_payload [Route route, U8 (if m = READ_WRITE then 1 else 0)])))
           0 (run_reader (kv_id_reply ''BEGIN'')))
         (\<lambda>i. io_gets (\<lambda>s. \<lparr>tx_route = route, tx_id = i, tx_generation = lk_generation lk s,
            tx_closed = False, tx_listening = True\<rparr>)))"

definition kv_subscribe_wire :: "'s link \<Rightarrow> ustr \<Rightarrow> ('s, int) io" where
  "kv_subscribe_wire lk pat =
     ask lk MSG_KV_SUBSCRIBE (build_payload [Route pat]) 0 (run_reader (kv_id_reply ''SUBSCRIBE''))"

definition kv_unsubscribe_wire :: "'s link \<Rightarrow> ustr \<Rightarrow> ('s, unit) io" where
  "kv_unsubscribe_wire lk pat =
     ask lk MSG_KV_UNSUBSCRIBE (build_payload [Route pat]) 0 (run_reader (kv_status ''UNSUBSCRIBE''))"

definition kv_subscribe ::
  "'s link \<Rightarrow> ustr \<Rightarrow> kv_note registry \<Rightarrow> 's \<Rightarrow> ((exn + nat) \<times> kv_note registry) \<times> 's" where
  "kv_subscribe lk pat r s =
     (if \<not> is_selector_route_shape pat (lit ''kv'') 3 True False then ((Inl (bad KV ''INVALID_ROUTE''), r), s)
      else registry_subscribe (kv_subscribe_wire lk pat) pat r s)"

definition kv_notification :: "bytes \<Rightarrow> exn + int \<times> kv_note" where
  "kv_notification = run_reader
     (rd_bind read_u64_be (\<lambda>i. rd_bind read_route (\<lambda>route. rd_bind read_u64_be (\<lambda>n.
      rd_bind (expect_eof (bad KV ''INVALID_RESPONSE'')) (\<lambda>_.
      rd_return (i, \<lparr>kn_route = route, kn_count = n\<rparr>))))))"

definition kv_notify :: "bytes \<Rightarrow> kv_note registry \<Rightarrow> exn option \<times> kv_note registry" where
  "kv_notify = registry_notify kv_notification"

end
