(* ===== verification/Handles.thy ===== *)
theory Handles
  imports Link
begin

text \<open>
  Handles the clients give out (transactions, queue items, stream sessions): what they may have
  sent when their calls are over. The relation is kept by every call of a handle and composes.
\<close>

definition handle_moves ::
  "('h \<Rightarrow> 'h \<Rightarrow> bool) \<Rightarrow> ('h \<Rightarrow> int \<times> int \<times> bytes \<Rightarrow> bool) \<Rightarrow> ('h \<Rightarrow> bool) \<Rightarrow> (int \<times> int \<times> bytes \<Rightarrow> bool) \<Rightarrow>
   'h \<times> 's \<times> sent \<Rightarrow> 'h \<times> 's \<times> sent \<Rightarrow> bool" where
  "handle_moves same own dead final = (\<lambda>(h, s, l) (h', s', l').
     same h h' \<and> (dead h \<longrightarrow> dead h') \<and>
     (\<exists>new. l' = l @ new \<and> (\<forall>f\<in>set new. own h f) \<and> (\<forall>f\<in>set (butlast new). \<not> final f) \<and>
        (dead h \<longrightarrow> new = []) \<and> (new \<noteq> [] \<longrightarrow> final (last new) \<longrightarrow> dead h')))"

definition outcome :: "(exn + 'a) \<times> 's \<Rightarrow> exn option \<times> 's" where
  "outcome r = (case fst r of Inl e \<Rightarrow> Some e | Inr _ \<Rightarrow> None, snd r)"

lemma snd_outcome [simp]: "snd (outcome r) = snd r"
  by (simp add: outcome_def)

text \<open>A broker that acknowledges everything.\<close>

definition ack_link :: "unit link" where
  "ack_link = \<lparr>lk_request = (\<lambda>mt p fl s. (Inr [0], s)), lk_send = (\<lambda>mt p s. (Inr (), s)),
     lk_generation = (\<lambda>_. 1), lk_losses = (\<lambda>_. 0), lk_capabilities = (\<lambda>_. []),
     lk_retry = retry (default_config []), lk_jitter = (\<lambda>_. 1)\<rparr>"

text \<open>How many calls of a run were of the kind \<open>ending\<close> and succeeded.\<close>

definition successes :: "('op \<Rightarrow> bool) \<Rightarrow> 'op list \<Rightarrow> exn option list \<Rightarrow> nat" where
  "successes ending xs rs = length (filter (\<lambda>(x, r). ending x \<and> r = None) (zip xs rs))"

lemma successes_dead:
  assumes dead: "\<And>x st. dead st \<Longrightarrow> ending x \<Longrightarrow> fst (step x st) \<noteq> None"
    and stays: "\<And>x st. dead st \<Longrightarrow> dead (snd (step x st))"
  shows "dead st \<Longrightarrow> successes ending xs (fst (exec_ops step xs st)) = 0"
proof (induction xs arbitrary: st)
  case (Cons x xs)
  then show ?case using Cons.IH [OF stays [OF Cons.prems]] dead [OF Cons.prems]
    by (auto simp: successes_def Let_def split_beta)
qed (simp add: successes_def)

lemma successes_once:
  assumes dead: "\<And>x st. dead st \<Longrightarrow> ending x \<Longrightarrow> fst (step x st) \<noteq> None"
    and stays: "\<And>x st. dead st \<Longrightarrow> dead (snd (step x st))"
    and ends: "\<And>x st. ending x \<Longrightarrow> fst (step x st) = None \<Longrightarrow> dead (snd (step x st))"
  shows "successes ending xs (fst (exec_ops step xs st)) \<le> 1"
proof (induction xs arbitrary: st)
  case (Cons x xs)
  show ?case
  proof (cases "ending x \<and> fst (step x st) = None")
    case True
    then have "dead (snd (step x st))" using ends by blast
    from successes_dead [of dead, OF dead stays this, where xs = xs] show ?thesis
      by (simp add: successes_def Let_def split_beta)
  next
    case False
    then show ?thesis using Cons.IH [of "snd (step x st)"]
      by (auto simp: successes_def Let_def split_beta)
  qed
qed (simp add: successes_def)

text \<open>
  \<open>same\<close> are the stages of one handle, \<open>own\<close> the frames it may send, \<open>dead\<close> the handles that send
  nothing more and \<open>final\<close> the frames after which a handle is dead.
\<close>

locale handle =
  fixes same :: "'h \<Rightarrow> 'h \<Rightarrow> bool" and own :: "'h \<Rightarrow> int \<times> int \<times> bytes \<Rightarrow> bool"
    and dead :: "'h \<Rightarrow> bool" and final :: "int \<times> int \<times> bytes \<Rightarrow> bool" and inval :: "'h \<Rightarrow> 'h"
  assumes same_refl: "same h h"
    and same_trans: "same h h' \<Longrightarrow> same h' h'' \<Longrightarrow> same h h''"
    and same_own: "same h h' \<Longrightarrow> own h' f = own h f"
    and inval_same: "same h (inval h)"
    and inval_dead: "dead h \<Longrightarrow> dead (inval h)"
begin

lemma hear_same: "same h (hear inval lk s s' h)"
  by (simp add: hear_def same_refl inval_same)

lemma hear_dead: "dead h \<Longrightarrow> dead (hear inval lk s s' h)"
  by (simp add: hear_def inval_dead)

lemma handle_refl: "handle_moves same own dead final st st"
  by (auto simp: handle_moves_def same_refl split: prod.splits)

lemma handle_trans:
  assumes "handle_moves same own dead final st st'" "handle_moves same own dead final st' st''"
  shows "handle_moves same own dead final st st''"
proof -
  obtain h s l h' s' l' h'' s'' l'' where st: "st = (h, s, l)" "st' = (h', s', l')" "st'' = (h'', s'', l'')"
    by (metis prod_cases3)
  obtain n1 where n1: "l' = l @ n1" "\<forall>f\<in>set n1. own h f" "\<forall>f\<in>set (butlast n1). \<not> final f"
      "dead h \<longrightarrow> n1 = []" "n1 \<noteq> [] \<longrightarrow> final (last n1) \<longrightarrow> dead h'"
    and same1: "same h h'" "dead h \<longrightarrow> dead h'"
    using assms(1) unfolding st by (auto simp: handle_moves_def)
  obtain n2 where n2: "l'' = l' @ n2" "\<forall>f\<in>set n2. own h f" "\<forall>f\<in>set (butlast n2). \<not> final f"
      "dead h' \<longrightarrow> n2 = []" "n2 \<noteq> [] \<longrightarrow> final (last n2) \<longrightarrow> dead h''"
    and same2: "same h' h''" "dead h' \<longrightarrow> dead h''"
    using assms(2) unfolding st by (auto simp: handle_moves_def same_own [OF same1(1)])
  have "\<forall>f\<in>set n1. \<not> final f" if "n2 \<noteq> []"
  proof
    fix f assume "f \<in> set n1"
    then have "f \<in> set (butlast n1) \<or> f = last n1 \<and> n1 \<noteq> []"
      by (cases n1 rule: rev_cases) auto
    then show "\<not> final f" using n1(3,5) n2(4) that by auto
  qed
  then have "\<forall>f\<in>set (butlast (n1 @ n2)). \<not> final f"
    using n1(3) n2(3) by (auto simp: butlast_append)
  then show ?thesis unfolding st handle_moves_def
    using n1 n2 same1 same2 same_trans [OF same1(1) same2(1)]
    by (auto intro!: exI [of _ "n1 @ n2"] simp: last_append)
qed

lemma handle_preorder: "reflp (handle_moves same own dead final)" "transp (handle_moves same own dead final)"
  by (rule reflpI, rule handle_refl) (rule transpI, rule handle_trans)

lemmas handle_bind = moves_bind [OF handle_preorder(2)]
lemmas handle_still = moves_still [OF handle_preorder(1)]
lemmas handle_retrying = moves_retrying [OF handle_preorder]

text \<open>A request under a guard that admits only live handles whose frame is their own.\<close>

lemma handle_guarded_ask:
  fixes lk :: "'s link" and guard :: "('h \<times> 's \<times> sent, 'u) io"
  assumes guard: "\<And>h s. (case guard (h, s) of (Inl e, st) \<Rightarrow> st = (h, s)
      | (Inr u, st) \<Rightarrow> st = (h, s) \<and> \<not> dead h \<and>
         (\<forall>p. body u h = Inr p \<longrightarrow> own h (lk_generation (traced lk) s, mt, p) \<and>
            \<not> final (lk_generation (traced lk) s, mt, p)))"
  shows "moves (handle_moves same own dead final) (io_bind guard
    (\<lambda>u. io_bind (io_gets fst) (\<lambda>h. ask (hook inval (traced lk)) mt (body u h) fl decode)))"
  unfolding moves_def
proof
  fix st :: "'h \<times> 's \<times> sent"
  obtain h s l where st: "st = (h, s, l)" by (metis prod_cases3)
  let ?ask = "\<lambda>u h. ask (hook inval (traced lk)) mt (body u h) fl decode"
  show "handle_moves same own dead final st (snd (io_bind guard (\<lambda>u. io_bind (io_gets fst) (?ask u)) st))"
  proof (cases "fst (guard st)")
    case (Inl e)
    then have "guard st = (Inl e, st)" using guard [of h "(s, l)"] by (auto simp: st split: prod.splits)
    then show ?thesis by (simp add: io_bind_def handle_refl)
  next
    case (Inr u)
    then have ok: "guard st = (Inr u, st)" "\<not> dead h"
      "\<And>p. body u h = Inr p \<Longrightarrow> own h (lk_generation lk s, mt, p) \<and> \<not> final (lk_generation lk s, mt, p)"
      using guard [of h "(s, l)"] by (auto simp: st split: prod.splits)
    show ?thesis
    proof (cases "body u h")
      case (Inl e)
      then show ?thesis using ok(1) by (simp add: st ask_def io_bind_def handle_refl)
    next
      case (Inr p)
      then show ?thesis using ok(1) ok(3) [OF Inr] ok(2)
        by (auto simp: st ask_def io_bind_def Let_def split_beta handle_moves_def hear_same hear_dead
            split: sum.split)
    qed
  qed
qed

lemma handle_run:
  assumes "\<And>st x. handle_moves same own dead final st (snd (step x st))"
  shows "handle_moves same own dead final st (snd (exec_ops step xs st))"
proof (induction xs arbitrary: st)
  case (Cons x xs)
  then show ?case using handle_trans [OF assms [of st x]] by (simp add: Let_def split_beta)
qed (simp add: handle_refl)

lemma handle_elapse: "handle_moves same own dead final (h, s, l) (hear inval lk s s' h, s', l)"
  by (simp add: handle_moves_def hear_same hear_dead)

end

end
