(* ===== verification/Kv_Proofs.thy ===== *)
theory Kv_Proofs
  imports Kv Handles
begin

text \<open>
  What the KV client guarantees: which frames a transaction can send over its whole life, that
  its replies are read back as the broker wrote them, and that \<open>scan_all\<close> collects the whole
  range over any number of pages.
\<close>

section \<open>The life of a transaction\<close>

text \<open>The calls of a transaction's user, and time passing between them.\<close>

datatype 's tx_op =
    Get bytes | Put bytes bytes | Insert bytes bytes | Delete bytes | Delete_range bytes bytes
  | Scan_page "bytes option" "bytes option" scan_limit bool bool
  | Commit string | Rollback
  | Elapse "'s \<Rightarrow> 's"

fun tx_step :: "'s link \<Rightarrow> 's tx_op \<Rightarrow> kv_tx \<times> 's \<times> sent \<Rightarrow> exn option \<times> kv_tx \<times> 's \<times> sent" where
  "tx_step lk (Get k) st = outcome (tx_get (traced lk) k st)"
| "tx_step lk (Put k v) st = outcome (tx_put (traced lk) k v st)"
| "tx_step lk (Insert k v) st = outcome (tx_insert (traced lk) k v st)"
| "tx_step lk (Delete k) st = outcome (tx_delete (traced lk) k st)"
| "tx_step lk (Delete_range a b) st = outcome (tx_delete_range (traced lk) a b st)"
| "tx_step lk (Scan_page a b n rvs ex) st = outcome (tx_scan_page (traced lk) a b n rvs ex st)"
| "tx_step lk (Commit d) st = outcome (tx_commit (traced lk) d st)"
| "tx_step lk Rollback st = outcome (tx_rollback (traced lk) st)"
| "tx_step lk (Elapse f) (h, s, l) = (None, hear tx_invalidate lk s (f s) h, f s, l)"

text \<open>The frames of one transaction.\<close>

definition finishing :: "int \<times> int \<times> bytes \<Rightarrow> bool" where
  "finishing f \<longleftrightarrow> fst (snd f) = MSG_KV_COMMIT \<or> fst (snd f) = MSG_KV_ROLLBACK"

definition of_tx :: "kv_tx \<Rightarrow> int \<times> int \<times> bytes \<Rightarrow> bool" where
  "of_tx h f \<longleftrightarrow> fst f = tx_generation h \<and>
     (\<exists>pre rest. build_payload (tx_fields h []) = Inr pre \<and> snd (snd f) = pre @ rest)"

definition tx_same :: "kv_tx \<Rightarrow> kv_tx \<Rightarrow> bool" where
  "tx_same h h' \<longleftrightarrow> tx_generation h' = tx_generation h \<and> tx_id h' = tx_id h \<and> tx_route h' = tx_route h"

abbreviation tx_moves :: "kv_tx \<times> 's \<times> sent \<Rightarrow> kv_tx \<times> 's \<times> sent \<Rightarrow> bool" where
  "tx_moves \<equiv> handle_moves tx_same of_tx tx_closed finishing"

interpretation tx: handle tx_same of_tx tx_closed finishing tx_invalidate
  by unfold_locales (auto simp: tx_same_def of_tx_def tx_fields_def tx_invalidate_def)

lemma tx_fields_prefix:
  assumes "build_payload (tx_fields h ops) = Inr p"
  shows "\<exists>pre rest. build_payload (tx_fields h []) = Inr pre \<and> p = pre @ rest"
  using assms by (auto simp: build_payload_spec tx_fields_def bind_r_Inr_iff)

lemma tx_moves_ensure: "moves tx_moves (tx_ensure_open lk)"
  by (auto simp: moves_def tx_ensure_open_def tx.handle_refl split: prod.splits)

lemma tx_moves_guarded_ask:
  "mt \<noteq> MSG_KV_COMMIT \<Longrightarrow> mt \<noteq> MSG_KV_ROLLBACK \<Longrightarrow>
   moves tx_moves (io_then (tx_ensure_open (traced lk)) (tx_ask (traced lk) mt ops reply))"
  unfolding tx_ask_def
  by (rule tx.handle_guarded_ask)
     (auto simp: tx_ensure_open_def of_tx_def finishing_def dest: tx_fields_prefix)

lemma tx_invalidate_same [simp]:
  "tx_generation (hear tx_invalidate lk s s' h) = tx_generation h"
  "tx_id (hear tx_invalidate lk s s' h) = tx_id h" "tx_route (hear tx_invalidate lk s s' h) = tx_route h"
  "tx_closed h \<Longrightarrow> tx_closed (hear tx_invalidate lk s s' h)"
  by (simp_all add: hear_def tx_invalidate_def)

lemma tx_moves_finish: "moves tx_moves (tx_finish (traced lk) mt op persistence)"
  unfolding moves_def
proof
  fix st :: "kv_tx \<times> 'a \<times> sent"
  obtain h s l where st: "st = (h, s, l)" by (metis prod_cases3)
  let ?ops = "case persistence of None \<Rightarrow> [] | Some v \<Rightarrow> [U8 v]"
  let ?h = "h\<lparr>tx_closed := True, tx_listening := False\<rparr>"
  show "tx_moves st (snd (tx_finish (traced lk) mt op persistence st))"
  proof (cases "tx_generation h = lk_generation lk s \<and> \<not> tx_closed h")
    case True
    have same: "tx_fields ?h ?ops = tx_fields h ?ops" by (simp add: tx_fields_def)
    show ?thesis
    proof (cases "build_payload (tx_fields h ?ops)")
      case (Inl e)
      then show ?thesis using st True same
        by (simp add: tx_finish_def tx_ensure_open_def tx_ask_def ask_def io_bind_def handle_moves_def tx_same_def)
    next
      case (Inr p)
      then have "of_tx h (lk_generation lk s, mt, p)"
        using True tx_fields_prefix [OF Inr] by (simp add: of_tx_def)
      then show ?thesis using st True Inr same
        by (auto simp: tx_finish_def tx_ensure_open_def tx_ask_def ask_def io_bind_def handle_moves_def tx_same_def
            Let_def split_beta split: sum.split)
    qed
  qed (auto simp: st tx_finish_def tx_ensure_open_def io_bind_def tx.handle_refl)
qed

lemma tx_moves_ops:
  "moves tx_moves (tx_get (traced lk) k)" "moves tx_moves (tx_put (traced lk) k v)"
  "moves tx_moves (tx_insert (traced lk) k v)" "moves tx_moves (tx_delete (traced lk) k)"
  "moves tx_moves (tx_delete_range (traced lk) k v)"
  "moves tx_moves (tx_commit (traced lk) d)" "moves tx_moves (tx_rollback (traced lk))"
  unfolding tx_get_def tx_put_def tx_insert_def tx_write_def tx_delete_def tx_delete_range_def
    tx_commit_def tx_rollback_def
  by ((rule tx_moves_guarded_ask, simp, simp | rule tx.handle_bind tx_moves_ensure tx.handle_retrying
        moves_if tx.handle_still tx_moves_finish)+)

lemma tx_moves_scan: "moves tx_moves (tx_scan_page (traced lk) a b n rvs ex)"
  unfolding tx_scan_page_def
  by ((rule tx_moves_guarded_ask, simp, simp | rule tx.handle_bind tx_moves_ensure tx.handle_retrying
        moves_if tx.handle_still)+)

lemma tx_moves_step: "tx_moves st (snd (tx_step lk x st))"
proof (cases x)
  case (Elapse f)
  obtain h s l where "st = (h, s, l)" by (metis prod_cases3)
  then show ?thesis using Elapse by (simp add: tx.handle_elapse)
qed (simp_all add: tx_moves_ops [THEN moves_D] tx_moves_scan [THEN moves_D])

text \<open>
  C12. Over any sequence of calls on a transaction, every frame sent carries its id and its route
  in its own generation, nothing is sent once it is closed, and at most the last frame is a
  COMMIT or ROLLBACK, which closes it.
\<close>

lemma transaction_frames:
  fixes h :: kv_tx and lk :: "'s link" and s :: 's and xs :: "'s tx_op list"
  defines "after \<equiv> snd (exec_ops (tx_step lk) xs (h, s, []))"
  shows "(\<forall>f\<in>set (snd (snd after)). of_tx h f) \<and>
    (\<forall>f\<in>set (butlast (snd (snd after))). \<not> finishing f) \<and>
    (tx_closed h \<longrightarrow> snd (snd after) = []) \<and>
    (snd (snd after) \<noteq> [] \<longrightarrow> finishing (last (snd (snd after))) \<longrightarrow> tx_closed (fst after))"
  using tx.handle_run [where step = "tx_step lk" and st = "(h, s, [])" and xs = xs, OF tx_moves_step]
  by (auto simp: handle_moves_def after_def split: prod.splits)

definition open_tx :: kv_tx where
  "open_tx = \<lparr>tx_route = [], tx_id = 5, tx_generation = 1, tx_closed = False, tx_listening = True\<rparr>"

lemma ack_run:
  "snd (snd (snd (exec_ops (tx_step ack_link) [Put [7] [8], Commit ''sync'', Put [9] [9]] (open_tx, (), [])))) =
     [(1, 104, [0,0,0,0,0,0,0,5, 0,0,0,0, 0,0,0,1, 7, 0,0,0,1, 8]), (1, 101, [0,0,0,0,0,0,0,5, 0,0,0,0, 1])]"
  by code_simp

lemma transaction_frames_witness:
  "tx_closed (fst (snd (exec_ops (tx_step ack_link) [Put [7] [8], Commit ''sync'', Put [9] [9]] (open_tx, (), []))))"
  using transaction_frames [of ack_link "[Put [7] [8], Commit ''sync'', Put [9] [9]]" open_tx "()"]
  unfolding ack_run by (simp add: finishing_def)

section \<open>Replies\<close>

text \<open>What the broker puts on the wire: an error, and a page of pairs.\<close>

definition error_bytes :: "int \<Rightarrow> int \<Rightarrow> int \<Rightarrow> bytes \<Rightarrow> bytes" where
  "error_bytes code cls eff fld =
     1 # be_bytes 2 code @ be_bytes (Suc 0) cls @ be_bytes (Suc 0) eff @ fld"

definition blob_bytes :: "bytes \<Rightarrow> bytes" where
  "blob_bytes bs = be_bytes 4 (int (length bs)) @ bs"

definition pair_bytes :: "kv_pair \<Rightarrow> bytes" where
  "pair_bytes p = blob_bytes (kv_key p) @ blob_bytes (kv_value p)"

definition page_bytes :: "kv_page \<Rightarrow> bytes" where
  "page_bytes pg = 0 # be_bytes 4 (int (length (kp_entries pg))) @ concat (map pair_bytes (kp_entries pg)) @
     [if kp_has_more pg then 1 else 0]"

definition small :: "bytes \<Rightarrow> bool" where
  "small bs \<longleftrightarrow> int (length bs) < 4294967296"

definition small_pair :: "kv_pair \<Rightarrow> bool" where
  "small_pair p \<longleftrightarrow> small (kv_key p) \<and> small (kv_value p)"

lemma kv_status_ok [simp]: "rd_bind (kv_status op) f (reader_at pre (0 # d)) = f () (reader_at (pre @ [0]) d)"
  by (simp add: kv_status_def rd_bind_def read_u8_cons [unfolded rd_bind_def])

lemma kv_status_error:
  assumes "0 \<le> code" "code < 65536" "0 \<le> cls" "cls < 256" "0 \<le> eff" "eff < 256" "str_field msg = Inr fld"
  shows "kv_status op (reader_at pre (error_bytes code cls eff fld)) =
    Inl (domain_error KV op code (Some cls) (Some eff))"
  using assms by (simp add: kv_status_def error_bytes_def)

lemma read_blob_bytes [simp]:
  "small bs \<Longrightarrow> rd_bind read_blob f (reader_at pre (blob_bytes bs @ suf)) = f bs (reader_at (pre @ blob_bytes bs) suf)"
  by (simp add: blob_bytes_def small_def)

lemma read_blob_bytes_last [simp]:
  "small bs \<Longrightarrow> rd_bind read_blob f (reader_at pre (blob_bytes bs)) = f bs (reader_at (pre @ blob_bytes bs) [])"
  using read_blob_bytes [of bs f pre "[]"] by simp

lemma read_pair_bytes:
  "small_pair p \<Longrightarrow> read_pair (reader_at pre (pair_bytes p @ suf)) = Inr (p, reader_at (pre @ pair_bytes p) suf)"
  by (simp add: read_pair_def pair_bytes_def small_pair_def)

lemma read_pairs_bytes:
  "\<forall>p\<in>set ps. small_pair p \<Longrightarrow>
   rd_times (length ps) read_pair (reader_at pre (concat (map pair_bytes ps) @ suf)) =
     Inr (ps, reader_at (pre @ concat (map pair_bytes ps)) suf)"
  by (induction ps arbitrary: pre) (simp_all add: rd_bind_def read_pair_bytes)

lemma length_pair_bytes: "8 \<le> length (pair_bytes p)"
  by (simp add: pair_bytes_def blob_bytes_def)

lemma length_pairs_bytes: "8 * length ps \<le> length (concat (map pair_bytes ps))"
  using length_pair_bytes by (induction ps) (simp_all, smt (verit, best) add_mono)

lemma scan_reply_page:
  assumes "\<forall>p\<in>set (kp_entries pg). small_pair p" "length (kp_entries pg) < 4294967296"
  shows "run_reader kv_scan_reply (page_bytes pg) = Inr pg"
proof -
  let ?ps = "kp_entries pg"
  have "int (length ?ps) \<le> int (length (concat (map pair_bytes ?ps))) div 8"
    using length_pairs_bytes [of ?ps] by linarith
  then show ?thesis using assms
    by (simp add: run_reader_def new_reader_at kv_scan_reply_def page_bytes_def rd_bind_Inr
        read_pairs_bytes)
qed

lemma get_reply_found: "small v \<Longrightarrow> run_reader kv_get_reply (0 # 1 # blob_bytes v) = Inr (Some v)"
  by (simp add: run_reader_def new_reader_at kv_get_reply_def)

lemma get_reply_absent: "run_reader kv_get_reply [0, 0] = Inr None"
  by (simp add: run_reader_def new_reader_at kv_get_reply_def)

section \<open>Collecting a range over its pages\<close>

text \<open>The order of a scan, and what of a store lies beyond its start.\<close>

definition scan_before :: "bool \<Rightarrow> bytes \<Rightarrow> bytes \<Rightarrow> bool" where
  "scan_before rvs a b = (if rvs then b < a else a < b)"

definition scan_from :: "bool \<Rightarrow> kv_pair list \<Rightarrow> bytes option \<Rightarrow> bool \<Rightarrow> kv_pair list" where
  "scan_from rvs kvs lo excl = filter (\<lambda>p. case lo of None \<Rightarrow> True
     | Some k \<Rightarrow> scan_before rvs k (kv_key p) \<or> (\<not> excl \<and> kv_key p = k)) kvs"

lemma scan_before_trans: "scan_before rvs a b \<Longrightarrow> scan_before rvs b c \<Longrightarrow> scan_before rvs a c"
  by (auto simp: scan_before_def split: if_splits)

lemma scan_before_irrefl [simp]: "\<not> scan_before rvs a a"
  by (simp add: scan_before_def)

abbreviation in_order :: "bool \<Rightarrow> kv_pair list \<Rightarrow> bool" where
  "in_order rvs \<equiv> sorted_wrt (\<lambda>p q. scan_before rvs (kv_key p) (kv_key q))"

lemma filter_beyond:
  "in_order rvs ps \<Longrightarrow> 0 < k \<Longrightarrow> k \<le> length ps \<Longrightarrow>
   filter (\<lambda>q. scan_before rvs (kv_key (ps ! (k - 1))) (kv_key q)) ps = drop k ps"
proof -
  assume ps: "in_order rvs ps" and k: "0 < k" "k \<le> length ps"
  let ?P = "\<lambda>q. scan_before rvs (kv_key (ps ! (k - 1))) (kv_key q)"
  have "filter ?P (take k ps) = []"
  proof -
    have "\<not> ?P (ps ! i)" if "i < k" for i
    proof (cases "i = k - 1")
      case False
      then have "scan_before rvs (kv_key (ps ! i)) (kv_key (ps ! (k - 1)))"
        using that k ps by (simp add: sorted_wrt_iff_nth_less)
      then show ?thesis using scan_before_trans scan_before_irrefl by blast
    qed simp
    then show ?thesis using k by (auto simp: filter_empty_conv in_set_conv_nth)
  qed
  moreover have "filter ?P (drop k ps) = drop k ps"
    using ps k by (auto simp: filter_id_conv in_set_conv_nth sorted_wrt_iff_nth_less)
  ultimately show ?thesis
    using filter_append [of ?P "take k ps" "drop k ps"] by simp
qed

lemma scan_from_next:
  assumes "in_order rvs kvs" "rest = scan_from rvs kvs lo excl" "0 < k" "k \<le> length rest"
  shows "scan_from rvs kvs (Some (kv_key (last (take k rest)))) True = drop k rest"
proof -
  have rest: "in_order rvs rest" using assms(1,2) by (simp add: scan_from_def sorted_wrt_filter)
  have last: "last (take k rest) = rest ! (k - 1)"
    using assms(3,4) by (subst last_conv_nth) auto
  have mem: "rest ! (k - 1) \<in> set rest" using assms(3,4) by simp
  have "filter (\<lambda>q. scan_before rvs (kv_key (rest ! (k - 1))) (kv_key q)) kvs =
      filter (\<lambda>q. scan_before rvs (kv_key (rest ! (k - 1))) (kv_key q)) rest"
    using mem unfolding assms(2) scan_from_def filter_filter
    by (intro filter_cong) (auto split: option.splits dest: scan_before_trans)
  then show ?thesis using filter_beyond [OF rest assms(3,4)] last by (simp add: scan_from_def)
qed

text \<open>
  A broker that serves the scans of a transaction: in every state of \<open>G\<close> it answers with some
  first part of what lies beyond the start, empty only when nothing does.
\<close>

definition serves_scans ::
  "'s link \<Rightarrow> ('s \<Rightarrow> bool) \<Rightarrow> kv_tx \<Rightarrow> bytes option \<Rightarrow> int option \<Rightarrow> bool \<Rightarrow> kv_pair list \<Rightarrow> bool" where
  "serves_scans lk G h hi n rvs kvs \<longleftrightarrow>
     (\<forall>s. G s \<longrightarrow> lk_generation lk s = tx_generation h) \<and>
     (\<forall>s lo excl body. G s \<longrightarrow> build_payload (tx_fields h (scan_fields lo hi n rvs excl)) = Inr body \<longrightarrow>
        (\<exists>k s'. let rest = scan_from rvs kvs lo excl in
           lk_request lk MSG_KV_SCAN body 0 s =
             (Inr (page_bytes \<lparr>kp_entries = take k rest, kp_has_more = (k < length rest)\<rparr>), s') \<and>
           G s' \<and> lk_losses lk s' = lk_losses lk s \<and> (rest \<noteq> [] \<longrightarrow> 0 < k)))"

definition small_store :: "bool \<Rightarrow> bytes option \<Rightarrow> kv_pair list \<Rightarrow> bool" where
  "small_store rvs hi kvs \<longleftrightarrow>
     in_order rvs kvs \<and> length kvs < 4294967296 \<and> (\<forall>p\<in>set kvs. small_pair p) \<and>
     (\<forall>p\<in>set kvs. \<forall>b. hi = Some b \<longrightarrow> \<not> scan_before rvs b (kv_key p))"

lemma scan_payload:
  assumes "build_payload (tx_fields h []) = Inr pre" "check_limit limit = Inr n"
    "\<And>b. lo = Some b \<Longrightarrow> small b" "\<And>b. hi = Some b \<Longrightarrow> small b"
  shows "\<exists>body. build_payload (tx_fields h (scan_fields lo hi n rvs excl)) = Inr body"
proof -
  have flags: "0 \<le> (of_bool rvs OR push_bit 1 (of_bool excl) :: int)"
    "(of_bool rvs OR push_bit 1 (of_bool excl) :: int) < 256"
    by (cases rvs; cases excl; simp)+
  have blob: "\<exists>bs. concat_r (map wop_bytes (opt_blob v)) = Inr bs" if "\<And>b. v = Some b \<Longrightarrow> small b" for v
    using that by (cases v) (auto simp: opt_blob_def blob_fields_def small_def)
  have "\<exists>bs. concat_r (map wop_bytes (case n of None \<Rightarrow> [U8 0] | Some n \<Rightarrow> [U8 1, U32 n])) = Inr bs"
    using assms(2) by (cases limit) (auto split: if_splits option.split)
  moreover obtain bl where "concat_r (map wop_bytes (opt_blob lo)) = Inr bl"
    using blob [of lo] assms(3) by blast
  moreover obtain bh where "concat_r (map wop_bytes (opt_blob hi)) = Inr bh"
    using blob [of hi] assms(4) by blast
  ultimately show ?thesis
    using assms(1) flags
    by (auto simp: build_payload_spec tx_fields_def scan_fields_def concat_r_append bind_r_Inr_iff)
qed

lemma last_take_key: "0 < k \<Longrightarrow> k \<le> length rest \<Longrightarrow> last (take k rest) \<in> set rest"
  by (metis in_set_takeD last_in_set length_greater_0_conv length_take min.absorb2)

lemma scan_from_sub: "set (scan_from rvs kvs lo excl) \<subseteq> set kvs" "length (scan_from rvs kvs lo excl) \<le> length kvs"
  by (auto simp: scan_from_def)

text \<open>One page of an open transaction.\<close>

lemma scan_page_served:
  assumes srv: "serves_scans lk G h hi n rvs kvs" and st: "small_store rvs hi kvs" and G: "G s"
    and tx: "build_payload (tx_fields h []) = Inr pre" "check_limit limit = Inr n" "\<not> tx_closed h"
    and retries: "0 < retry_attempts (lk_retry lk) True"
    and ends: "\<And>b. lo = Some b \<Longrightarrow> small b" "\<And>b. hi = Some b \<Longrightarrow> small b"
  obtains k s' where
    "tx_scan_page lk lo hi limit rvs excl (h, s) =
       (Inr \<lparr>kp_entries = take k (scan_from rvs kvs lo excl),
             kp_has_more = (k < length (scan_from rvs kvs lo excl))\<rparr>, h, s')"
    "G s'" "scan_from rvs kvs lo excl \<noteq> [] \<longrightarrow> 0 < k"
proof -
  let ?rest = "scan_from rvs kvs lo excl"
  have gen: "lk_generation lk s = tx_generation h" using srv G by (simp add: serves_scans_def)
  show ?thesis
  proof (cases "case (lo, hi) of (Some a, Some b) \<Rightarrow> (\<not> rvs \<and> b < a) \<or> (rvs \<and> a < b) | _ \<Rightarrow> False")
    case True
    then obtain a b where ab: "lo = Some a" "hi = Some b" "scan_before rvs b a"
      by (auto simp: scan_before_def split: option.splits)
    have "?rest = []"
      using st ab scan_before_trans [OF ab(3)]
      by (auto simp: scan_from_def small_store_def filter_empty_conv)
    then show ?thesis using that [of 0 s] True tx(2,3) gen G
      by (simp add: tx_scan_page_def tx_ensure_open_def io_bind_def)
  next
    case False
    obtain body where body: "build_payload (tx_fields h (scan_fields lo hi n rvs excl)) = Inr body"
      using scan_payload [OF tx(1,2) ends] by blast
    obtain k s' where k: "lk_request lk MSG_KV_SCAN body 0 s =
        (Inr (page_bytes \<lparr>kp_entries = take k ?rest, kp_has_more = (k < length ?rest)\<rparr>), s')"
      "G s'" "lk_losses lk s' = lk_losses lk s" "?rest \<noteq> [] \<longrightarrow> 0 < k"
      using srv G body unfolding serves_scans_def Let_def by blast
    let ?pg = "\<lparr>kp_entries = take k ?rest, kp_has_more = (k < length ?rest)\<rparr>"
    have "run_reader kv_scan_reply (page_bytes ?pg) = Inr ?pg"
      using st scan_from_sub [of rvs kvs lo excl]
      by (intro scan_reply_page) (auto simp: small_store_def dest!: in_set_takeD)
    then have "io_then (tx_ensure_open lk) (tx_ask lk MSG_KV_SCAN (scan_fields lo hi n rvs excl) kv_scan_reply)
        (h, s) = (Inr ?pg, h, s')"
      using body k tx(3) gen
      by (simp add: tx_ensure_open_def tx_ask_def ask_def io_bind_def hear_def)
    then have "retrying (kv_link lk) True (io_then (tx_ensure_open lk)
        (tx_ask lk MSG_KV_SCAN (scan_fields lo hi n rvs excl) kv_scan_reply)) (h, s) = (Inr ?pg, h, s')"
      using retries by (intro retrying_Inr) (simp_all add: hook_def)
    then show ?thesis using that [of k s'] False tx(2,3) gen k
      by (simp add: tx_scan_page_def tx_ensure_open_def io_bind_def cong: if_cong)
  qed
qed

lemma scan_all_loop_served:
  assumes srv: "serves_scans lk G h hi n rvs kvs" and st: "small_store rvs hi kvs"
    and tx: "build_payload (tx_fields h []) = Inr pre" "check_limit limit = Inr n" "\<not> tx_closed h"
    and retries: "0 < retry_attempts (lk_retry lk) True" and hi: "\<And>b. hi = Some b \<Longrightarrow> small b"
  shows "length (scan_from rvs kvs lo excl) \<le> m \<Longrightarrow> (\<And>b. lo = Some b \<Longrightarrow> small b) \<Longrightarrow> G s \<Longrightarrow>
    \<exists>s'. scan_all_loop lk hi limit rvs lo excl acc (h, s) =
      Some ((acc @ scan_from rvs kvs lo excl, None), h, s') \<and> G s'"
proof (induction m arbitrary: lo excl acc s rule: less_induct)
  case (less m)
  let ?rest = "scan_from rvs kvs lo excl"
  obtain k s' where page: "tx_scan_page lk lo hi limit rvs excl (h, s) =
       (Inr \<lparr>kp_entries = take k ?rest, kp_has_more = (k < length ?rest)\<rparr>, h, s')"
    "G s'" "?rest \<noteq> [] \<longrightarrow> 0 < k"
    using scan_page_served [OF srv st less.prems(3) tx retries less.prems(2) hi] by metis
  show ?case
  proof (cases "k < length ?rest")
    case True
    then have k: "0 < k" "k \<le> length ?rest" "take k ?rest \<noteq> []" using page(3) by auto
    let ?key = "kv_key (last (take k ?rest))"
    have next_rest: "scan_from rvs kvs (Some ?key) True = drop k ?rest"
      using scan_from_next [OF _ refl k(1,2)] st by (simp add: small_store_def)
    have "small ?key" using last_take_key [OF k(1,2)] scan_from_sub(1) [of rvs kvs lo excl] st
      by (auto simp: small_store_def small_pair_def)
    then have "\<exists>s''. scan_all_loop lk hi limit rvs (Some ?key) True (acc @ take k ?rest) (h, s') =
        Some (((acc @ take k ?rest) @ scan_from rvs kvs (Some ?key) True, None), h, s'') \<and> G s''"
      using less.IH [of "m - 1" "Some ?key" True s' "acc @ take k ?rest"] less.prems(1) page(2) k next_rest True
      by simp
    then show ?thesis using page(1) k(3) True next_rest
      by (subst scan_all_loop.simps) simp
  next
    case False
    then show ?thesis using page by (subst scan_all_loop.simps) simp
  qed
qed

text \<open>
  C13. Against a broker that serves pages of a sorted store, scan_all ends and yields exactly the
  pairs of the requested range, in either direction, however the broker cuts the pages.
\<close>

lemma scan_all_complete:
  assumes "serves_scans lk G h hi n rvs kvs" "small_store rvs hi kvs"
    and "build_payload (tx_fields h []) = Inr pre" "check_limit limit = Inr n" "\<not> tx_closed h"
    and "0 < retry_attempts (lk_retry lk) True" "\<And>b. hi = Some b \<Longrightarrow> small b" "\<And>b. lo = Some b \<Longrightarrow> small b"
    and "G s"
  shows "\<exists>s'. tx_scan_all lk lo hi limit rvs (h, s) = Some ((scan_from rvs kvs lo False, None), h, s') \<and> G s'"
  unfolding tx_scan_all_def
  using scan_all_loop_served [OF assms(1-7) order_refl assms(8,9), of lo False "[]"] by simp

section \<open>A broker that pages\<close>

text \<open>The reader of a SCAN request, and the broker that answers it from a sorted store.\<close>

definition read_opt_blob :: "bytes option rd" where
  "read_opt_blob = rd_bind read_u8 (\<lambda>flag.
     if flag = 0 then rd_return None else rd_bind read_blob (\<lambda>b. rd_return (Some b)))"

definition read_opt_u32 :: "int option rd" where
  "read_opt_u32 = rd_bind read_u8 (\<lambda>flag.
     if flag = 0 then rd_return None else rd_bind read_u32_be (\<lambda>b. rd_return (Some b)))"

definition read_scan_request :: "(int \<times> ustr \<times> bytes option \<times> bytes option \<times> int option \<times> int) rd" where
  "read_scan_request =
     rd_bind read_u64_be (\<lambda>i. rd_bind read_route (\<lambda>route. rd_bind read_opt_blob (\<lambda>lo.
     rd_bind read_opt_blob (\<lambda>hi. rd_bind read_opt_u32 (\<lambda>n. rd_bind read_u8 (\<lambda>fl.
     rd_return (i, route, lo, hi, n, fl)))))))"

lemma read_opt_blob_at [simp]:
  "concat_r (map wop_bytes (opt_blob v)) = Inr bs \<Longrightarrow>
   rd_bind read_opt_blob f (reader_at pre (bs @ suf)) = f v (reader_at (pre @ bs) suf)"
  by (cases v) (auto simp: opt_blob_def blob_fields_def read_opt_blob_def rd_bind_assoc be_bytes_0_1
      bind_r_Inr_iff pack_Inr_iff)

lemma read_opt_u32_at [simp]:
  "concat_r (map wop_bytes (case n of None \<Rightarrow> [U8 0] | Some n \<Rightarrow> [U8 1, U32 n])) = Inr bs \<Longrightarrow>
   rd_bind read_opt_u32 f (reader_at pre (bs @ suf)) = f n (reader_at (pre @ bs) suf)"
  by (cases n) (auto simp: read_opt_u32_def rd_bind_assoc be_bytes_0_1 bind_r_Inr_iff pack_Inr_iff)

lemma scan_request_read:
  assumes "build_payload (tx_fields h (scan_fields lo hi n rvs excl)) = Inr body"
  shows "run_reader read_scan_request body =
    Inr (tx_id h, tx_route h, lo, hi, n, of_bool rvs + 2 * of_bool excl)"
proof -
  have fl: "(of_bool rvs OR push_bit 1 (of_bool excl) :: int) = of_bool rvs + 2 * of_bool excl"
    by (cases rvs; cases excl) simp_all
  obtain br bl bh bn where parts: "0 \<le> tx_id h" "tx_id h < 18446744073709551616"
    "str_field (tx_route h) = Inr br"
    "concat_r (map wop_bytes (opt_blob lo)) = Inr bl" "concat_r (map wop_bytes (opt_blob hi)) = Inr bh"
    "concat_r (map wop_bytes (case n of None \<Rightarrow> [U8 0] | Some n \<Rightarrow> [U8 1, U32 n])) = Inr bn"
    "body = be_bytes 8 (tx_id h) @ br @ bl @ bh @ bn @ be_bytes (Suc 0) (of_bool rvs + 2 * of_bool excl)"
    using assms by (auto simp: build_payload_spec tx_fields_def scan_fields_def concat_r_append
        bind_r_Inr_iff pack_Inr_iff fl)
  have "be_bytes (Suc 0) (of_bool rvs + 2 * of_bool excl) = [word_of_int (of_bool rvs + 2 * of_bool excl)]"
    by (cases rvs; cases excl) (simp_all add: be_bytes.simps(2))
  moreover have "uint (word_of_int (of_bool rvs + 2 * of_bool excl) :: byte) = of_bool rvs + 2 * of_bool excl"
    by (cases rvs; cases excl) simp_all
  ultimately show ?thesis using parts
    by (simp add: run_reader_def new_reader_at read_scan_request_def)
qed

lemma scan_request_roundtrip:
  assumes "build_payload (tx_fields h (scan_fields lo hi n rvs excl)) = Inr body"
  shows "run_reader read_scan_request body =
    Inr (tx_id h, tx_route h, lo, hi, n, of_bool rvs + 2 * of_bool excl)"
  by (rule scan_request_read [OF assms])

lemma scan_request_roundtrip_witness:
  "run_reader read_scan_request [0,0,0,0,0,0,0,5, 0,0,0,0, 1, 0,0,0,1, 8, 0, 1, 0,0,0,7, 2] =
     Inr (5, [], Some [8], None, Some 7, 2)"
proof -
  have "build_payload (tx_fields open_tx (scan_fields (Some [8]) None (Some 7) False True)) =
      Inr [0,0,0,0,0,0,0,5, 0,0,0,0, 1, 0,0,0,1, 8, 0, 1, 0,0,0,7, 2]" by code_simp
  from scan_request_roundtrip [OF this] show ?thesis by (simp add: open_tx_def)
qed

definition paging_link :: "kv_pair list \<Rightarrow> nat \<Rightarrow> unit link" where
  "paging_link kvs len = ack_link\<lparr>lk_request := (\<lambda>mt p fl s.
     (case run_reader read_scan_request p of
        Inl e \<Rightarrow> Inl e
      | Inr (i, route, lo, hi, n, fl) \<Rightarrow>
          let rest = scan_from (fl = 1 \<or> fl = 3) kvs lo (2 \<le> fl)
          in Inr (page_bytes \<lparr>kp_entries = take len rest, kp_has_more = (len < length rest)\<rparr>), s))\<rparr>"

lemma paging_link_serves:
  "0 < len \<Longrightarrow> tx_generation h = 1 \<Longrightarrow> serves_scans (paging_link kvs len) (\<lambda>_. True) h hi n rvs kvs"
  unfolding serves_scans_def
  by (intro conjI allI impI exI [of _ len] exI [of _ "()"])
     (auto simp: paging_link_def ack_link_def scan_request_read Let_def)

lemma kv_status_error_witness:
  "kv_status ''GET'' (reader_at [] (error_bytes 404 2 1 [0, 0, 0, 0])) =
     Inl (domain_error KV ''GET'' 404 (Some 2) (Some 1))"
proof -
  have "str_field [] = Inr [0, 0, 0, 0]" by code_simp
  then show ?thesis by (rule kv_status_error [rotated 6]) simp_all
qed

lemma scan_all_complete_witness:
  "\<exists>s'. tx_scan_all (paging_link [\<lparr>kv_key = [9], kv_value = [1]\<rparr>, \<lparr>kv_key = [8], kv_value = []\<rparr>,
       \<lparr>kv_key = [5], kv_value = [2]\<rparr>] 1) (Some [8]) None (Limit 1) True (open_tx, ()) =
     Some (([\<lparr>kv_key = [8], kv_value = []\<rparr>, \<lparr>kv_key = [5], kv_value = [2]\<rparr>], None), open_tx, s')"
  (is "\<exists>s'. tx_scan_all (paging_link ?kvs 1) _ _ _ _ _ = _")
proof -
  have "build_payload (tx_fields open_tx []) = Inr ([0, 0, 0, 0, 0, 0, 0, 5] @ [0, 0, 0, 0])" by code_simp
  moreover have "small_store True None ?kvs"
    by (simp add: small_store_def scan_before_def small_pair_def small_def)
  moreover have "scan_from True ?kvs (Some [8]) False = tl ?kvs"
    by (simp add: scan_from_def scan_before_def)
  moreover have "0 < retry_attempts (lk_retry (paging_link ?kvs 1)) True"
    by (simp add: paging_link_def ack_link_def default_config_def retry_attempts_def)
  ultimately show ?thesis
    using scan_all_complete [OF paging_link_serves, of 1 open_tx True None ?kvs _ "Limit 1" "Some 1" "Some [8]"]
    by (auto simp: open_tx_def small_def)
qed

end
