(* ===== verification/Queue.thy ===== *)
theory Queue
  imports Handles Routes Messages Extensions
begin

text \<open>
  \<open>domains/queue.py\<close>: enqueueing, reserving, and the life of a reserved item, which keeps its
  token and the generation it was reserved in. Items register no disconnect listener.
\<close>

section \<open>Data and checks\<close>

record availability =
  av_route :: ustr
  av_ready :: int
  av_delayed :: int
  av_inflight :: int

record queue_item =
  qi_route :: ustr
  qi_body :: bytes
  qi_id :: int
  qi_token :: int
  qi_generation :: int
  qi_closed :: bool

definition check_ttl :: "py_num \<Rightarrow> exn + int" where
  "check_ttl v =
     (case v of
        Py_int n \<Rightarrow> if 1 \<le> n \<and> n \<le> 0xFFFFFFFF then Inr n else Inl PyValueError
      | _ \<Rightarrow> Inl PyValueError)"

definition queue_exact :: "ustr \<Rightarrow> exn + unit" where
  "queue_exact route = guard_r (is_exact_route_shape route (lit ''queue'') 3) (bad QUEUE ''INVALID_ROUTE'')"

definition queue_selector :: "ustr \<Rightarrow> exn + unit" where
  "queue_selector route =
     guard_r (is_selector_route_shape route (lit ''queue'') 3 True False) (bad QUEUE ''INVALID_ROUTE'')"

definition require_capability :: "'s link \<Rightarrow> int \<Rightarrow> ('s, unit) io" where
  "require_capability lk i =
     io_bind (io_gets (lk_capabilities lk)) (\<lambda>ids.
       io_check (i \<in> set ids) (bad QUEUE ''UNSUPPORTED_CAPABILITY''))"

section \<open>Enqueue\<close>

definition opt_duration :: "py_num option \<Rightarrow> exn + int" where
  "opt_duration v = (case v of None \<Rightarrow> Inr 0 | Some d \<Rightarrow> check_duration d False)"

definition enqueue_fields :: "ustr \<Rightarrow> bytes \<Rightarrow> int \<Rightarrow> wop list" where
  "enqueue_fields route body seconds =
     [Route route, U32 (int (length body)), Raw body, U8 (of_bool (seconds > 0))] @
     (if seconds \<noteq> 0 then [U64 seconds] else [])"

definition id_reply :: "bytes \<Rightarrow> exn + int" where
  "id_reply data = run_reader
     (rd_bind (rd_get remaining_bytes) (\<lambda>left.
      if left \<noteq> 8 then rd_raise (bad QUEUE ''INVALID_RESPONSE'') else read_u64_be)) data"

definition enqueue_reply :: "bytes \<Rightarrow> exn + int" where
  "enqueue_reply raw = bind_r (reply_data (mapped_failure QUEUE ''ENQUEUE'') raw) id_reply"

definition queue_enqueue :: "'s link \<Rightarrow> ustr \<Rightarrow> bytes \<Rightarrow> py_num option \<Rightarrow> py_num option \<Rightarrow> ('s, int) io" where
  "queue_enqueue lk route body delay ttl =
     io_then (io_lift (queue_exact route))
    (io_bind (io_lift (opt_duration delay)) (\<lambda>seconds.
     case ttl of
       None \<Rightarrow> ask lk MSG_QUEUE_ENQUEUE (build_payload (enqueue_fields route body seconds)) 0 enqueue_reply
     | Some t \<Rightarrow>
         io_bind (io_lift (check_ttl t)) (\<lambda>hours.
         io_then (require_capability lk QUEUE_MESSAGE_TTL)
           (ask lk MSG_QUEUE_ENQUEUE
             (bind_r (build_payload (enqueue_fields route body seconds)) (\<lambda>p.
                encode_payload p [(1, be_bytes 4 hours)]))
             EXTENSIONS_PRESENT enqueue_reply))))"

section \<open>Reserve\<close>

definition read_reserved :: "ustr option \<Rightarrow> (ustr \<times> int \<times> int \<times> bytes) rd" where
  "read_reserved fixed =
     rd_bind (case fixed of None \<Rightarrow> read_route | Some r \<Rightarrow> rd_return r) (\<lambda>route.
     if \<not> is_exact_route_shape route (lit ''queue'') 3 then rd_raise (bad QUEUE ''INVALID_RESPONSE'')
     else rd_bind read_u64_be (\<lambda>i. rd_bind read_u64_be (\<lambda>token. rd_bind read_blob (\<lambda>body.
       rd_return (route, i, token, body)))))"

definition reserve_reply :: "ustr \<Rightarrow> bytes \<Rightarrow> exn + (ustr \<times> int \<times> int \<times> bytes) list" where
  "reserve_reply sel raw =
     bind_r (reply_data (mapped_failure QUEUE ''RESERVE'') raw) (run_reader
       (rd_bind (rd_get is_eof) (\<lambda>eof.
        if eof then rd_return []
        else rd_bind read_u32_be (\<lambda>count.
             rd_bind (rd_times (nat count) (read_reserved (if STAR \<in> set sel then None else Some sel))) (\<lambda>items.
             rd_bind (expect_eof (bad QUEUE ''INVALID_RESPONSE'')) (\<lambda>_. rd_return items))))))"

definition reserve_fields :: "ustr \<Rightarrow> int \<Rightarrow> int \<Rightarrow> int \<Rightarrow> wop list" where
  "reserve_fields sel lease batch wait =
     [Route sel, U64 lease, U8 1, U32 batch, U8 (of_bool (wait > 0))] @
     (if wait > 0 then [U64 wait] else [])"

text \<open>\<open>batch_size or 1\<close>: an absent size asks for one item.\<close>

definition queue_reserve ::
  "'s link \<Rightarrow> ustr \<Rightarrow> py_num \<Rightarrow> int option \<Rightarrow> py_num option \<Rightarrow> ('s, queue_item list) io" where
  "queue_reserve lk sel lease batch wait =
     io_then (io_lift (queue_selector sel))
    (io_bind (io_lift (check_duration lease True)) (\<lambda>l.
     io_bind (io_lift (opt_duration wait)) (\<lambda>w.
     io_then (io_check (case batch of None \<Rightarrow> True | Some b \<Rightarrow> 1 \<le> b \<and> b \<le> 1024) PyValueError)
    (io_bind (ask lk MSG_QUEUE_RESERVE
        (build_payload (reserve_fields sel l (case batch of None \<Rightarrow> 1 | Some b \<Rightarrow> b) w)) 0 (reserve_reply sel))
      (\<lambda>items. io_gets (\<lambda>s. map (\<lambda>(route, i, token, body).
         \<lparr>qi_route = route, qi_body = body, qi_id = i, qi_token = token,
          qi_generation = lk_generation lk s, qi_closed = False\<rparr>) items))))))"

section \<open>Items\<close>

text \<open>Items have no disconnect listener: the hook does nothing.\<close>

abbreviation item_link :: "'s link \<Rightarrow> (queue_item \<times> 's) link" where
  "item_link \<equiv> hook (\<lambda>q. q)"

definition item_ensure_valid :: "'s link \<Rightarrow> (queue_item \<times> 's, unit) io" where
  "item_ensure_valid lk = (\<lambda>(q, s).
     (if qi_closed q \<or> qi_generation q \<noteq> lk_generation lk s then Inl StaleHandleError else Inr (), (q, s)))"

definition item_fields :: "queue_item \<Rightarrow> wop list \<Rightarrow> wop list" where
  "item_fields q ops = [Route (qi_route q), U64 (qi_id q), U64 (qi_token q)] @ ops"

definition item_ask :: "'s link \<Rightarrow> int \<Rightarrow> string \<Rightarrow> wop list \<Rightarrow> (queue_item \<times> 's, unit) io" where
  "item_ask lk mt op ops =
     io_bind (io_gets fst) (\<lambda>q. ask (item_link lk) mt (build_payload (item_fields q ops)) 0
       (acknowledged QUEUE (plain_failure QUEUE op)))"

definition item_close :: "(queue_item \<times> 's, unit) io" where
  "item_close = io_modify (apfst (\<lambda>q. q\<lparr>qi_closed := True\<rparr>))"

text \<open>The three operations of the client on an item, and the methods of the item over them.\<close>

definition queue_extend :: "'s link \<Rightarrow> py_num \<Rightarrow> (queue_item \<times> 's, unit) io" where
  "queue_extend lk lease =
     io_bind (io_lift (check_duration lease True)) (\<lambda>l. item_ask lk MSG_QUEUE_EXTEND ''EXTEND'' [U64 l])"

definition queue_complete :: "'s link \<Rightarrow> (queue_item \<times> 's, unit) io" where
  "queue_complete lk = item_ask lk MSG_QUEUE_COMPLETE ''COMPLETE'' []"

definition queue_nack :: "'s link \<Rightarrow> py_num \<Rightarrow> (queue_item \<times> 's, unit) io" where
  "queue_nack lk visibility =
     io_bind (io_lift (check_duration visibility False)) (\<lambda>v.
       io_then (require_capability (item_link lk) QUEUE_NACK)
         (item_ask lk MSG_QUEUE_NACK ''NACK'' [U64 v]))"

definition item_extend :: "'s link \<Rightarrow> py_num \<Rightarrow> (queue_item \<times> 's, unit) io" where
  "item_extend lk lease = io_then (item_ensure_valid lk) (queue_extend lk lease)"

definition item_complete :: "'s link \<Rightarrow> (queue_item \<times> 's, unit) io" where
  "item_complete lk = io_then (io_then (item_ensure_valid lk) (queue_complete lk)) item_close"

definition item_nack :: "'s link \<Rightarrow> py_num \<Rightarrow> (queue_item \<times> 's, unit) io" where
  "item_nack lk visibility = io_then (io_then (item_ensure_valid lk) (queue_nack lk visibility)) item_close"

section \<open>Availability\<close>

definition queue_subscribe_wire :: "'s link \<Rightarrow> ustr \<Rightarrow> ('s, int) io" where
  "queue_subscribe_wire lk sel =
     ask lk MSG_QUEUE_SUBSCRIBE (build_payload [Route sel]) 0
       (\<lambda>raw. bind_r (reply_data (plain_failure QUEUE ''SUBSCRIBE'') raw) (marked_id QUEUE))"

definition queue_unsubscribe_wire :: "'s link \<Rightarrow> ustr \<Rightarrow> ('s, unit) io" where
  "queue_unsubscribe_wire lk sel =
     ask lk MSG_QUEUE_UNSUBSCRIBE (build_payload [Route sel]) 0
       (acknowledged QUEUE (plain_failure QUEUE ''UNSUBSCRIBE''))"

definition queue_subscribe ::
  "'s link \<Rightarrow> ustr \<Rightarrow> availability registry \<Rightarrow> 's \<Rightarrow> ((exn + nat) \<times> availability registry) \<times> 's" where
  "queue_subscribe lk sel r s =
     (case queue_selector sel of
        Inl e \<Rightarrow> ((Inl e, r), s)
      | Inr _ \<Rightarrow> registry_subscribe (queue_subscribe_wire lk sel) sel r s)"

definition queue_notification :: "bytes \<Rightarrow> exn + int \<times> availability" where
  "queue_notification = run_reader
     (rd_bind read_u64_be (\<lambda>i. rd_bind read_route (\<lambda>route. rd_bind read_u64_be (\<lambda>ready.
      rd_bind read_u64_be (\<lambda>delayed. rd_bind read_u64_be (\<lambda>inflight.
      rd_bind (expect_eof (bad QUEUE ''INVALID_RESPONSE'')) (\<lambda>_. rd_return (i,
        \<lparr>av_route = route, av_ready = ready, av_delayed = delayed, av_inflight = inflight\<rparr>))))))))"

definition queue_notify :: "bytes \<Rightarrow> availability registry \<Rightarrow> exn option \<times> availability registry" where
  "queue_notify = registry_notify queue_notification"

end
