(* ===== verification/Queue_Proofs.thy ===== *)
theory Queue_Proofs
  imports Queue
begin

text \<open>
  What the queue client guarantees: the frames and the single end of a reserved item, and that
  reserved items are read back as the broker sent them.
\<close>

section \<open>The life of an item\<close>

datatype 's item_op = Extend py_num | Complete | Nack py_num | Wait "'s \<Rightarrow> 's"

fun item_step :: "'s link \<Rightarrow> 's item_op \<Rightarrow> queue_item \<times> 's \<times> sent \<Rightarrow> exn option \<times> queue_item \<times> 's \<times> sent" where
  "item_step lk (Extend l) st = outcome (item_extend (traced lk) l st)"
| "item_step lk Complete st = outcome (item_complete (traced lk) st)"
| "item_step lk (Nack v) st = outcome (item_nack (traced lk) v st)"
| "item_step lk (Wait f) (q, s, l) = (None, q, f s, l)"

definition item_same :: "queue_item \<Rightarrow> queue_item \<Rightarrow> bool" where
  "item_same q q' \<longleftrightarrow> (\<exists>b. q' = q\<lparr>qi_closed := b\<rparr>)"

definition of_item :: "queue_item \<Rightarrow> int \<times> int \<times> bytes \<Rightarrow> bool" where
  "of_item q f \<longleftrightarrow> fst f = qi_generation q \<and>
     (\<exists>pre rest. build_payload (item_fields q []) = Inr pre \<and> snd (snd f) = pre @ rest)"

abbreviation item_moves :: "queue_item \<times> 's \<times> sent \<Rightarrow> queue_item \<times> 's \<times> sent \<Rightarrow> bool" where
  "item_moves \<equiv> handle_moves item_same of_item qi_closed (\<lambda>_. False)"

interpretation item: handle item_same of_item qi_closed "\<lambda>_. False" "\<lambda>q. q"
proof
  fix q q' q'' :: queue_item and f
  show "item_same q q" unfolding item_same_def by (rule exI [of _ "qi_closed q"]) simp
  show "item_same q q' \<Longrightarrow> item_same q' q'' \<Longrightarrow> item_same q q''" by (auto simp: item_same_def)
  show "item_same q q' \<Longrightarrow> of_item q' f = of_item q f"
    by (auto simp: item_same_def of_item_def item_fields_def)
qed

lemma item_fields_prefix:
  assumes "build_payload (item_fields q ops) = Inr p"
  shows "\<exists>pre rest. build_payload (item_fields q []) = Inr pre \<and> p = pre @ rest"
  using assms by (auto simp: build_payload_spec item_fields_def bind_r_Inr_iff)

lemma item_guarded_ask:
  fixes lk :: "'s link" and guard :: "(queue_item \<times> 's \<times> sent, 'u) io"
  assumes "\<And>q s r st. guard (q, s) = (r, st) \<Longrightarrow> st = (q, s) \<and>
    ((\<exists>e. r = Inl e) \<or> \<not> qi_closed q \<and> lk_generation (traced lk) s = qi_generation q)"
  shows "moves item_moves (io_bind guard (\<lambda>u. item_ask (traced lk) mt op (ops u)))"
proof -
  have "case guard (q, s) of (Inl e, st) \<Rightarrow> st = (q, s)
      | (Inr u, st) \<Rightarrow> st = (q, s) \<and> \<not> qi_closed q \<and>
         (\<forall>p. build_payload (item_fields q (ops u)) = Inr p \<longrightarrow>
            of_item q (lk_generation (traced lk) s, mt, p) \<and> \<not> False)" for q s
    using assms [of q s] item_fields_prefix
    by (fastforce simp: of_item_def split: prod.split sum.split)
  then show ?thesis unfolding item_ask_def by (rule item.handle_guarded_ask)
qed

lemma item_moves_close: "moves item_moves item_close"
proof (unfold moves_def, intro allI)
  fix st :: "queue_item \<times> 's \<times> sent"
  obtain q s l where "st = (q, s, l)" by (metis prod_cases3)
  moreover have "item_same q (q\<lparr>qi_closed := True\<rparr>)" unfolding item_same_def by blast
  ultimately show "item_moves st (snd (item_close st))"
    by (simp add: item_close_def handle_moves_def)
qed

lemma item_moves_ops:
  "moves item_moves (item_extend (traced lk) l)" "moves item_moves (item_complete (traced lk))"
  "moves item_moves (item_nack (traced lk) v)"
  unfolding item_extend_def item_complete_def item_nack_def queue_extend_def queue_complete_def queue_nack_def
proof -
  show "moves item_moves (io_then (item_ensure_valid (traced lk))
       (io_bind (io_lift (check_duration l True)) (\<lambda>l. item_ask (traced lk) MSG_QUEUE_EXTEND ''EXTEND'' [U64 l])))"
    unfolding io_bind_assoc [symmetric]
    by (rule item_guarded_ask) (auto simp: item_ensure_valid_def io_bind_def split: if_splits)
  show "moves item_moves (io_then (io_then (item_ensure_valid (traced lk)) (item_ask (traced lk) MSG_QUEUE_COMPLETE ''COMPLETE'' [])) item_close)"
    by (intro item.handle_bind item_moves_close item_guarded_ask)
       (auto simp: item_ensure_valid_def split: if_splits)
  let ?guard = "io_then (item_ensure_valid (traced lk)) (io_bind (io_lift (check_duration v False)) (\<lambda>v.
    io_then (require_capability (item_link (traced lk)) QUEUE_NACK) (io_return v)))"
  have "moves item_moves (io_bind ?guard (\<lambda>v. item_ask (traced lk) MSG_QUEUE_NACK ''NACK'' [U64 v]))"
    by (rule item_guarded_ask)
       (auto simp: item_ensure_valid_def require_capability_def io_bind_def split: if_splits sum.splits)
  then have "moves item_moves (io_then (item_ensure_valid (traced lk))
       (io_bind (io_lift (check_duration v False)) (\<lambda>v.
        io_then (require_capability (item_link (traced lk)) QUEUE_NACK)
          (item_ask (traced lk) MSG_QUEUE_NACK ''NACK'' [U64 v]))))"
    by (simp add: io_bind_assoc io_return_bind)
  then show "moves item_moves (io_then (io_then (item_ensure_valid (traced lk))
       (io_bind (io_lift (check_duration v False)) (\<lambda>v.
        io_then (require_capability (item_link (traced lk)) QUEUE_NACK)
          (item_ask (traced lk) MSG_QUEUE_NACK ''NACK'' [U64 v])))) item_close)"
    by (rule item.handle_bind [OF _ item_moves_close])
qed

lemma item_moves_step: "item_moves st (snd (item_step lk x st))"
proof (cases x)
  case (Wait f)
  obtain q s l where "st = (q, s, l)" by (metis prod_cases3)
  then show ?thesis using Wait by (simp add: handle_moves_def item.same_refl)
qed (simp_all add: item_moves_ops [THEN moves_D])

text \<open>The calls of a run that ended the item.\<close>

fun ending :: "'s item_op \<Rightarrow> bool" where
  "ending Complete = True"
| "ending (Nack v) = True"
| "ending _ = False"

lemma item_closed_refuses:
  "qi_closed q \<Longrightarrow> ending x \<Longrightarrow> item_step lk x (q, s, l) = (Some StaleHandleError, q, s, l)"
  by (cases x) (simp_all add: item_complete_def item_nack_def item_ensure_valid_def io_bind_def outcome_def)

lemma item_success_closes:
  "ending x \<Longrightarrow> fst (item_step lk x st) = None \<Longrightarrow> qi_closed (fst (snd (item_step lk x st)))"
  by (cases x) (auto simp: outcome_def item_complete_def item_nack_def io_bind_def item_close_def
      split: sum.splits prod.splits)

lemma item_stays_closed: "qi_closed (fst st) \<Longrightarrow> qi_closed (fst (snd (item_step lk x st)))"
  using item_moves_step [of st lk x] by (auto simp: handle_moves_def split: prod.splits)

text \<open>An item is completed or returned at most once.\<close>

lemma item_ends_once: "successes ending xs (fst (exec_ops (item_step lk) xs st)) \<le> 1"
proof (rule successes_once [where dead = "\<lambda>st. qi_closed (fst st)"])
  fix x :: "'a item_op" and st :: "queue_item \<times> 'a \<times> sent"
  obtain q s l where st: "st = (q, s, l)" by (metis prod_cases3)
  show "qi_closed (fst st) \<Longrightarrow> ending x \<Longrightarrow> fst (item_step lk x st) \<noteq> None"
    using item_closed_refuses [of q x lk s l] by (simp add: st)
  show "qi_closed (fst st) \<Longrightarrow> qi_closed (fst (snd (item_step lk x st)))"
    by (rule item_stays_closed)
  show "ending x \<Longrightarrow> fst (item_step lk x st) = None \<Longrightarrow> qi_closed (fst (snd (item_step lk x st)))"
    by (rule item_success_closes)
qed

text \<open>
  C23. Over any sequence of calls on a reserved item every frame carries its id and token in its
  own generation, a closed item sends nothing, and at most one complete or nack succeeds.
\<close>

lemma item_frames:
  fixes q :: queue_item and lk :: "'s link" and s :: 's and xs :: "'s item_op list"
  defines "after \<equiv> exec_ops (item_step lk) xs (q, s, [])"
  shows "(\<forall>f\<in>set (snd (snd (snd after))). of_item q f) \<and> (qi_closed q \<longrightarrow> snd (snd (snd after)) = []) \<and>
    successes ending xs (fst after) \<le> 1"
  using item.handle_run [where step = "item_step lk" and st = "(q, s, [])" and xs = xs, OF item_moves_step]
    item_ends_once [of xs lk "(q, s, [])"]
  by (auto simp: handle_moves_def after_def split: prod.splits)

definition held_item :: queue_item where
  "held_item = \<lparr>qi_route = [], qi_body = [], qi_id = 2, qi_token = 3, qi_generation = 1, qi_closed = False\<rparr>"

lemma item_ask_ack:
  "build_payload (item_fields q ops) = Inr p \<Longrightarrow>
   item_ask (traced ack_link) mt op ops (q, (), l) = (Inr (), q, (), l @ [(1, mt, p)])"
  by (simp add: item_ask_def ask_def io_bind_def ack_link_def hear_def Let_def)

lemma held_payload:
  "build_payload (item_fields held_item []) = Inr [0,0,0,0, 0,0,0,0,0,0,0,2, 0,0,0,0,0,0,0,3]"
  "build_payload (item_fields held_item [U64 5]) =
     Inr [0,0,0,0, 0,0,0,0,0,0,0,2, 0,0,0,0,0,0,0,3, 0,0,0,0,0,0,0,5]"
  by code_simp+

lemma held_sent:
  "snd (snd (snd (exec_ops (item_step ack_link) [Extend (Py_int 5), Complete, Nack (Py_int 0)] (held_item, (), [])))) =
     [(1, 203, [0,0,0,0, 0,0,0,0,0,0,0,2, 0,0,0,0,0,0,0,3, 0,0,0,0,0,0,0,5]),
      (1, 204, [0,0,0,0, 0,0,0,0,0,0,0,2, 0,0,0,0,0,0,0,3])]"
proof -
  have open_item: "item_ensure_valid (traced ack_link) (held_item, (), l) = (Inr (), held_item, (), l)" for l
    by (simp add: item_ensure_valid_def held_item_def ack_link_def)
  have "item_ensure_valid (traced ack_link) (held_item\<lparr>qi_closed := True\<rparr>, (), l) =
      (Inl StaleHandleError, held_item\<lparr>qi_closed := True\<rparr>, (), l)" for l
    by (simp add: item_ensure_valid_def)
  then show ?thesis
    by (simp add: item_extend_def item_complete_def item_nack_def queue_extend_def queue_complete_def queue_nack_def io_bind_def check_duration_def open_item
        item_ask_ack [OF held_payload(1)] item_ask_ack [OF held_payload(2)] item_close_def outcome_def)
qed

lemma item_frames_witness:
  "of_item held_item (1, 203, [0,0,0,0, 0,0,0,0,0,0,0,2, 0,0,0,0,0,0,0,3, 0,0,0,0,0,0,0,5]) \<and>
   of_item held_item (1, 204, [0,0,0,0, 0,0,0,0,0,0,0,2, 0,0,0,0,0,0,0,3])"
  using item_frames [of ack_link "[Extend (Py_int 5), Complete, Nack (Py_int 0)]" held_item "()"]
  unfolding held_sent by simp

section \<open>Replies\<close>

text \<open>What a reservation answers for its selector: the route is sent only for a wildcard.\<close>

definition item_bytes :: "bool \<Rightarrow> ustr \<times> int \<times> int \<times> bytes \<Rightarrow> exn + bytes" where
  "item_bytes wild it = (case it of (route, i, token, body) \<Rightarrow>
     build_payload ((if wild then [Route route] else []) @ [U64 i, U64 token, U32 (int (length body)), Raw body]))"

lemma read_item_bytes:
  assumes "item_bytes (fixed = None) (route, i, token, body) = Inr bs"
    and "is_exact_route_shape route (lit ''queue'') 3" "fixed = None \<or> fixed = Some route"
  shows "read_reserved fixed (reader_at pre (bs @ suf)) = Inr ((route, i, token, body), reader_at (pre @ bs) suf)"
proof (cases fixed)
  case None
  then obtain fld where "str_field route = Inr fld" "0 \<le> i" "i < 18446744073709551616" "0 \<le> token"
    "token < 18446744073709551616" "int (length body) < 4294967296"
    "bs = fld @ be_bytes 8 i @ be_bytes 8 token @ be_bytes 4 (int (length body)) @ body"
    using assms(1) by (auto simp: item_bytes_def build_payload_spec bind_r_Inr_iff pack_Inr_iff)
  then show ?thesis using None assms(2) by (simp add: read_reserved_def)
next
  case (Some r)
  then have "0 \<le> i" "i < 18446744073709551616" "0 \<le> token"
    "token < 18446744073709551616" "int (length body) < 4294967296"
    "bs = be_bytes 8 i @ be_bytes 8 token @ be_bytes 4 (int (length body)) @ body"
    using assms(1) by (auto simp: item_bytes_def build_payload_spec bind_r_Inr_iff pack_Inr_iff)
  then show ?thesis using Some assms(2,3) by (simp add: read_reserved_def)
qed

definition servable :: "ustr \<Rightarrow> ustr \<times> int \<times> int \<times> bytes \<Rightarrow> bool" where
  "servable sel it \<longleftrightarrow> is_exact_route_shape (fst it) (lit ''queue'') 3 \<and> (STAR \<in> set sel \<or> fst it = sel)"

lemma read_items_bytes:
  assumes "concat_r (map (item_bytes (STAR \<in> set sel)) items) = Inr bs" "\<forall>it\<in>set items. servable sel it"
  shows "rd_times (length items) (read_reserved (if STAR \<in> set sel then None else Some sel)) (reader_at pre (bs @ suf)) =
    Inr (items, reader_at (pre @ bs) suf)"
  using assms
proof (induction items arbitrary: pre bs)
  case (Cons it items)
  obtain route i token body where it: "it = (route, i, token, body)" by (metis prod_cases4)
  let ?fixed = "if STAR \<in> set sel then None else Some sel"
  have wild: "(?fixed = None) = (STAR \<in> set sel)" by simp
  obtain b1 b2 where b: "item_bytes (STAR \<in> set sel) it = Inr b1"
    "concat_r (map (item_bytes (STAR \<in> set sel)) items) = Inr b2" "bs = b1 @ b2"
    using Cons.prems(1) by (auto simp: bind_r_Inr_iff)
  have "read_reserved ?fixed (reader_at pre (b1 @ b2 @ suf)) = Inr (it, reader_at (pre @ b1) (b2 @ suf))"
    unfolding it by (rule read_item_bytes) (use b(1) it Cons.prems(2) in \<open>auto simp: servable_def\<close>)
  moreover have "rd_times (length items) (read_reserved ?fixed) (reader_at (pre @ b1) (b2 @ suf)) =
      Inr (items, reader_at ((pre @ b1) @ b2) suf)"
    using Cons.IH [OF b(2)] Cons.prems(2) by simp
  ultimately show ?case using b(3) by (simp add: rd_bind_def)
qed simp

lemma be_bytes_ne4: "be_bytes 4 v \<noteq> []"
  by (metis length_be_bytes list.size(3) zero_neq_numeral)

lemma reserve_roundtrip:
  assumes "concat_r (map (item_bytes (STAR \<in> set sel)) items) = Inr bs" "\<forall>it\<in>set items. servable sel it"
    "length items < 4294967296"
  shows "reserve_reply sel (0 # be_bytes 4 (int (length items)) @ bs) = Inr items"
  using read_items_bytes [OF assms(1,2), of "be_bytes 4 (int (length items))" "[]"] assms(3)
    be_bytes_ne4
  by (simp add: reserve_reply_def run_reader_def new_reader_at rd_bind_Inr)

lemma reserve_roundtrip_witness:
  "reserve_reply (lit ''queue://a/b/c'')
     (0 # be_bytes 4 1 @ [0,0,0,0,0,0,0,7, 0,0,0,0,0,0,0,9, 0,0,0,2, 1,2]) =
   Inr [(lit ''queue://a/b/c'', 7, 9, [1, 2])]"
proof -
  have bytes: "concat_r (map (item_bytes (STAR \<in> set (lit ''queue://a/b/c''))) [(lit ''queue://a/b/c'', 7, 9, [1, 2])]) =
      Inr [0,0,0,0,0,0,0,7, 0,0,0,0,0,0,0,9, 0,0,0,2, 1,2]" by code_simp
  have "is_exact_route_shape (lit ''queue://a/b/c'') (lit ''queue'') 3" by code_simp
  then show ?thesis using reserve_roundtrip [OF bytes] by (simp add: servable_def)
qed

end
