(* ===== verification/Codec.thy ===== *)
theory Codec
  imports Buffer
begin

text \<open>
  Decoders against the writes they invert. \<open>reads m ops x\<close>: on the bytes of \<open>ops\<close>, whatever
  follows them, \<open>m\<close> returns \<open>x\<close> and has consumed exactly these bytes; \<open>decodes\<close> is the same at
  the end of a payload. The rules follow the code of a decoder statement by statement.
\<close>

definition reads :: "'a rd \<Rightarrow> wop list \<Rightarrow> 'a \<Rightarrow> bool" where
  "reads m ops x \<longleftrightarrow> (\<forall>pre bs suf. concat_r (map wop_bytes ops) = Inr bs \<longrightarrow>
     m (reader_at pre (bs @ suf)) = Inr (x, reader_at (pre @ bs) suf))"

definition decodes :: "'a rd \<Rightarrow> wop list \<Rightarrow> 'a \<Rightarrow> bool" where
  "decodes m ops x \<longleftrightarrow> (\<forall>pre bs. concat_r (map wop_bytes ops) = Inr bs \<longrightarrow>
     m (reader_at pre bs) = Inr (x, reader_at (pre @ bs) []))"

definition blob :: "bytes \<Rightarrow> wop list" where
  "blob bs = [U32 (int (length bs)), Raw bs]"

lemma reads_decodes: "reads m ops x \<Longrightarrow> decodes m ops x"
  unfolding reads_def decodes_def by (metis append_Nil2)

lemma concat_ops_append:
  "concat_r (map wop_bytes (xs @ ys)) = Inr bs \<longleftrightarrow>
   (\<exists>b c. concat_r (map wop_bytes xs) = Inr b \<and> concat_r (map wop_bytes ys) = Inr c \<and> bs = b @ c)"
  by (auto simp: concat_r_append bind_r_Inr_iff)

named_theorems codec \<open>one rule per statement of a decoder\<close>

lemma reads_bind: "reads m xs x \<Longrightarrow> reads (f x) ys y \<Longrightarrow> reads (rd_bind m f) (xs @ ys) y"
  unfolding reads_def by (auto simp: concat_ops_append rd_bind_Inr simp del: map_append)

lemma decodes_bind: "reads m xs x \<Longrightarrow> decodes (f x) ys y \<Longrightarrow> decodes (rd_bind m f) (xs @ ys) y"
  unfolding reads_def decodes_def by (auto simp: concat_ops_append rd_bind_Inr simp del: map_append)

lemma reads_return [codec]: "x = y \<Longrightarrow> reads (rd_return x) [] y" "x = y \<Longrightarrow> decodes (rd_return x) [] y"
  by (simp_all add: reads_def decodes_def)

lemma reads_eof [codec]: "decodes (f ()) [] y \<Longrightarrow> decodes (rd_bind (expect_eof e) f) [] y"
  "decodes (expect_eof e) [] ()"
  by (simp_all add: decodes_def)

lemma rd_bind_return: "rd_bind m rd_return = m"
  by (auto simp: rd_bind_def rd_return_def bind_r_def fun_eq_iff split: sum.splits)

lemma reads_lift: "r = Inr u \<Longrightarrow> reads (f u) ops y \<Longrightarrow> reads (rd_bind (rd_lift r) f) ops y"
  "r = Inr u \<Longrightarrow> decodes (f u) ops y \<Longrightarrow> decodes (rd_bind (rd_lift r) f) ops y"
  by (simp_all add: reads_def decodes_def)

lemma reads_by_bind:
  assumes "\<And>pre bs suf. concat_r (map wop_bytes ops) = Inr bs \<Longrightarrow>
    rd_bind m rd_return (reader_at pre (bs @ suf)) = rd_return x (reader_at (pre @ bs) suf)"
  shows "reads m ops x"
  using assms unfolding reads_def rd_bind_return by simp

lemma reads_fields:
  "reads read_u8 [U8 v] v" "reads read_u16_be [U16 v] v" "reads read_u32_be [U32 v] v"
  "reads read_u64_be [U64 v] v" "reads read_string [Str s] s" "reads read_route [Route s] s"
  "reads read_optional_u64 [OptU64 w] w" "reads read_blob (blob bs) bs"
  by (rule reads_by_bind; auto simp: bind_r_Inr_iff pack_Inr_iff blob_def)+

lemma reads_first [codec]:
  "reads (f v) ops y \<Longrightarrow> reads (rd_bind read_u8 f) (U8 v # ops) y"
  "reads (g v) ops y \<Longrightarrow> reads (rd_bind read_u32_be g) (U32 v # ops) y"
  "reads (h v) ops y \<Longrightarrow> reads (rd_bind read_u64_be h) (U64 v # ops) y"
  "reads (k s) ops y \<Longrightarrow> reads (rd_bind read_string k) (Str s # ops) y"
  "reads (l s) ops y \<Longrightarrow> reads (rd_bind read_route l) (Route s # ops) y"
  "reads (n bs) ops y \<Longrightarrow> reads (rd_bind read_blob n) (blob bs @ ops) y"
  "reads (p w) ops y \<Longrightarrow> reads (rd_bind read_u16_be p) (U16 w # ops) y"
  using reads_bind [OF reads_fields(1), of f v ops y] reads_bind [OF reads_fields(3), of g v ops y]
    reads_bind [OF reads_fields(4), of h v ops y] reads_bind [OF reads_fields(5), of k s ops y]
    reads_bind [OF reads_fields(6), of l s ops y] reads_bind [OF reads_fields(8), of n bs ops y]
    reads_bind [OF reads_fields(2), of p w ops y]
  by simp_all

lemma decodes_first [codec]:
  "decodes (f v) ops y \<Longrightarrow> decodes (rd_bind read_u8 f) (U8 v # ops) y"
  "decodes (g v) ops y \<Longrightarrow> decodes (rd_bind read_u32_be g) (U32 v # ops) y"
  "decodes (h v) ops y \<Longrightarrow> decodes (rd_bind read_u64_be h) (U64 v # ops) y"
  "decodes (k s) ops y \<Longrightarrow> decodes (rd_bind read_string k) (Str s # ops) y"
  "decodes (l s) ops y \<Longrightarrow> decodes (rd_bind read_route l) (Route s # ops) y"
  "decodes (n bs) ops y \<Longrightarrow> decodes (rd_bind read_blob n) (blob bs @ ops) y"
  "decodes (p w) ops y \<Longrightarrow> decodes (rd_bind read_u16_be p) (U16 w # ops) y"
  using decodes_bind [OF reads_fields(1), of f v ops y] decodes_bind [OF reads_fields(3), of g v ops y]
    decodes_bind [OF reads_fields(4), of h v ops y] decodes_bind [OF reads_fields(5), of k s ops y]
    decodes_bind [OF reads_fields(6), of l s ops y] decodes_bind [OF reads_fields(8), of n bs ops y]
    decodes_bind [OF reads_fields(2), of p w ops y]
  by simp_all

lemma decodes_last [codec]:
  "decodes (n bs) [] y \<Longrightarrow> decodes (rd_bind read_blob n) (blob bs) y"
  using decodes_first(6) [of n bs "[]" y] by simp

lemma reads_last [codec]:
  "reads (n bs) [] y \<Longrightarrow> reads (rd_bind read_blob n) (blob bs) y"
  using reads_first(6) [of n bs "[]" y] by simp

lemma reads_times:
  "(\<And>x. x \<in> set xs \<Longrightarrow> reads m (ops x) x) \<Longrightarrow>
   reads (rd_times (length xs) m) (concat (map ops xs)) xs"
proof (induction xs)
  case (Cons x xs)
  have "reads (rd_bind m (\<lambda>x. rd_bind (rd_times (length xs) m) (\<lambda>xs. rd_return (x # xs))))
      (ops x @ (concat (map ops xs) @ [])) (x # xs)"
    using Cons by (intro reads_bind [of _ _ x] reads_bind [of _ _ xs]) (simp_all add: codec)
  then show ?case by simp
qed (simp add: codec)

lemma decodes_run: "decodes m ops x \<Longrightarrow> build_payload ops = Inr bs \<Longrightarrow> run_reader m bs = Inr x"
  by (auto simp: decodes_def build_payload_spec run_reader_def new_reader_at)

lemma build_payload_append:
  "build_payload (xs @ ys) = Inr bs \<longleftrightarrow>
   (\<exists>b c. build_payload xs = Inr b \<and> build_payload ys = Inr c \<and> bs = b @ c)"
  unfolding build_payload_spec by (rule concat_ops_append)

text \<open>Short ASCII strings can always be written.\<close>

lemma str_field_ascii:
  assumes "list_all (\<lambda>c. c < 128) s" "length s < 4294967296"
  shows "str_field s = Inr (be_bytes 4 (int (length s)) @ map u8_of s)"
proof -
  have "concat (map utf8_char s) = map u8_of s" "list_all scalar s"
    using assms(1) by (induction s) (auto simp: utf8_char.simps scalar_def)
  then have "utf8_encode s = Inr (map u8_of s)" by (simp add: utf8_encode_def)
  then show ?thesis using assms(2) by (simp add: str_field_Inr_iff)
qed

end
