(* ===== verification/Stream.thy ===== *)
theory Stream
  imports Handles Routes Messages Codec
begin

text \<open>
  \<open>domains/stream.py\<close>: append sessions, reads with filters and cursors, metadata and commit
  notifications. A session is a handle beside the state of its link and registers a disconnect
  listener. JSON decoding is the standard library's; \<open>json_loads\<close> is an argument.
\<close>

section \<open>Data\<close>

record stream_record =
  sr_route :: ustr
  sr_offset :: int
  sr_area :: "int option"
  sr_realm :: "int option"
  sr_global :: "int option"
  sr_body :: bytes
  sr_metadata :: "bytes option"
  sr_timestamp :: int

record stream_metadata =
  md_first :: int
  md_last :: int
  md_count :: int
  md_max_events :: "int option"
  md_max_bytes :: "int option"
  md_ttl :: "int option"
  md_area :: "int option"
  md_realm :: "int option"

text \<open>A filter clause as its caller built it: any kind, with both of its value fields.\<close>

record filter_clause =
  fc_kind :: string
  fc_value :: ustr
  fc_values :: "ustr list"

datatype filtered_reason = SERVER_FILTER | PERMISSION | PROJECTION

text \<open>The three kinds of read items with the fields each kind fills.\<close>

datatype stream_item =
    Event ustr stream_record
  | Filtered ustr int "filtered_reason option"
  | Filtered_range ustr int int "filtered_reason option"

record read_cursor =
  rc_resource :: int
  rc_area :: "int option"
  rc_realm :: "int option"
  rc_global :: "int option"
  rc_fingerprint :: "int option"
  rc_watermark :: "int option"
  rc_has_more :: bool

record read_page =
  rp_items :: "stream_item list"
  rp_cursor :: read_cursor

definition empty_cursor :: read_cursor where
  "empty_cursor = \<lparr>rc_resource = 0, rc_area = None, rc_realm = None, rc_global = None,
     rc_fingerprint = None, rc_watermark = None, rc_has_more = False\<rparr>"

record commit_note =
  cn_route :: ustr
  cn_event :: ustr
  cn_first_resource :: int
  cn_last_resource :: int
  cn_first_area :: int
  cn_last_area :: int
  cn_first_realm :: int
  cn_last_realm :: int
  cn_batch :: int

record session =
  ss_id :: int
  ss_generation :: int
  ss_closed :: bool
  ss_reason :: "string option"
  ss_listening :: bool

section \<open>Routes\<close>

definition assert_stream_route :: "ustr \<Rightarrow> exn + unit" where
  "assert_stream_route route =
     guard_r (is_exact_route_shape route (lit ''stream'') 3) (bad STREAM ''INVALID_ROUTE'')"

definition assert_stream_pattern :: "ustr \<Rightarrow> exn + unit" where
  "assert_stream_pattern pat =
     guard_r (\<not> (pat = lit ''stream://*/**'' \<or> \<not> is_selector_route_shape pat (lit ''stream'') 3 True False))
       (bad STREAM ''INVALID_ROUTE'')"

section \<open>Sessions\<close>

text \<open>\<open>_invalidate\<close>, which also unregisters the listener.\<close>

definition session_invalidate :: "session \<Rightarrow> session" where
  "session_invalidate h =
     (if \<not> ss_listening h \<or> ss_closed h then h
      else h\<lparr>ss_closed := True, ss_reason := Some ''disconnected'', ss_listening := False\<rparr>)"

abbreviation session_link :: "'s link \<Rightarrow> (session \<times> 's) link" where
  "session_link \<equiv> hook session_invalidate"

definition session_ensure_open :: "'s link \<Rightarrow> (session \<times> 's, unit) io" where
  "session_ensure_open lk = (\<lambda>(h, s).
     (if \<not> ss_closed h \<and> ss_generation h = lk_generation lk s then Inr () else Inl StaleHandleError, (h, s)))"

definition opt_field :: "wop list option \<Rightarrow> wop list" where
  "opt_field v = (case v of None \<Rightarrow> [U8 0] | Some ops \<Rightarrow> U8 1 # ops)"

definition append_fields :: "session \<Rightarrow> int \<Rightarrow> bytes \<Rightarrow> bytes option \<Rightarrow> ustr option \<Rightarrow> wop list" where
  "append_fields h expected body metadata disc =
     [U64 (ss_id h), U64 expected] @ blob body @ opt_field (map_option blob metadata) @
     opt_field (map_option (\<lambda>d. [Str d]) disc)"

definition append_reply :: "bytes \<Rightarrow> exn + int option" where
  "append_reply raw =
     bind_r (reply_data (plain_failure STREAM ''APPEND'') raw) (\<lambda>d.
       if d = [] then Inr None
       else run_reader (rd_bind read_blob (\<lambda>bs. rd_bind (expect_eof (bad STREAM ''INVALID_RESPONSE'')) (\<lambda>_.
         rd_return (if length bs = 8 then Some (be_int bs) else None)))) d)"

definition session_append ::
  "'s link \<Rightarrow> int \<Rightarrow> bytes \<Rightarrow> bytes option \<Rightarrow> ustr option \<Rightarrow> (session \<times> 's, int option) io" where
  "session_append lk expected body metadata disc =
     io_bind (session_ensure_open lk) (\<lambda>_. io_bind (io_gets fst) (\<lambda>h.
       ask (session_link lk) MSG_STREAM_APPEND (build_payload (append_fields h expected body metadata disc)) 0
         append_reply))"

text \<open>\<open>_expect_status\<close>\<close>

definition status_reply :: "int \<Rightarrow> string \<Rightarrow> bytes \<Rightarrow> exn + unit" where
  "status_reply mt op raw =
     bind_r (reply_data (plain_failure STREAM op) raw) (\<lambda>d.
       if mt = MSG_STREAM_COMMIT
       then run_reader (rd_bind read_blob (\<lambda>_. expect_eof (bad STREAM ''INVALID_RESPONSE''))) d
       else expect_empty STREAM d)"

definition session_end :: "string \<Rightarrow> (session \<times> 's, unit) io" where
  "session_end reason =
     io_modify (apfst (\<lambda>h. h\<lparr>ss_closed := True, ss_reason := Some reason, ss_listening := False\<rparr>))"

definition commit_mode :: "string \<Rightarrow> exn + bool" where
  "commit_mode s = (if s = ''buffered'' then Inr False else if s = ''sync'' then Inr True else Inl PyValueError)"

definition session_commit :: "'s link \<Rightarrow> string \<Rightarrow> (session \<times> 's, unit) io" where
  "session_commit lk mode =
     io_then (io_bind (io_then (session_ensure_open lk) (io_lift (commit_mode mode))) (\<lambda>sync.
       io_bind (io_gets fst) (\<lambda>h.
         ask (session_link lk) MSG_STREAM_COMMIT (build_payload [U64 (ss_id h), U8 (if sync then 1 else 0)]) 0
           (status_reply MSG_STREAM_COMMIT ''COMMIT''))))
       (session_end ''committed'')"

definition session_rollback :: "'s link \<Rightarrow> (session \<times> 's, unit) io" where
  "session_rollback lk =
     io_then (io_bind (session_ensure_open lk) (\<lambda>_.
       io_bind (io_gets fst) (\<lambda>h.
         ask (session_link lk) MSG_STREAM_ROLLBACK (build_payload [U64 (ss_id h)]) 0
           (status_reply MSG_STREAM_ROLLBACK ''ROLLBACK''))))
       (session_end ''rolled back'')"

text \<open>\<open>__aexit__\<close>\<close>

definition session_exit :: "'s link \<Rightarrow> (session \<times> 's, unit) io" where
  "session_exit lk = io_bind (io_gets (ss_closed \<circ> fst)) (\<lambda>shut.
     if shut then io_return () else session_rollback lk)"

definition begin_reply :: "bytes \<Rightarrow> exn + int" where
  "begin_reply raw =
     bind_r (reply_data (plain_failure STREAM ''BEGIN'') raw) (run_reader
       (rd_bind (rd_get remaining_bytes) (\<lambda>left.
        if left < 12 then rd_raise (bad STREAM ''MISSING_SESSION_ID'')
        else rd_bind read_u64_be (\<lambda>i. rd_bind read_blob (\<lambda>_.
          rd_bind (expect_eof (bad STREAM ''INVALID_RESPONSE'')) (\<lambda>_. rd_return i))))))"

definition stream_begin :: "'s link \<Rightarrow> ustr \<Rightarrow> bytes option \<Rightarrow> ('s, session) io" where
  "stream_begin lk route metadata =
     io_then (io_lift (assert_stream_route route))
       (io_bind (ask lk MSG_STREAM_BEGIN
           (build_payload (Route route # opt_field (map_option blob metadata))) 0 begin_reply)
         (\<lambda>i. io_gets (\<lambda>s. \<lparr>ss_id = i, ss_generation = lk_generation lk s, ss_closed = False,
            ss_reason = None, ss_listening = True\<rparr>)))"

section \<open>Records and pages\<close>

definition read_opt_u64 :: "int option rd" where
  "read_opt_u64 =
     rd_bind read_u8 (\<lambda>flag.
     if flag = 0 then rd_return None
     else if flag \<noteq> 1 then rd_raise (bad STREAM ''INVALID_RESPONSE'')
     else rd_bind read_u64_be (\<lambda>v. rd_return (Some v)))"

definition read_opt_bytes :: "bytes option rd" where
  "read_opt_bytes =
     rd_bind read_u8 (\<lambda>flag.
     if flag = 0 then rd_return None
     else if flag \<noteq> 1 then rd_raise (bad STREAM ''INVALID_RESPONSE'')
     else rd_bind read_blob (\<lambda>v. rd_return (Some v)))"

definition read_if :: "bool \<Rightarrow> 'a option rd \<Rightarrow> 'a option rd" where
  "read_if b m = (if b then m else rd_return None)"

definition read_stream_record :: "ustr \<Rightarrow> bool \<Rightarrow> stream_record rd" where
  "read_stream_record route extended =
     rd_bind read_u64_be (\<lambda>offset. rd_bind read_opt_u64 (\<lambda>area. rd_bind read_opt_u64 (\<lambda>realm.
     rd_bind (read_if extended read_opt_u64) (\<lambda>glob. rd_bind read_blob (\<lambda>body.
     rd_bind read_opt_bytes (\<lambda>metadata. rd_bind read_u64_be (\<lambda>timestamp.
     rd_return \<lparr>sr_route = route, sr_offset = offset, sr_area = area, sr_realm = realm,
       sr_global = glob, sr_body = body, sr_metadata = metadata, sr_timestamp = timestamp\<rparr>)))))))"

definition read_reason :: "filtered_reason option rd" where
  "read_reason =
     rd_bind read_u8 (\<lambda>tag.
     if tag = 0 then rd_return None
     else if tag = 1 then rd_return (Some SERVER_FILTER)
     else if tag = 2 then rd_return (Some PERMISSION)
     else if tag = 3 then rd_return (Some PROJECTION)
     else rd_raise (bad STREAM ''INVALID_FILTERED_REASON''))"

definition read_bool :: "bool rd" where
  "read_bool =
     rd_bind read_u8 (\<lambda>v. if v \<noteq> 0 \<and> v \<noteq> 1 then rd_raise (bad STREAM ''INVALID_BOOLEAN_FLAG'')
       else rd_return (v = 1))"

definition read_stream_item :: "ustr \<Rightarrow> bool \<Rightarrow> stream_item rd" where
  "read_stream_item route extended =
     rd_bind read_u8 (\<lambda>tag.
     if tag = 0 then rd_bind (read_stream_record route extended) (\<lambda>r. rd_return (Event route r))
     else if tag = 1 then rd_bind read_u64_be (\<lambda>offset. rd_bind read_reason (\<lambda>reason.
       rd_return (Filtered route offset reason)))
     else if tag = 2 then rd_bind read_u64_be (\<lambda>lo. rd_bind read_u64_be (\<lambda>hi. rd_bind read_reason (\<lambda>reason.
       rd_return (Filtered_range route lo hi reason))))
     else rd_raise (bad STREAM ''INVALID_READ_ITEM''))"

definition read_routed_item :: "bool \<Rightarrow> stream_item rd" where
  "read_routed_item extended =
     rd_bind read_route (\<lambda>route. rd_bind (rd_lift (assert_stream_route route)) (\<lambda>_.
       read_stream_item route extended))"

definition extended_selector :: "ustr \<Rightarrow> bool" where
  "extended_selector sel \<longleftrightarrow> sel = lit ''stream://**'' \<or> starts_with (lit ''stream://*/'') sel"

definition read_cursor_fields :: "bool \<Rightarrow> read_cursor rd" where
  "read_cursor_fields extended =
     rd_bind read_u64_be (\<lambda>resource. rd_bind read_opt_u64 (\<lambda>area. rd_bind read_opt_u64 (\<lambda>realm.
     rd_bind (read_if extended read_opt_u64) (\<lambda>glob. rd_bind read_bool (\<lambda>more.
     rd_bind (read_if extended read_opt_u64) (\<lambda>fingerprint. rd_bind (read_if extended read_opt_u64) (\<lambda>watermark.
     rd_return \<lparr>rc_resource = resource, rc_area = area, rc_realm = realm, rc_global = glob,
       rc_fingerprint = fingerprint, rc_watermark = watermark, rc_has_more = more\<rparr>)))))))"

definition read_stream_page :: "ustr \<Rightarrow> read_page rd" where
  "read_stream_page sel =
     (let extended = extended_selector sel in
      rd_bind read_u32_be (\<lambda>count.
      rd_bind (rd_times (nat count) (read_routed_item extended)) (\<lambda>items.
      rd_bind (read_cursor_fields extended) (\<lambda>cursor.
      rd_bind (expect_eof (bad STREAM ''INVALID_RESPONSE'')) (\<lambda>_.
      rd_return \<lparr>rp_items = items, rp_cursor = cursor\<rparr>)))))"

fun item_records :: "stream_item \<Rightarrow> stream_record list" where
  "item_records (Event route r) = [r]"
| "item_records _ = []"

definition flatten_items :: "stream_item list \<Rightarrow> stream_record list" where
  "flatten_items items = concat (map item_records items)"

section \<open>Filters\<close>

definition clause_fields :: "filter_clause \<Rightarrow> exn + wop list" where
  "clause_fields c =
     (if fc_kind c = ''Equals'' then Inr [U8 0, Str (fc_value c)]
      else if fc_kind c = ''NotEquals'' then Inr [U8 1, Str (fc_value c)]
      else if fc_kind c = ''StartsWith'' then Inr [U8 2, Str (fc_value c)]
      else if fc_kind c = ''AnyOf'' then Inr ([U8 3, U32 (int (length (fc_values c)))] @ map Str (fc_values c))
      else Inl PyValueError)"

text \<open>Clause by clause, so that the first clause that fails decides the exception.\<close>

fun encode_clauses :: "filter_clause list \<Rightarrow> exn + bytes" where
  "encode_clauses [] = Inr []"
| "encode_clauses (c # cs) =
     bind_r (bind_r (clause_fields c) build_payload) (\<lambda>x. bind_r (encode_clauses cs) (\<lambda>xs. Inr (x @ xs)))"

definition encode_filter :: "filter_clause list option \<Rightarrow> exn + bytes" where
  "encode_filter f =
     (case f of
        None \<Rightarrow> Inr []
      | Some cs \<Rightarrow>
          if cs = [] then Inr []
          else bind_r (build_payload [U8 0, U8 0xF1, U32 (int (length cs))]) (\<lambda>hd.
                 bind_r (encode_clauses cs) (\<lambda>tl. Inr (hd @ tl))))"

section \<open>Reads\<close>

text \<open>The fields before the filter are written first; the filter is encoded after them.\<close>

definition read_payload ::
  "ustr \<Rightarrow> int \<Rightarrow> int \<Rightarrow> filter_clause list option \<Rightarrow> int option \<Rightarrow> int option \<Rightarrow> int option \<Rightarrow> exn + bytes" where
  "read_payload route start limit flt max_bytes fingerprint watermark =
     (let pre = [Route route, U64 start, U64 limit] @ opt_field (map_option (\<lambda>n. [U64 n]) max_bytes) in
      bind_r (build_payload pre) (\<lambda>_. bind_r (encode_filter flt) (\<lambda>fb.
        build_payload (pre @ (if fb = [] then [U8 0] else U8 1 # blob fb) @
          [OptU64 fingerprint, OptU64 watermark]))))"

definition page_reply :: "ustr \<Rightarrow> bytes \<Rightarrow> exn + read_page" where
  "page_reply sel raw =
     bind_r (reply_data (mapped_failure STREAM ''READ'') raw) (\<lambda>d.
       if d = [] then Inr \<lparr>rp_items = [], rp_cursor = empty_cursor\<rparr>
       else bind_r (run_reader (rd_bind read_u8 (\<lambda>flag.
              if flag \<noteq> 0 then rd_raise (bad STREAM ''INVALID_RESPONSE'')
              else rd_bind read_blob (\<lambda>bs. rd_bind (expect_eof (bad STREAM ''INVALID_RESPONSE'')) (\<lambda>_.
                rd_return bs)))) d)
            (run_reader (read_stream_page sel)))"

definition stream_read_page ::
  "'s link \<Rightarrow> ustr \<Rightarrow> int \<Rightarrow> int \<Rightarrow> filter_clause list option \<Rightarrow> int option \<Rightarrow> int option \<Rightarrow> int option \<Rightarrow>
   ('s, read_page) io" where
  "stream_read_page lk route start limit flt max_bytes fingerprint watermark =
     io_then (io_lift (assert_stream_pattern route))
       (ask lk MSG_STREAM_READ (read_payload route start limit flt max_bytes fingerprint watermark) 0
         (page_reply route))"

definition stream_read ::
  "'s link \<Rightarrow> ustr \<Rightarrow> int \<Rightarrow> int \<Rightarrow> filter_clause list option \<Rightarrow> int option \<Rightarrow> int option \<Rightarrow> int option \<Rightarrow>
   ('s, stream_record list) io" where
  "stream_read lk route start limit flt max_bytes fingerprint watermark =
     io_bind (stream_read_page lk route start limit flt max_bytes fingerprint watermark)
       (\<lambda>page. io_return (flatten_items (rp_items page)))"

definition peek_reply :: "ustr \<Rightarrow> bytes \<Rightarrow> exn + stream_record option" where
  "peek_reply route raw =
     bind_r (reply_data (plain_failure STREAM ''LAST'') raw) (\<lambda>d.
       if d = [] then Inr None
       else run_reader (rd_bind (read_stream_record route False) (\<lambda>r.
              rd_bind (expect_eof (bad STREAM ''INVALID_RESPONSE'')) (\<lambda>_. rd_return (Some r)))) d)"

definition stream_peek :: "'s link \<Rightarrow> ustr \<Rightarrow> ('s, stream_record option) io" where
  "stream_peek lk route =
     io_then (io_lift (assert_stream_route route))
       (ask lk MSG_STREAM_LAST (build_payload [Route route]) 0 (peek_reply route))"

definition metadata_reply :: "bytes \<Rightarrow> exn + stream_metadata" where
  "metadata_reply raw =
     bind_r (reply_data (plain_failure STREAM ''METADATA'') raw) (\<lambda>d.
       if d = [] then Inr \<lparr>md_first = 0, md_last = 0, md_count = 0, md_max_events = None,
         md_max_bytes = None, md_ttl = None, md_area = None, md_realm = None\<rparr>
       else run_reader
         (rd_bind read_opt_u64 (\<lambda>first. rd_bind read_opt_u64 (\<lambda>last. rd_bind read_u64_be (\<lambda>count.
          rd_bind read_u64_be (\<lambda>events. rd_bind read_u64_be (\<lambda>max_bytes. rd_bind read_opt_u64 (\<lambda>ttl.
          rd_bind read_u64_be (\<lambda>area. rd_bind read_u64_be (\<lambda>realm.
          rd_bind (expect_eof (bad STREAM ''INVALID_RESPONSE'')) (\<lambda>_.
          rd_return \<lparr>md_first = or_zero first, md_last = or_zero last, md_count = count,
            md_max_events = Some events, md_max_bytes = Some max_bytes, md_ttl = ttl,
            md_area = Some area, md_realm = Some realm\<rparr>)))))))))) d)"

definition get_metadata :: "'s link \<Rightarrow> ustr \<Rightarrow> ('s, stream_metadata) io" where
  "get_metadata lk route =
     io_then (io_lift (assert_stream_route route))
       (ask lk MSG_STREAM_GET_METADATA (build_payload [Route route]) 0 metadata_reply)"

section \<open>Subscriptions\<close>

definition stream_sub_reply :: "bytes \<Rightarrow> exn + int" where
  "stream_sub_reply raw =
     bind_r (reply_data (plain_failure STREAM ''SUBSCRIBE'') raw) (run_reader
       (rd_bind read_u8 (\<lambda>has. rd_bind (rd_get is_eof) (\<lambda>eof.
        if has \<noteq> 1 \<or> eof then rd_raise (bad STREAM ''MISSING_SUB_ID'')
        else rd_bind read_u64_be (\<lambda>i. rd_bind (expect_eof (bad STREAM ''INVALID_RESPONSE'')) (\<lambda>_. rd_return i))))))"

definition stream_subscribe_wire :: "'s link \<Rightarrow> ustr \<Rightarrow> ('s, int) io" where
  "stream_subscribe_wire lk pat = ask lk MSG_STREAM_SUBSCRIBE (build_payload [Route pat]) 0 stream_sub_reply"

definition stream_unsubscribe_wire :: "'s link \<Rightarrow> ustr \<Rightarrow> ('s, unit) io" where
  "stream_unsubscribe_wire lk pat =
     ask lk MSG_STREAM_UNSUBSCRIBE (build_payload [Route pat]) 0
       (acknowledged STREAM (plain_failure STREAM ''UNSUBSCRIBE''))"

definition stream_subscribe ::
  "'s link \<Rightarrow> ustr \<Rightarrow> commit_note registry \<Rightarrow> 's \<Rightarrow> ((exn + nat) \<times> commit_note registry) \<times> 's" where
  "stream_subscribe lk pat r s =
     (case assert_stream_pattern pat of
        Inl e \<Rightarrow> ((Inl e, r), s)
      | Inr _ \<Rightarrow> registry_subscribe (stream_subscribe_wire lk pat) pat r s)"

text \<open>
  JSON values as \<open>json.loads\<close> returns them, with what \<open>int\<close> makes of a number or a string.
  Floats are those of \<open>Config\<close>: \<open>json.loads\<close> accepts \<open>Infinity\<close> and \<open>NaN\<close>.
\<close>

datatype json =
    J_null | J_bool bool | J_int int | J_float pyfloat | J_str ustr "exn + int" \<comment> \<open>its \<open>int()\<close>\<close>
  | J_list "json list" | J_dict "(ustr \<times> json) list"

fun float_to_int :: "pyfloat \<Rightarrow> exn + int" where
  "float_to_int (Num x) = Inr (if 0 \<le> x then floor x else ceiling x)"
| "float_to_int NaN = Inl PyValueError"
| "float_to_int _ = Inl OverflowError"

fun json_int :: "json \<Rightarrow> exn + int" where
  "json_int (J_int n) = Inr n"
| "json_int (J_float x) = float_to_int x"
| "json_int (J_str s n) = n"
| "json_int _ = Inr 0"

definition json_field :: "(ustr \<times> json) list \<Rightarrow> string \<Rightarrow> exn + int" where
  "json_field d k = json_int (case map_of d (lit k) of None \<Rightarrow> J_int 0 | Some v \<Rightarrow> v)"

definition empty_note :: "ustr \<Rightarrow> commit_note" where
  "empty_note route = \<lparr>cn_route = route, cn_event = [], cn_first_resource = 0, cn_last_resource = 0,
     cn_first_area = 0, cn_last_area = 0, cn_first_realm = 0, cn_last_realm = 0, cn_batch = 0\<rparr>"

definition note_of :: "ustr \<Rightarrow> (ustr \<times> json) list \<Rightarrow> exn + commit_note" where
  "note_of route d =
     (case (case map_of d (lit ''event'') of None \<Rightarrow> J_str [] (Inl PyValueError) | Some v \<Rightarrow> v) of
        J_str event _ \<Rightarrow>
          bind_r (json_field d ''first_resource_offset'') (\<lambda>fr.
          bind_r (json_field d ''last_resource_offset'') (\<lambda>lr.
          bind_r (json_field d ''first_area_offset'') (\<lambda>fa.
          bind_r (json_field d ''last_area_offset'') (\<lambda>la.
          bind_r (json_field d ''first_realm_offset'') (\<lambda>fm.
          bind_r (json_field d ''last_realm_offset'') (\<lambda>lm.
          bind_r (json_field d ''batch_size'') (\<lambda>n.
            Inr \<lparr>cn_route = route, cn_event = event, cn_first_resource = fr, cn_last_resource = lr,
              cn_first_area = fa, cn_last_area = la, cn_first_realm = fm, cn_last_realm = lm, cn_batch = n\<rparr>)))))))
      | _ \<Rightarrow> Inr (empty_note route))"

text \<open>\<open>TypeError\<close> and \<open>ValueError\<close>, which \<open>JSONDecodeError\<close> and \<open>UnicodeDecodeError\<close> extend.\<close>

definition json_caught :: "exn \<Rightarrow> bool" where
  "json_caught e \<longleftrightarrow> e = PyTypeError \<or> e = PyValueError \<or> e = UnicodeDecodeError"

definition decode_note :: "(bytes \<Rightarrow> exn + json) \<Rightarrow> ustr \<Rightarrow> bytes \<Rightarrow> exn + commit_note" where
  "decode_note json_loads route body =
     bind_r (assert_stream_route route) (\<lambda>_.
     if body = [] then Inr (empty_note route)
     else
       (case bind_r (json_loads body) (\<lambda>v. case v of J_dict d \<Rightarrow> note_of route d | _ \<Rightarrow> Inr (empty_note route)) of
          Inr n \<Rightarrow> Inr n
        | Inl e \<Rightarrow> if json_caught e then Inr (empty_note route) else Inl e))"

definition stream_notification :: "(bytes \<Rightarrow> exn + json) \<Rightarrow> bytes \<Rightarrow> exn + int \<times> commit_note" where
  "stream_notification json_loads data =
     bind_r (run_reader (rd_bind read_u64_be (\<lambda>i. rd_bind read_route (\<lambda>route. rd_bind read_blob (\<lambda>body.
       rd_bind (expect_eof (bad STREAM ''INVALID_RESPONSE'')) (\<lambda>_. rd_return (i, route, body)))))) data)
       (\<lambda>(i, route, body). bind_r (decode_note json_loads route body) (\<lambda>n. Inr (i, n)))"

definition stream_notify ::
  "(bytes \<Rightarrow> exn + json) \<Rightarrow> bytes \<Rightarrow> commit_note registry \<Rightarrow> exn option \<times> commit_note registry" where
  "stream_notify json_loads = registry_notify (stream_notification json_loads)"

end
