(* ===== verification/Stream_Proofs.thy ===== *)
theory Stream_Proofs
  imports Stream
begin

text \<open>
  What the stream client guarantees: the frames and the single end of a session, the round trip
  of read pages and of filters, and what a commit notification can raise.
\<close>

section \<open>The life of a session\<close>

datatype 's session_op =
    Append int bytes "bytes option" "ustr option" | Commit_session string | Rollback_session | Exit
  | Idle "'s \<Rightarrow> 's"

fun session_step ::
  "'s link \<Rightarrow> 's session_op \<Rightarrow> session \<times> 's \<times> sent \<Rightarrow> exn option \<times> session \<times> 's \<times> sent" where
  "session_step lk (Append n b m d) st = outcome (session_append (traced lk) n b m d st)"
| "session_step lk (Commit_session mode) st = outcome (session_commit (traced lk) mode st)"
| "session_step lk Rollback_session st = outcome (session_rollback (traced lk) st)"
| "session_step lk Exit st = outcome (session_exit (traced lk) st)"
| "session_step lk (Idle f) (h, s, l) = (None, hear session_invalidate lk s (f s) h, f s, l)"

definition session_same :: "session \<Rightarrow> session \<Rightarrow> bool" where
  "session_same h h' \<longleftrightarrow> ss_id h' = ss_id h \<and> ss_generation h' = ss_generation h"

definition of_session :: "session \<Rightarrow> int \<times> int \<times> bytes \<Rightarrow> bool" where
  "of_session h f \<longleftrightarrow> fst f = ss_generation h \<and>
     (\<exists>pre rest. build_payload [U64 (ss_id h)] = Inr pre \<and> snd (snd f) = pre @ rest)"

abbreviation session_moves :: "session \<times> 's \<times> sent \<Rightarrow> session \<times> 's \<times> sent \<Rightarrow> bool" where
  "session_moves \<equiv> handle_moves session_same of_session ss_closed (\<lambda>_. False)"

interpretation session: handle session_same of_session ss_closed "\<lambda>_. False" session_invalidate
  by unfold_locales (auto simp: session_same_def of_session_def session_invalidate_def)

lemma session_prefix:
  assumes "build_payload (U64 (ss_id h) # ops) = Inr p"
  shows "\<exists>pre rest. build_payload [U64 (ss_id h)] = Inr pre \<and> p = pre @ rest"
  using assms by (auto simp: build_payload_spec bind_r_Inr_iff)

lemma session_guarded_ask:
  fixes lk :: "'s link" and guard :: "(session \<times> 's \<times> sent, 'u) io"
  assumes "\<And>h s r st. guard (h, s) = (r, st) \<Longrightarrow> st = (h, s) \<and>
    ((\<exists>e. r = Inl e) \<or> \<not> ss_closed h \<and> lk_generation (traced lk) s = ss_generation h)"
  shows "moves session_moves (io_bind guard (\<lambda>u. io_bind (io_gets fst) (\<lambda>h.
    ask (session_link (traced lk)) mt (build_payload (U64 (ss_id h) # ops u h)) fl decode)))"
proof -
  have "case guard (h, s) of (Inl e, st) \<Rightarrow> st = (h, s)
      | (Inr u, st) \<Rightarrow> st = (h, s) \<and> \<not> ss_closed h \<and>
         (\<forall>p. build_payload (U64 (ss_id h) # ops u h) = Inr p \<longrightarrow>
            of_session h (lk_generation (traced lk) s, mt, p) \<and> \<not> False)" for h s
    using assms [of h s] session_prefix
    by (fastforce simp: of_session_def split: prod.split sum.split)
  then show ?thesis by (rule session.handle_guarded_ask)
qed

lemma session_moves_end: "moves session_moves (session_end reason)"
  by (auto simp: moves_def session_end_def handle_moves_def session_same_def)

lemma session_moves_ops:
  "moves session_moves (session_append (traced lk) n b m d)"
  "moves session_moves (session_commit (traced lk) mode)"
  "moves session_moves (session_rollback (traced lk))"
proof -
  show "moves session_moves (session_append (traced lk) n b m d)"
    unfolding session_append_def append_fields_def append_Cons
    by (rule session_guarded_ask) (auto simp: session_ensure_open_def split: if_splits)
  show "moves session_moves (session_commit (traced lk) mode)"
    unfolding session_commit_def
    by (intro session.handle_bind [OF _ session_moves_end] session_guarded_ask)
       (auto simp: session_ensure_open_def io_bind_def split: if_splits)
  show "moves session_moves (session_rollback (traced lk))"
    unfolding session_rollback_def
    by (intro session.handle_bind [OF _ session_moves_end] session_guarded_ask)
       (auto simp: session_ensure_open_def split: if_splits)
qed

lemma session_moves_step: "session_moves st (snd (session_step lk x st))"
proof (cases x)
  case (Idle f)
  obtain h s l where "st = (h, s, l)" by (metis prod_cases3)
  then show ?thesis using Idle by (simp add: session.handle_elapse)
next
  case Exit
  have "moves session_moves (session_exit (traced lk))"
    unfolding session_exit_def
    by (intro session.handle_bind session.handle_still moves_if session_moves_ops)
  then show ?thesis using Exit by (simp add: moves_D)
qed (simp_all add: session_moves_ops [THEN moves_D])

fun settling :: "'s session_op \<Rightarrow> bool" where
  "settling (Commit_session mode) = True"
| "settling Rollback_session = True"
| "settling _ = False"

lemma session_settles_once: "successes settling xs (fst (exec_ops (session_step lk) xs st)) \<le> 1"
proof (rule successes_once [where dead = "\<lambda>st. ss_closed (fst st)"])
  fix x :: "'a session_op" and st :: "session \<times> 'a \<times> sent"
  obtain h s l where st: "st = (h, s, l)" by (metis prod_cases3)
  show "ss_closed (fst st) \<Longrightarrow> settling x \<Longrightarrow> fst (session_step lk x st) \<noteq> None"
    by (cases x) (simp_all add: st session_commit_def session_rollback_def session_ensure_open_def
        io_bind_def outcome_def)
  show "ss_closed (fst st) \<Longrightarrow> ss_closed (fst (snd (session_step lk x st)))"
    using session_moves_step [of st lk x] by (auto simp: handle_moves_def split: prod.splits)
  show "settling x \<Longrightarrow> fst (session_step lk x st) = None \<Longrightarrow> ss_closed (fst (snd (session_step lk x st)))"
    by (cases x) (auto simp: st outcome_def session_commit_def session_rollback_def io_bind_def session_end_def
        split: sum.splits prod.splits)
qed

text \<open>
  Over any sequence of calls on a stream session every frame carries its id in its own
  generation, a closed session sends nothing, and at most one commit or rollback succeeds.
\<close>

lemma session_frames:
  fixes h :: session and lk :: "'s link" and s :: 's and xs :: "'s session_op list"
  defines "after \<equiv> exec_ops (session_step lk) xs (h, s, [])"
  shows "(\<forall>f\<in>set (snd (snd (snd after))). of_session h f) \<and> (ss_closed h \<longrightarrow> snd (snd (snd after)) = []) \<and>
    successes settling xs (fst after) \<le> 1"
  using session.handle_run [where step = "session_step lk" and st = "(h, s, [])" and xs = xs, OF session_moves_step]
    session_settles_once [of xs lk "(h, s, [])"]
  by (auto simp: handle_moves_def after_def split: prod.splits)

definition demo_session :: session where
  "demo_session = \<lparr>ss_id = 9, ss_generation = 1, ss_closed = False, ss_reason = None, ss_listening = True\<rparr>"

section \<open>Pages\<close>

text \<open>The writes of a broker for a record, an item, a cursor and a page.\<close>

definition record_ops :: "bool \<Rightarrow> stream_record \<Rightarrow> wop list" where
  "record_ops ext r = U64 (sr_offset r) # OptU64 (sr_area r) # OptU64 (sr_realm r) #
     (if ext then [OptU64 (sr_global r)] else []) @ blob (sr_body r) @
     opt_field (map_option blob (sr_metadata r)) @ [U64 (sr_timestamp r)]"

fun reason_tag :: "filtered_reason option \<Rightarrow> int" where
  "reason_tag None = 0"
| "reason_tag (Some SERVER_FILTER) = 1"
| "reason_tag (Some PERMISSION) = 2"
| "reason_tag (Some PROJECTION) = 3"

fun item_ops :: "bool \<Rightarrow> stream_item \<Rightarrow> wop list" where
  "item_ops ext (Event route r) = Route route # U8 0 # record_ops ext r"
| "item_ops ext (Filtered route n reason) = [Route route, U8 1, U64 n, U8 (reason_tag reason)]"
| "item_ops ext (Filtered_range route lo hi reason) =
     [Route route, U8 2, U64 lo, U64 hi, U8 (reason_tag reason)]"

definition cursor_ops :: "bool \<Rightarrow> read_cursor \<Rightarrow> wop list" where
  "cursor_ops ext c = U64 (rc_resource c) # OptU64 (rc_area c) # OptU64 (rc_realm c) #
     (if ext then [OptU64 (rc_global c)] else []) @ U8 (of_bool (rc_has_more c)) #
     (if ext then [OptU64 (rc_fingerprint c), OptU64 (rc_watermark c)] else [])"

definition page_ops :: "bool \<Rightarrow> read_page \<Rightarrow> wop list" where
  "page_ops ext p = U32 (int (length (rp_items p))) # concat (map (item_ops ext) (rp_items p)) @
     cursor_ops ext (rp_cursor p)"

text \<open>The pages a selector can be answered with: global positions only for a global selector.\<close>

definition record_fits :: "bool \<Rightarrow> ustr \<Rightarrow> stream_record \<Rightarrow> bool" where
  "record_fits ext route r \<longleftrightarrow> sr_route r = route \<and> (ext \<or> sr_global r = None)"

fun item_fits :: "bool \<Rightarrow> stream_item \<Rightarrow> bool" where
  "item_fits ext (Event route r) \<longleftrightarrow> is_exact_route_shape route (lit ''stream'') 3 \<and> record_fits ext route r"
| "item_fits ext (Filtered route n reason) \<longleftrightarrow> is_exact_route_shape route (lit ''stream'') 3"
| "item_fits ext (Filtered_range route lo hi reason) \<longleftrightarrow> is_exact_route_shape route (lit ''stream'') 3"

definition page_fits :: "bool \<Rightarrow> read_page \<Rightarrow> bool" where
  "page_fits ext p \<longleftrightarrow> (\<forall>it\<in>set (rp_items p). item_fits ext it) \<and>
     (ext \<or> rc_global (rp_cursor p) = None \<and> rc_fingerprint (rp_cursor p) = None \<and>
        rc_watermark (rp_cursor p) = None)"

lemma reads_opt_u64: "reads read_opt_u64 [OptU64 v] v"
proof (cases v)
  case (Some n)
  then show ?thesis
    by (intro reads_by_bind) (auto simp: read_opt_u64_def rd_bind_assoc bind_r_Inr_iff pack_Inr_iff)
qed (intro reads_by_bind, auto simp: read_opt_u64_def rd_bind_assoc)

lemma reads_opt_bytes: "reads read_opt_bytes (opt_field (map_option blob v)) v"
  by (cases v) (auto simp: opt_field_def read_opt_bytes_def intro!: codec)

lemma reads_reason: "reads read_reason [U8 (reason_tag reason)] reason"
  by (cases "(reason)" rule: reason_tag.cases) (auto simp: read_reason_def intro!: codec)

lemma reads_if: "reads m [w] x \<Longrightarrow> (\<not> b \<Longrightarrow> x = None) \<Longrightarrow> reads (read_if b m) (if b then [w] else []) x"
  by (auto simp: read_if_def codec)

lemmas stream_first = reads_bind [OF reads_opt_u64, simplified] reads_bind [OF reads_opt_bytes, simplified]

lemma reads_record:
  assumes "record_fits ext route r"
  shows "reads (read_stream_record route ext) (record_ops ext r) r"
  unfolding read_stream_record_def record_ops_def
  by (intro codec stream_first reads_bind [OF reads_if [OF reads_opt_u64]])
     (use assms in \<open>auto simp: record_fits_def intro!: codec\<close>)

lemma reads_item:
  assumes "item_fits ext it"
  shows "reads (read_routed_item ext) (item_ops ext it) it"
proof (cases it)
  case (Event route r)
  then have "reads (rd_bind (read_stream_record route ext) (\<lambda>r. rd_return (Event route r))) (record_ops ext r @ []) it"
    using assms by (intro reads_bind [OF reads_record]) (simp_all add: codec)
  then have "reads (read_stream_item route ext) (U8 0 # record_ops ext r) it"
    by (auto simp: read_stream_item_def intro!: codec)
  then show ?thesis using Event assms
    by (auto simp: read_routed_item_def assert_stream_route_def intro!: codec reads_lift)
next
  case (Filtered route n reason)
  have "reads (read_stream_item route ext) [U8 1, U64 n, U8 (reason_tag reason)] it"
    unfolding read_stream_item_def
    by (intro codec) (use Filtered in \<open>auto intro!: codec reads_bind [OF reads_reason, simplified]\<close>)
  then show ?thesis using Filtered assms
    by (auto simp: read_routed_item_def assert_stream_route_def intro!: codec reads_lift)
next
  case (Filtered_range route lo hi reason)
  have "reads (read_stream_item route ext) [U8 2, U64 lo, U64 hi, U8 (reason_tag reason)] it"
    unfolding read_stream_item_def
    by (intro codec) (use Filtered_range in \<open>auto intro!: codec reads_bind [OF reads_reason, simplified]\<close>)
  then show ?thesis using Filtered_range assms
    by (auto simp: read_routed_item_def assert_stream_route_def intro!: codec reads_lift)
qed

lemma reads_bool: "reads read_bool [U8 (of_bool b)] b"
  by (cases b) (auto simp: read_bool_def intro!: codec)

lemma reads_cursor:
  assumes "ext \<or> rc_global c = None \<and> rc_fingerprint c = None \<and> rc_watermark c = None"
  shows "reads (read_cursor_fields ext) (cursor_ops ext c) c"
proof (cases ext)
  case True
  show ?thesis unfolding read_cursor_fields_def cursor_ops_def read_if_def if_P [OF True]
    append_Cons append_Nil
    by (intro codec stream_first reads_bind [OF reads_bool, simplified]) simp
next
  case False
  show ?thesis unfolding read_cursor_fields_def cursor_ops_def read_if_def if_not_P [OF False]
    append_Cons append_Nil rd_simps(1)
    by (intro codec stream_first reads_bind [OF reads_bool, simplified]) (use assms False in simp)
qed

lemma decodes_page:
  assumes "page_fits (extended_selector sel) p"
  shows "decodes (read_stream_page sel) (page_ops (extended_selector sel) p) p"
proof -
  let ?ext = "extended_selector sel"
  have "decodes (rd_bind (rd_times (length (rp_items p)) (read_routed_item ?ext)) (\<lambda>items.
      rd_bind (read_cursor_fields ?ext) (\<lambda>cursor.
      rd_bind (expect_eof (bad STREAM ''INVALID_RESPONSE'')) (\<lambda>_.
      rd_return \<lparr>rp_items = items, rp_cursor = cursor\<rparr>))))
      (concat (map (item_ops ?ext) (rp_items p)) @ (cursor_ops ?ext (rp_cursor p) @ [])) p"
    using assms unfolding page_fits_def
    by (intro decodes_bind [OF reads_times] decodes_bind [OF reads_cursor])
       (auto intro!: codec reads_item)
  then show ?thesis
    by (simp add: read_stream_page_def page_ops_def Let_def codec)
qed

text \<open>What a broker answers to READ: a page inside its envelope.\<close>

lemma page_roundtrip:
  assumes "page_fits (extended_selector sel) p" "build_payload (page_ops (extended_selector sel) p) = Inr bs"
    "build_payload (U8 0 # U8 0 # blob bs) = Inr raw"
  shows "page_reply sel raw = Inr p"
proof -
  obtain d where d: "raw = 0 # d" "build_payload (U8 0 # blob bs) = Inr d" "d \<noteq> []"
    using assms(3) by (auto simp: build_payload_spec bind_r_Inr_iff pack_Inr_iff be_bytes_0_1 blob_def)
  have "decodes (rd_bind read_u8 (\<lambda>flag.
      if flag \<noteq> 0 then rd_raise (bad STREAM ''INVALID_RESPONSE'')
      else rd_bind read_blob (\<lambda>bs. rd_bind (expect_eof (bad STREAM ''INVALID_RESPONSE'')) (\<lambda>_. rd_return bs))))
      (U8 0 # blob bs) bs"
    by (auto intro!: codec)
  from decodes_run [OF this d(2)] decodes_run [OF decodes_page [OF assms(1)] assms(2)] show ?thesis
    using d(1,3) by (simp add: page_reply_def)
qed

text \<open>
  A read returns exactly the event records of the page the broker wrote, in order, and skips
  the filtered items.
\<close>

lemma stream_read_events:
  assumes "page_fits (extended_selector sel) p" "build_payload (page_ops (extended_selector sel) p) = Inr bs"
    "build_payload (U8 0 # U8 0 # blob bs) = Inr raw" "assert_stream_pattern sel = Inr ()"
    "read_payload sel start limit flt max_bytes fp wm = Inr body"
    "lk_request lk MSG_STREAM_READ body 0 s = (Inr raw, s')"
  shows "stream_read lk sel start limit flt max_bytes fp wm s =
    (Inr (concat (map item_records (rp_items p))), s')"
  using assms page_roundtrip [OF assms(1-3)]
  by (simp add: stream_read_def stream_read_page_def ask_def io_bind_def flatten_items_def)

section \<open>Filters\<close>

definition known_clause :: "filter_clause \<Rightarrow> bool" where
  "known_clause c \<longleftrightarrow> fc_kind c \<in> {''Equals'', ''NotEquals'', ''StartsWith'', ''AnyOf''}"

text \<open>An unknown clause anywhere makes the whole filter fail before anything is sent.\<close>

lemma unknown_clause_refused:
  assumes "encode_filter (Some cs) = Inr fb"
  shows "\<forall>c\<in>set cs. known_clause c"
proof -
  have "\<forall>c\<in>set cs. known_clause c" if "encode_clauses cs = Inr x" for cs x
    using that by (induction cs arbitrary: x)
      (auto simp: bind_r_Inr_iff clause_fields_def known_clause_def split: if_splits)
  then show ?thesis using assms by (auto simp: encode_filter_def bind_r_Inr_iff split: if_splits)
qed

text \<open>The reader of a filter, and what it returns for each kind of clause.\<close>

definition read_clause :: "filter_clause rd" where
  "read_clause = rd_bind read_u8 (\<lambda>tag.
     if tag = 3 then rd_bind read_u32_be (\<lambda>n. rd_bind (rd_times (nat n) read_string) (\<lambda>vs.
       rd_return \<lparr>fc_kind = ''AnyOf'', fc_value = [], fc_values = vs\<rparr>))
     else rd_bind read_string (\<lambda>v. rd_return
       \<lparr>fc_kind = (if tag = 0 then ''Equals'' else if tag = 1 then ''NotEquals'' else ''StartsWith''),
        fc_value = v, fc_values = []\<rparr>))"

definition read_filter :: "filter_clause list rd" where
  "read_filter = rd_bind read_u8 (\<lambda>_. rd_bind read_u8 (\<lambda>_. rd_bind read_u32_be (\<lambda>n.
     rd_times (nat n) read_clause)))"

definition clause_sent :: "filter_clause \<Rightarrow> filter_clause" where
  "clause_sent c = (if fc_kind c = ''AnyOf'' then c\<lparr>fc_value := []\<rparr> else c\<lparr>fc_values := []\<rparr>)"

definition clause_ops :: "filter_clause \<Rightarrow> wop list" where
  "clause_ops c = (case clause_fields c of Inl _ \<Rightarrow> [] | Inr ops \<Rightarrow> ops)"

lemma reads_clause: "known_clause c \<Longrightarrow> reads read_clause (clause_ops c) (clause_sent c)"
proof -
  assume known: "known_clause c"
  have many: "reads (rd_times (length vs) read_string) (map Str vs) vs" for vs
    using reads_times [of vs read_string "\<lambda>v. [Str v]"] by (simp add: reads_fields)
  show ?thesis using known
    by (auto simp: known_clause_def clause_ops_def clause_fields_def clause_sent_def read_clause_def
        intro!: codec reads_bind [OF many, of _ _ "[]", simplified])
qed

lemma encode_clauses_ops:
  "encode_clauses cs = Inr x \<Longrightarrow> build_payload (concat (map clause_ops cs)) = Inr x"
proof (induction cs arbitrary: x)
  case (Cons c cs)
  then obtain ops a b where "clause_fields c = Inr ops" "build_payload ops = Inr a"
    "encode_clauses cs = Inr b" "x = a @ b" by (auto simp: bind_r_Inr_iff)
  then show ?case using Cons.IH by (auto simp: clause_ops_def build_payload_append)
qed (simp add: build_payload_spec)

lemma filter_roundtrip:
  assumes "encode_filter (Some cs) = Inr fb" "cs \<noteq> []"
  shows "run_reader read_filter fb = Inr (map clause_sent cs)"
proof -
  obtain hd x where x: "build_payload [U8 0, U8 0xF1, U32 (int (length cs))] = Inr hd"
    "encode_clauses cs = Inr x" "fb = hd @ x"
    using assms by (auto simp: encode_filter_def bind_r_Inr_iff)
  have known: "\<forall>c\<in>set cs. known_clause c" by (rule unknown_clause_refused [OF assms(1)])
  have "reads (rd_times (length cs) read_clause) (concat (map clause_ops cs)) (map clause_sent cs)"
    using known
  proof (induction cs)
    case (Cons c cs)
    have "reads (rd_bind read_clause (\<lambda>x. rd_bind (rd_times (length cs) read_clause) (\<lambda>xs. rd_return (x # xs))))
        (clause_ops c @ (concat (map clause_ops cs) @ [])) (clause_sent c # map clause_sent cs)"
      using Cons by (intro reads_bind [OF reads_clause] reads_bind [of _ _ "map clause_sent cs"])
        (simp_all add: codec)
    then show ?case by simp
  qed (simp add: codec)
  then have "decodes read_filter (U8 0 # U8 0xF1 # U32 (int (length cs)) # concat (map clause_ops cs))
      (map clause_sent cs)"
    unfolding read_filter_def by (intro codec) (simp add: reads_decodes)
  moreover have "build_payload (U8 0 # U8 0xF1 # U32 (int (length cs)) # concat (map clause_ops cs)) = Inr fb"
    using x encode_clauses_ops [OF x(2)]
      build_payload_append [of "[U8 0, U8 0xF1, U32 (int (length cs))]" "concat (map clause_ops cs)" fb]
    by simp
  ultimately show ?thesis by (rule decodes_run)
qed

section \<open>Commit notifications\<close>

text \<open>
  The code answers a notification it cannot interpret with an empty one, but catches only
  \<open>TypeError\<close> and \<open>ValueError\<close>: an infinite number is an \<open>OverflowError\<close>.
\<close>

lemma note_infinity_escapes:
  assumes "loads body = Inr (J_dict [(lit ''batch_size'', J_float Pos_inf)])" "body \<noteq> []"
    "assert_stream_route route = Inr ()"
  shows "decode_note loads route body = Inl OverflowError"
  using assms by (simp add: decode_note_def note_of_def json_field_def json_caught_def lit_def)

lemma note_infinity_escapes_witness:
  "decode_note (\<lambda>_. Inr (J_dict [(lit ''batch_size'', J_float Pos_inf)])) (lit ''stream://a/b/c'') [123] =
     Inl OverflowError"
proof -
  have "assert_stream_route (lit ''stream://a/b/c'') = Inr ()" by code_simp
  then show ?thesis by (rule note_infinity_escapes [rotated 2]) simp_all
qed

text \<open>Concrete pages and filters.\<close>

definition demo_record :: stream_record where
  "demo_record = \<lparr>sr_route = lit ''stream://a/b/c'', sr_offset = 3, sr_area = Some 8, sr_realm = None,
     sr_global = None, sr_body = [1, 2], sr_metadata = Some [7], sr_timestamp = 99\<rparr>"

definition demo_page :: read_page where
  "demo_page = \<lparr>rp_items = [Event (lit ''stream://a/b/c'') demo_record, Filtered (lit ''stream://a/b/c'') 4 (Some PERMISSION)],
     rp_cursor = empty_cursor\<lparr>rc_resource := 5, rc_has_more := True\<rparr>\<rparr>"

lemma demo_route:
  "list_all (\<lambda>c. c < 128) (lit ''stream://a/b/c'')" "length (lit ''stream://a/b/c'') = 14"
  "extended_selector (lit ''stream://a/b/c'') = False" "assert_stream_pattern (lit ''stream://a/b/c'') = Inr ()"
  by code_simp+

lemma demo_page_bytes:
  "\<exists>bs raw. build_payload (page_ops (extended_selector (lit ''stream://a/b/c'')) demo_page) = Inr bs \<and>
     build_payload (U8 0 # U8 0 # blob bs) = Inr raw"
  using demo_route
  by (simp add: demo_page_def demo_record_def record_ops_def opt_field_def page_ops_def cursor_ops_def empty_cursor_def
      build_payload_spec str_field_ascii bind_r_def pack_def blob_def)

lemma demo_page_fits: "page_fits (extended_selector (lit ''stream://a/b/c'')) demo_page"
  by code_simp

lemma page_roundtrip_witness: "\<exists>raw. page_reply (lit ''stream://a/b/c'') raw = Inr demo_page"
  using demo_page_bytes page_roundtrip [OF demo_page_fits] by blast

lemma stream_read_events_witness:
  "\<exists>lk :: unit link. stream_read lk (lit ''stream://a/b/c'') 0 10 None None None None () = (Inr [demo_record], ())"
proof -
  obtain bs raw where bytes: "build_payload (page_ops (extended_selector (lit ''stream://a/b/c'')) demo_page) = Inr bs"
    "build_payload (U8 0 # U8 0 # blob bs) = Inr raw" using demo_page_bytes by blast
  obtain body where body: "read_payload (lit ''stream://a/b/c'') 0 10 None None None None = Inr body"
    using demo_route
    by (auto simp: read_payload_def opt_field_def encode_filter_def build_payload_spec str_field_ascii bind_r_def pack_def)
  let ?lk = "ack_link\<lparr>lk_request := \<lambda>mt p fl s. (Inr raw, s)\<rparr>"
  have "stream_read ?lk (lit ''stream://a/b/c'') 0 10 None None None None () =
      (Inr (concat (map item_records (rp_items demo_page))), ())"
    by (rule stream_read_events [OF demo_page_fits bytes demo_route(4) body]) simp
  then show ?thesis by (auto simp: demo_page_def)
qed

lemma filter_roundtrip_witness:
  "\<exists>fb. encode_filter (Some [\<lparr>fc_kind = ''AnyOf'', fc_value = [], fc_values = [lit ''x'', lit ''y'']\<rparr>]) = Inr fb \<and>
     run_reader read_filter fb = Inr [\<lparr>fc_kind = ''AnyOf'', fc_value = [], fc_values = [lit ''x'', lit ''y'']\<rparr>]"
proof -
  let ?c = "\<lparr>fc_kind = ''AnyOf'', fc_value = [], fc_values = [lit ''x'', lit ''y'']\<rparr>"
  have "\<exists>fb. encode_filter (Some [?c]) = Inr fb"
    by (simp add: encode_filter_def clause_fields_def build_payload_spec str_field_ascii lit_def bind_r_def pack_def)
  then show ?thesis using filter_roundtrip [of "[?c]"] by (auto simp: clause_sent_def)
qed

lemma session_frames_witness:
  "of_session demo_session (1, MSG_STREAM_ROLLBACK, [0,0,0,0,0,0,0,9])"
proof -
  have "snd (snd (snd (exec_ops (session_step ack_link) [Rollback_session, Exit] (demo_session, (), [])))) =
      [(1, MSG_STREAM_ROLLBACK, [0,0,0,0,0,0,0,9])]" by code_simp
  then show ?thesis using session_frames [of ack_link "[Rollback_session, Exit]" demo_session "()"] by simp
qed

end
