(* ===== verification/Schedule.thy ===== *)
theory Schedule
  imports Handles Routes Messages Codec
begin

text \<open>
  \<open>domains/schedule.py\<close>: creating, cancelling and listing cron schedules, delivery notifications.
  The lemmas show that the loop over the entry markers ends, that pages are read back as the
  broker wrote them, and that a batch is sent whole or not at all.
\<close>

section \<open>Data\<close>

datatype delivery = BROADCAST | SINGLE

definition delivery_mode :: "string \<Rightarrow> exn + delivery" where
  "delivery_mode s = (if s = ''broadcast'' then Inr BROADCAST
     else if s = ''single'' then Inr SINGLE else Inl PyValueError)"

text \<open>An entry as a caller may build it: its mode is any text.\<close>

record sched_entry =
  se_route :: ustr
  se_cron :: ustr
  se_mode :: string
  se_payload :: bytes

record cursor_page =
  cp_entries :: "sched_entry list"
  cp_has_more :: bool
  cp_continuation :: "ustr option"

record sched_page =
  sp_entries :: "sched_entry list"
  sp_total :: "int option"
  sp_has_more :: bool
  sp_continuation :: "ustr option"

record sched_note =
  sn_route :: ustr
  sn_payload :: bytes

definition mode_name :: "delivery \<Rightarrow> string" where
  "mode_name m = (case m of BROADCAST \<Rightarrow> ''broadcast'' | SINGLE \<Rightarrow> ''single'')"

definition sched_route :: "ustr \<Rightarrow> exn + unit" where
  "sched_route route =
     guard_r (is_exact_route_shape route (lit ''schedule'') 4) (bad SCHEDULE ''INVALID_ROUTE'')"

definition sched_pattern :: "ustr \<Rightarrow> exn + unit" where
  "sched_pattern route =
     guard_r (is_selector_route_shape route (lit ''schedule'') 4 True False) (bad SCHEDULE ''INVALID_ROUTE'')"

section \<open>Create and cancel\<close>

text \<open>The checks of an entry, in the order of the code, and its fields.\<close>

definition check_entry :: "sched_entry \<Rightarrow> exn + delivery" where
  "check_entry e =
     bind_r (sched_route (se_route e)) (\<lambda>_.
     bind_r (guard_r (se_cron e \<noteq> []) PyValueError) (\<lambda>_. delivery_mode (se_mode e)))"

definition entry_fields :: "sched_entry \<Rightarrow> delivery \<Rightarrow> wop list" where
  "entry_fields e m =
     [Route (se_route e), Str (se_cron e), U8 (if m = BROADCAST then 0 else 1)] @ blob (se_payload e)"

definition entry_bytes :: "sched_entry \<Rightarrow> exn + bytes" where
  "entry_bytes e = bind_r (check_entry e) (\<lambda>m. build_payload (entry_fields e m))"

definition sched_create :: "'s link \<Rightarrow> sched_entry \<Rightarrow> ('s, ustr) io" where
  "sched_create lk e =
     io_then (ask lk MSG_SCHEDULE_CREATE (entry_bytes e) 0
         (acknowledged SCHEDULE (plain_failure SCHEDULE ''CREATE'')))
       (io_return (se_route e))"

definition sched_cancel :: "'s link \<Rightarrow> ustr \<Rightarrow> ('s, unit) io" where
  "sched_cancel lk route =
     ask lk MSG_SCHEDULE_CANCEL (bind_r (sched_route route) (\<lambda>_. build_payload [Route route])) 0
       (acknowledged SCHEDULE (plain_failure SCHEDULE ''CANCEL''))"

text \<open>\<open>create_batch\<close>: the first entry that fails decides the exception; nothing is sent then.\<close>

fun entries_bytes :: "sched_entry list \<Rightarrow> exn + bytes" where
  "entries_bytes [] = Inr []"
| "entries_bytes (e # es) =
     bind_r (entry_bytes e) (\<lambda>x. bind_r (entries_bytes es) (\<lambda>xs. Inr (x @ xs)))"

definition batch_payload :: "sched_entry list \<Rightarrow> exn + bytes" where
  "batch_payload es =
     bind_r (build_payload [U32 (int (length es))]) (\<lambda>n. bind_r (entries_bytes es) (\<lambda>xs. Inr (n @ xs)))"

definition sched_create_batch :: "'s link \<Rightarrow> sched_entry list \<Rightarrow> ('s, unit) io" where
  "sched_create_batch lk es =
     ask lk MSG_SCHEDULE_CREATE_BATCH (batch_payload es) 0
       (acknowledged SCHEDULE (mapped_failure SCHEDULE ''CREATE_BATCH''))"

section \<open>Lists\<close>

definition list_payload :: "ustr option \<Rightarrow> int option \<Rightarrow> exn + bytes" where
  "list_payload cursor limit =
     build_payload ((case cursor of None \<Rightarrow> [U8 0] | Some c \<Rightarrow> [U8 1, Str c]) @ [OptU64 limit])"

definition read_entry :: "sched_entry rd" where
  "read_entry =
     rd_bind read_string (\<lambda>route. rd_bind read_string (\<lambda>cron. rd_bind read_u8 (\<lambda>mode.
     if mode \<noteq> 0 \<and> mode \<noteq> 1 then rd_raise (bad SCHEDULE ''INVALID_RESPONSE'')
     else rd_bind read_blob (\<lambda>body. rd_return \<lparr>se_route = route, se_cron = cron,
       se_mode = mode_name (if mode = 0 then BROADCAST else SINGLE), se_payload = body\<rparr>))))"

text \<open>
  \<open>while True\<close> over the entry markers. Every round takes at least the marker from the payload, so
  the number of bytes left is fuel enough: \<open>entry_loop_fuel\<close>.
\<close>

fun entry_loop :: "nat \<Rightarrow> sched_entry list rd" where
  "entry_loop 0 = rd_raise (OtherException 1)"
| "entry_loop (Suc n) =
     rd_bind read_u8 (\<lambda>marker.
     if marker = 0 then rd_return []
     else if marker \<noteq> 1 then rd_raise (bad SCHEDULE ''INVALID_RESPONSE'')
     else rd_bind read_entry (\<lambda>e. rd_bind (entry_loop n) (\<lambda>es. rd_return (e # es))))"

definition read_entries :: "sched_entry list rd" where
  "read_entries = rd_bind (rd_get remaining) (\<lambda>left. entry_loop (Suc (length left)))"

definition list_reader :: "cursor_page rd" where
  "list_reader =
     rd_bind read_u8 (\<lambda>version.
     if version \<noteq> 1 then rd_raise (bad SCHEDULE ''INVALID_RESPONSE'')
     else rd_bind read_u8 (\<lambda>more.
     if more \<noteq> 0 \<and> more \<noteq> 1 then rd_raise (bad SCHEDULE ''INVALID_RESPONSE'')
     else rd_bind read_u8 (\<lambda>marker.
     if marker \<noteq> 0 \<and> marker \<noteq> 1 then rd_raise (bad SCHEDULE ''INVALID_RESPONSE'')
     else rd_bind (if marker = 1 then rd_bind read_string (\<lambda>c. rd_return (Some c)) else rd_return None) (\<lambda>cont.
     rd_bind read_entries (\<lambda>entries.
     rd_bind (expect_eof (bad SCHEDULE ''INVALID_RESPONSE'')) (\<lambda>_.
     rd_return \<lparr>cp_entries = entries, cp_has_more = (more = 1), cp_continuation = cont\<rparr>))))))"

definition list_reply :: "bytes \<Rightarrow> exn + cursor_page" where
  "list_reply raw = bind_r (reply_data (mapped_failure SCHEDULE ''LIST_V2'') raw) (run_reader list_reader)"

definition limit_ok :: "int option \<Rightarrow> bool" where
  "limit_ok limit \<longleftrightarrow> (case limit of None \<Rightarrow> True | Some n \<Rightarrow> 0 \<le> n \<and> n \<le> 1000)"

definition sched_list_v2 :: "'s link \<Rightarrow> ustr option \<Rightarrow> int option \<Rightarrow> ('s, cursor_page) io" where
  "sched_list_v2 lk cursor limit =
     io_then (io_check (limit_ok limit) PyValueError)
       (ask lk MSG_SCHEDULE_LIST_V2 (list_payload cursor limit) 0 list_reply)"

definition sched_list :: "'s link \<Rightarrow> int option \<Rightarrow> int option \<Rightarrow> ('s, sched_page) io" where
  "sched_list lk offset limit =
     io_then (io_check (offset = None \<or> offset = Some 0) PyValueError)
    (io_then (io_check (limit_ok limit) PyValueError)
    (io_bind (sched_list_v2 lk None limit) (\<lambda>p. io_return \<lparr>sp_entries = cp_entries p, sp_total = None,
       sp_has_more = cp_has_more p, sp_continuation = cp_continuation p\<rparr>)))"

section \<open>Subscriptions\<close>

definition sched_subscribe_wire :: "'s link \<Rightarrow> ustr \<Rightarrow> ('s, int) io" where
  "sched_subscribe_wire lk route =
     ask lk MSG_SCHEDULE_SUBSCRIBE (build_payload [Route route]) 0
       (\<lambda>raw. bind_r (reply_data (plain_failure SCHEDULE ''SUBSCRIBE'') raw) (marked_id SCHEDULE))"

definition sched_unsubscribe_wire :: "'s link \<Rightarrow> ustr \<Rightarrow> ('s, unit) io" where
  "sched_unsubscribe_wire lk route =
     ask lk MSG_SCHEDULE_UNSUBSCRIBE (build_payload [Route route]) 0
       (acknowledged SCHEDULE (plain_failure SCHEDULE ''UNSUBSCRIBE''))"

definition sched_subscribe ::
  "'s link \<Rightarrow> ustr \<Rightarrow> sched_note registry \<Rightarrow> 's \<Rightarrow> ((exn + nat) \<times> sched_note registry) \<times> 's" where
  "sched_subscribe lk route r s =
     (case sched_pattern route of
        Inl e \<Rightarrow> ((Inl e, r), s)
      | Inr _ \<Rightarrow> registry_subscribe (sched_subscribe_wire lk route) route r s)"

definition sched_notification :: "bytes \<Rightarrow> exn + int \<times> sched_note" where
  "sched_notification = run_reader
     (rd_bind read_u64_be (\<lambda>i. rd_bind read_route (\<lambda>route. rd_bind read_blob (\<lambda>body.
      rd_bind (expect_eof (bad SCHEDULE ''INVALID_RESPONSE'')) (\<lambda>_.
      rd_return (i, \<lparr>sn_route = route, sn_payload = body\<rparr>))))))"

definition sched_notify :: "bytes \<Rightarrow> sched_note registry \<Rightarrow> exn option \<times> sched_note registry" where
  "sched_notify = registry_notify sched_notification"

section \<open>The entry loop\<close>

lemma read_moves:
  "read_u8 r = Inr (v, r') \<Longrightarrow> length (remaining r) = Suc (length (remaining r'))"
  by (auto simp: read_u8_def read_uint_def rd_bind_Inr_iff read_raw_def remaining_def split: if_splits)

lemma read_raw_shrinks: "read_raw n r = Inr (v, r') \<Longrightarrow> length (remaining r') \<le> length (remaining r)"
  by (auto simp: read_raw_def remaining_def split: if_splits)

lemma read_entry_shrinks: "read_entry r = Inr (e, r') \<Longrightarrow> length (remaining r') \<le> length (remaining r)"
  unfolding read_entry_def read_string_def read_blob_def read_bytes_def read_u32_be_def read_uint_def
  by (auto simp: rd_bind_Inr_iff rd_lift_def bind_r_Inr_iff split: if_splits
      dest!: read_raw_shrinks read_moves)

text \<open>The fuel is enough: the loop never runs out of it.\<close>

lemma entry_loop_fuel:
  "length (remaining r) < n \<Longrightarrow> length (remaining r) < m \<Longrightarrow> entry_loop n r = entry_loop m r"
proof (induction n arbitrary: r m)
  case (Suc n)
  then obtain k where m: "m = Suc k" by (cases m) auto
  have "rd_bind read_entry (\<lambda>e. rd_bind (entry_loop n) (\<lambda>es. rd_return (e # es))) r1 =
      rd_bind read_entry (\<lambda>e. rd_bind (entry_loop k) (\<lambda>es. rd_return (e # es))) r1"
    if u8: "read_u8 r = Inr (v, r1)" for v r1
  proof (cases "read_entry r1")
    case (Inr p)
    obtain e r2 where p: "p = (e, r2)" by (cases p)
    have "length (remaining r2) < n" "length (remaining r2) < k"
      using read_moves [OF u8] read_entry_shrinks [of r1 e r2] Inr p Suc.prems m by simp_all
    then have "entry_loop n r2 = entry_loop k r2" by (rule Suc.IH)
    then show ?thesis using Inr p by (simp add: rd_bind_def)
  qed (simp add: rd_bind_Inl)
  then show ?case unfolding m
    by (cases "read_u8 r") (auto simp: rd_bind_Inl rd_bind_Inr split: if_splits)
qed simp

lemma entry_loop_unfold:
  "read_entries r =
     rd_bind read_u8 (\<lambda>marker.
     if marker = 0 then rd_return []
     else if marker \<noteq> 1 then rd_raise (bad SCHEDULE ''INVALID_RESPONSE'')
     else rd_bind read_entry (\<lambda>e. rd_bind read_entries (\<lambda>es. rd_return (e # es)))) r"
proof (cases "read_u8 r")
  case (Inr p)
  obtain v r1 where p: "p = (v, r1)" by (cases p)
  have "entry_loop (length (remaining r)) r2 = read_entries r2"
    if "read_entry r1 = Inr (e, r2)" for e r2
    using read_moves [of r v r1] Inr p read_entry_shrinks [OF that]
      entry_loop_fuel [of r2 "length (remaining r)" "Suc (length (remaining r2))"]
    by (simp add: read_entries_def)
  then have "rd_bind read_entry (\<lambda>e. rd_bind (entry_loop (length (remaining r))) (\<lambda>es. rd_return (e # es))) r1 =
      rd_bind read_entry (\<lambda>e. rd_bind read_entries (\<lambda>es. rd_return (e # es))) r1"
    by (cases "read_entry r1") (auto simp: rd_bind_def)
  then show ?thesis using Inr p
    by (simp add: read_entries_def [THEN fun_cong] rd_bind_def [of "rd_get remaining"] rd_bind_Inr)
qed (simp add: read_entries_def rd_bind_Inl)

lemma entries_unfold:
  "read_entries = rd_bind read_u8 (\<lambda>marker.
     if marker = 0 then rd_return []
     else if marker \<noteq> 1 then rd_raise (bad SCHEDULE ''INVALID_RESPONSE'')
     else rd_bind read_entry (\<lambda>e. rd_bind read_entries (\<lambda>es. rd_return (e # es))))"
  by (rule ext) (rule entry_loop_unfold)

section \<open>Round trips\<close>

definition valid_entry :: "sched_entry \<Rightarrow> bool" where
  "valid_entry e \<longleftrightarrow> se_mode e = ''broadcast'' \<or> se_mode e = ''single''"

definition entry_ops :: "sched_entry \<Rightarrow> wop list" where
  "entry_ops e = [Str (se_route e), Str (se_cron e), U8 (if se_mode e = ''broadcast'' then 0 else 1)] @
     blob (se_payload e)"

definition cursor_page_ops :: "cursor_page \<Rightarrow> wop list" where
  "cursor_page_ops p = U8 1 # U8 (of_bool (cp_has_more p)) #
     (case cp_continuation p of None \<Rightarrow> [U8 0] | Some c \<Rightarrow> [U8 1, Str c]) @
     concat (map (\<lambda>e. U8 1 # entry_ops e) (cp_entries p)) @ [U8 0]"

lemma reads_entry: "valid_entry e \<Longrightarrow> reads read_entry (entry_ops e) e"
  unfolding read_entry_def entry_ops_def valid_entry_def
  by (auto simp: mode_name_def intro!: codec)

lemma reads_entries:
  "\<forall>e\<in>set es. valid_entry e \<Longrightarrow>
   reads read_entries (concat (map (\<lambda>e. U8 1 # entry_ops e) es) @ [U8 0]) es"
proof (induction es)
  case Nil
  show ?case by (subst entries_unfold) (auto intro!: codec)
next
  case (Cons e es)
  let ?tail = "concat (map (\<lambda>e. U8 1 # entry_ops e) es) @ [U8 0]"
  have "reads (rd_bind read_entry (\<lambda>e. rd_bind read_entries (\<lambda>es. rd_return (e # es))))
      (entry_ops e @ (?tail @ [])) (e # es)"
    using Cons by (intro reads_bind [OF reads_entry] reads_bind [of _ _ es]) (simp_all add: codec)
  then have "reads (rd_bind read_u8 (\<lambda>marker.
     if marker = 0 then rd_return []
     else if marker \<noteq> 1 then rd_raise (bad SCHEDULE ''INVALID_RESPONSE'')
     else rd_bind read_entry (\<lambda>e. rd_bind read_entries (\<lambda>es. rd_return (e # es)))))
     (U8 1 # entry_ops e @ ?tail) (e # es)"
    by (auto intro!: codec)
  then show ?case by (subst entries_unfold) simp
qed

lemma list_roundtrip:
  assumes "\<forall>e\<in>set (cp_entries p). valid_entry e" "build_payload (cursor_page_ops p) = Inr bs"
  shows "list_reply (0 # bs) = Inr p"
proof -
  have tail: "decodes (rd_bind read_entries (\<lambda>entries.
      rd_bind (expect_eof (bad SCHEDULE ''INVALID_RESPONSE'')) (\<lambda>_.
      rd_return \<lparr>cp_entries = entries, cp_has_more = cp_has_more p, cp_continuation = cp_continuation p\<rparr>)))
      ((concat (map (\<lambda>e. U8 1 # entry_ops e) (cp_entries p)) @ [U8 0]) @ []) p"
    using assms(1) by (intro decodes_bind [OF reads_entries]) (auto intro!: codec)
  have "decodes list_reader (cursor_page_ops p) p"
  proof (cases "cp_continuation p")
    case None
    then show ?thesis using tail
      by (cases "cp_has_more p") (auto simp: list_reader_def cursor_page_ops_def intro!: codec)
  next
    case (Some c)
    then show ?thesis using tail
      by (cases "cp_has_more p") (auto simp: list_reader_def cursor_page_ops_def rd_bind_assoc intro!: codec)
  qed
  from decodes_run [OF this assms(2)] show ?thesis by (simp add: list_reply_def)
qed

text \<open>A batch is sent only when every entry passes the checks, and then holds them all.\<close>

definition batch_reader :: "sched_entry list rd" where
  "batch_reader = rd_bind read_u32_be (\<lambda>n. rd_times (nat n) read_entry)"

lemma entries_bytes_ops:
  "entries_bytes es = Inr bs \<Longrightarrow>
   (\<forall>e\<in>set es. check_entry e = Inr (if se_mode e = ''broadcast'' then BROADCAST else SINGLE) \<and> valid_entry e) \<and>
   build_payload (concat (map entry_ops es)) = Inr bs"
proof (induction es arbitrary: bs)
  case (Cons e es)
  obtain m a b where e: "check_entry e = Inr m" "build_payload (entry_fields e m) = Inr a"
    "entries_bytes es = Inr b" "bs = a @ b"
    using Cons.prems by (auto simp: entry_bytes_def bind_r_Inr_iff)
  have m: "m = (if se_mode e = ''broadcast'' then BROADCAST else SINGLE)" "valid_entry e"
    using e(1) by (auto simp: check_entry_def delivery_mode_def valid_entry_def bind_r_Inr_iff split: if_splits)
  have "build_payload (entry_ops e) = Inr a"
    using e(2) m by (auto simp: entry_ops_def entry_fields_def build_payload_spec)
  then show ?case using Cons.IH [OF e(3)] e m by (auto simp: build_payload_append)
qed (simp add: build_payload_spec)

lemma batch_payload_reads:
  assumes "batch_payload es = Inr bs"
  shows "(\<forall>e\<in>set es. check_entry e = Inr (if se_mode e = ''broadcast'' then BROADCAST else SINGLE)) \<and>
    run_reader batch_reader bs = Inr es"
proof -
  obtain n xs where b: "build_payload [U32 (int (length es))] = Inr n" "entries_bytes es = Inr xs" "bs = n @ xs"
    using assms by (auto simp: batch_payload_def bind_r_Inr_iff)
  have "reads (rd_times (length es) read_entry) (concat (map entry_ops es)) es"
    using entries_bytes_ops [OF b(2)] by (intro reads_times) (auto intro: reads_entry)
  then have "decodes batch_reader (U32 (int (length es)) # concat (map entry_ops es)) es"
    unfolding batch_reader_def by (intro codec) (simp add: reads_decodes)
  moreover have "build_payload (U32 (int (length es)) # concat (map entry_ops es)) = Inr bs"
    using b entries_bytes_ops [OF b(2)]
      build_payload_append [of "[U32 (int (length es))]" "concat (map entry_ops es)" bs] by simp
  ultimately have "run_reader batch_reader bs = Inr es" by (rule decodes_run)
  then show ?thesis using entries_bytes_ops [OF b(2)] by blast
qed

text \<open>
  The payload of a batch exists only when every entry passes the checks, and then reads back
  as exactly these entries.
\<close>

lemma batch_whole:
  assumes "batch_payload es = Inr bs"
  shows "(\<forall>e\<in>set es. check_entry e = Inr (if se_mode e = ''broadcast'' then BROADCAST else SINGLE)) \<and>
    run_reader batch_reader bs = Inr es"
  by (rule batch_payload_reads [OF assms])

definition demo_entry :: sched_entry where
  "demo_entry = \<lparr>se_route = lit ''schedule://a/b/c/d'', se_cron = lit ''* *'', se_mode = ''single'', se_payload = [1, 2]\<rparr>"

lemma demo_entry_ok: "check_entry demo_entry = Inr SINGLE"
  by code_simp

lemma batch_whole_witness:
  "\<exists>bs. batch_payload [demo_entry] = Inr bs \<and> run_reader batch_reader bs = Inr [demo_entry]"
proof -
  have "list_all (\<lambda>c. c < 128) (se_route demo_entry)" "list_all (\<lambda>c. c < 128) (se_cron demo_entry)"
    "length (se_route demo_entry) = 18" "length (se_cron demo_entry) = 3" "length (se_payload demo_entry) = 2"
    by code_simp+
  then have "\<exists>bs. batch_payload [demo_entry] = Inr bs"
    by (simp add: batch_payload_def entry_bytes_def demo_entry_ok entry_fields_def build_payload_spec
        str_field_ascii blob_def bind_r_def pack_def)
  then show ?thesis using batch_whole [of "[demo_entry]"] by blast
qed

text \<open>
  A batch with one invalid entry raises and sends nothing.
\<close>

lemma batch_refuses:
  assumes "check_entry e = Inl x" "e \<in> set es"
  shows "\<exists>x. sched_create_batch lk es s = (Inl x, s)"
proof (cases "batch_payload es")
  case (Inr bs)
  then show ?thesis using batch_payload_reads [OF Inr] assms by auto
qed (simp add: sched_create_batch_def ask_def io_bind_def)

lemma batch_refuses_witness:
  "\<exists>x. sched_create_batch ack_link [demo_entry, demo_entry\<lparr>se_cron := []\<rparr>] () = (Inl x, ())"
proof -
  have "check_entry (demo_entry\<lparr>se_cron := []\<rparr>) = Inl PyValueError" by code_simp
  then show ?thesis by (rule batch_refuses) simp
qed

definition demo_list :: cursor_page where
  "demo_list = \<lparr>cp_entries = [\<lparr>se_route = lit ''a'', se_cron = lit ''*'', se_mode = ''broadcast'', se_payload = [7]\<rparr>],
     cp_has_more = True, cp_continuation = Some (lit ''c'')\<rparr>"

lemma list_roundtrip_witness:
  "\<exists>bs. build_payload (cursor_page_ops demo_list) = Inr bs \<and> list_reply (0 # bs) = Inr demo_list"
proof -
  have "\<exists>bs. build_payload (cursor_page_ops demo_list) = Inr bs"
    by (simp add: demo_list_def cursor_page_ops_def entry_ops_def build_payload_spec str_field_ascii lit_def
        bind_r_def pack_def blob_def)
  then show ?thesis using list_roundtrip [of demo_list] by (auto simp: demo_list_def valid_entry_def)
qed

end
