(* ===== verification/Notice.thy ===== *)
theory Notice
  imports Handles Routes Messages Codec
begin

text \<open>
  \<open>domains/notice.py\<close>: publishing, and subscriptions the client keeps itself instead of through
  \<open>SubscriptionRegistry\<close>. Its tables have the same shape, so they are a \<open>registry\<close> whose
  registrations are patterns; the operations are those of \<open>notice.py\<close>. The lemmas compare them
  with the shared registry and carry its invariant over.
\<close>

record notice =
  nt_route :: ustr
  nt_body :: bytes

type_synonym notices = "notice registry"

definition notice_route :: "ustr \<Rightarrow> exn + unit" where
  "notice_route route = guard_r (is_exact_route_shape route (lit ''notice'') 3) (bad NOTICE ''INVALID_ROUTE'')"

definition notice_pattern :: "ustr \<Rightarrow> exn + unit" where
  "notice_pattern pat =
     guard_r (is_selector_route_shape pat (lit ''notice'') 3 True False) (bad NOTICE ''INVALID_ROUTE'')"

section \<open>Publishing\<close>

definition publish_payload :: "ustr \<Rightarrow> bytes \<Rightarrow> exn + bytes" where
  "publish_payload route body =
     bind_r (notice_route route) (\<lambda>_. build_payload (Route route # blob body))"

definition notice_publish :: "'s link \<Rightarrow> ustr \<Rightarrow> bytes \<Rightarrow> ('s, unit) io" where
  "notice_publish lk route body =
     io_bind (io_lift (publish_payload route body)) (lk_send lk MSG_NOTICE_PUBLISH)"

definition notice_publish_with_ack :: "'s link \<Rightarrow> ustr \<Rightarrow> bytes \<Rightarrow> ('s, unit) io" where
  "notice_publish_with_ack lk route body =
     ask lk MSG_NOTICE_PUBLISH (publish_payload route body) ACK_REQUESTED
       (acknowledged NOTICE (mapped_failure NOTICE ''PUBLISH''))"

section \<open>Subscriptions\<close>

definition notice_subscribe_wire :: "'s link \<Rightarrow> ustr \<Rightarrow> ('s, int) io" where
  "notice_subscribe_wire lk pat =
     ask lk MSG_NOTICE_SUBSCRIBE (build_payload [Route pat]) 0
       (\<lambda>raw. bind_r (reply_data (mapped_failure NOTICE ''SUBSCRIBE'') raw) (marked_id NOTICE))"

definition notice_open :: "'s link \<Rightarrow> ustr \<Rightarrow> notices \<times> 's \<Rightarrow> (exn + nat) \<times> notices \<times> 's" where
  "notice_open lk pat = (\<lambda>(r, s).
     case notice_pattern pat of
       Inl e \<Rightarrow> (Inl e, r, s)
     | Inr _ \<Rightarrow>
         (case map_of (by_registration r) pat of
            Some w \<Rightarrow> (let (c, r') = attach w r in (Inr c, r', s))
          | None \<Rightarrow>
              (case notice_subscribe_wire lk pat s of
                 (Inl e, s') \<Rightarrow> (Inl e, r, s')
               | (Inr sid, s') \<Rightarrow>
                   let (w, r1) = add_wire pat sid r; (c, r2) = attach w r1 in (Inr c, r2, s'))))"

definition notice_unsubscribe_wire :: "'s link \<Rightarrow> int \<Rightarrow> ('s, unit) io" where
  "notice_unsubscribe_wire lk sid =
     ask lk MSG_NOTICE_UNSUBSCRIBE (build_payload [U64 sid]) 0
       (acknowledged NOTICE (mapped_failure NOTICE ''UNSUBSCRIBE''))"

text \<open>
  \<open>close\<close>, the callback of a subscription. A cancellation of its caller waits for the shielded
  unsubscribe, whose outcome alone decides about the tables.
\<close>

definition notice_close :: "'s link \<Rightarrow> ustr \<Rightarrow> nat \<Rightarrow> notices \<times> 's \<Rightarrow> (exn + unit) \<times> notices \<times> 's" where
  "notice_close lk pat c = (\<lambda>(r, s).
     case map_of (by_registration r) pat of
       None \<Rightarrow> (Inr (), r, s)
     | Some w \<Rightarrow>
         let cs = removeAll c (consumers (wires r w));
             r1 = r\<lparr>wires := (wires r)(w := (wires r w)\<lparr>consumers := cs\<rparr>)\<rparr>
         in if cs \<noteq> [] then (Inr (), r1, s)
            else (case notice_unsubscribe_wire lk (sub_id (wires r1 w)) s of
                    (Inl e, s') \<Rightarrow> (Inl e, r1, s')
                  | (Inr _, s') \<Rightarrow>
                      (Inr (), r1\<lparr>by_registration := AList.delete pat (by_registration r1),
                        by_id := (by_id r1)(sub_id (wires r1 w) := None)\<rparr>, s')))"

definition unsubscribe_all :: "'s link \<Rightarrow> notices \<times> 's \<Rightarrow> (exn + unit) \<times> notices \<times> 's" where
  "unsubscribe_all lk = (\<lambda>(r, s).
     case ask lk MSG_NOTICE_UNSUBSCRIBE_ALL (Inr []) 0
         (acknowledged NOTICE (mapped_failure NOTICE ''UNSUBSCRIBE_ALL'')) s of
       (Inl e, s') \<Rightarrow> (Inl e, r, s')
     | (Inr _, s') \<Rightarrow>
         (Inr (), r\<lparr>by_registration := [], by_id := Map.empty,
            subs := tell_all sub_finish (concat (map (\<lambda>(reg, w). consumers (wires r w)) (by_registration r)))
              (subs r)\<rparr>, s'))"

section \<open>Notifications\<close>

definition notice_notification :: "bytes \<Rightarrow> exn + int \<times> notice" where
  "notice_notification = run_reader
     (rd_bind read_u64_be (\<lambda>i. rd_bind read_route (\<lambda>route. rd_bind read_blob (\<lambda>body.
      rd_bind (expect_eof (bad NOTICE ''INVALID_RESPONSE'')) (\<lambda>_.
      rd_return (i, \<lparr>nt_route = route, nt_body = body\<rparr>))))))"

text \<open>An id without a live subscription keeps its notice for later.\<close>

definition deliver :: "int \<Rightarrow> notice \<Rightarrow> notices \<Rightarrow> notices" where
  "deliver i x r =
     (case (case by_id r i of None \<Rightarrow> None | Some pat \<Rightarrow> map_of (by_registration r) pat) of
        None \<Rightarrow> r\<lparr>pending := deque_append (r_capacity r) (i, x) (pending r)\<rparr>
      | Some w \<Rightarrow>
          let cs = consumers (wires r w); (dead, st) = broadcast (push x) cs (subs r)
          in r\<lparr>subs := st,
               wires := (wires r)(w := (wires r w)\<lparr>consumers := filter (\<lambda>c. c \<notin> set dead) cs\<rparr>),
               cleanups := cleanups r @ dead\<rparr>)"

definition notice_notify :: "bytes \<Rightarrow> notices \<Rightarrow> exn option \<times> notices" where
  "notice_notify body r =
     (case notice_notification body of Inl e \<Rightarrow> (Some e, r) | Inr (i, x) \<Rightarrow> (None, deliver i x r))"

section \<open>Reconnecting and closing\<close>

text \<open>One round of \<open>_restore\<close>: here a failure is given to the consumers as it is.\<close>

definition renew_one :: "ustr \<Rightarrow> nat \<Rightarrow> exn + int \<Rightarrow> notices \<Rightarrow> notices" where
  "renew_one pat w answer r =
     (let old = sub_id (wires r w) in
      case answer of
        Inl e \<Rightarrow> r\<lparr>by_registration := AList.delete pat (by_registration r), by_id := (by_id r)(old := None),
                  subs := tell_all (sub_fail e) (consumers (wires r w)) (subs r)\<rparr>
      | Inr sid \<Rightarrow> flush_pending w
          (r\<lparr>wires := (wires r)(w := (wires r w)\<lparr>sub_id := sid\<rparr>),
             by_id := ((by_id r)(old := None))(sid \<mapsto> pat)\<rparr>))"

fun renew_loop :: "'s link \<Rightarrow> (ustr \<times> nat) list \<Rightarrow> notices \<times> 's \<Rightarrow>
    (exn option \<times> (ustr \<times> exn) list) \<times> notices \<times> 's" where
  "renew_loop lk [] st = ((None, []), st)"
| "renew_loop lk ((pat, w) # ps) (r, s) =
     (case notice_subscribe_wire lk pat s of
        (Inl CancelledError, s') \<Rightarrow> ((Some CancelledError, []), r, s')
      | (a, s') \<Rightarrow>
          let ((stop, errs), st) = renew_loop lk ps (renew_one pat w a r, s')
          in ((stop, (case a of Inl e \<Rightarrow> (pat, e) # errs | Inr _ \<Rightarrow> errs)), st))"

definition notice_restore :: "'s link \<Rightarrow> notices \<times> 's \<Rightarrow> (exn option \<times> (ustr \<times> exn) list) \<times> notices \<times> 's" where
  "notice_restore lk st = renew_loop lk (by_registration (fst st)) st"

definition notice_terminate :: "notices \<Rightarrow> notices" where
  "notice_terminate r =
     r\<lparr>by_registration := [], by_id := Map.empty, pending := [],
       subs := tell_all sub_finish (concat (map (\<lambda>(reg, w). consumers (wires r w)) (by_registration r)))
         (subs r)\<rparr>"

section \<open>Against the shared registry\<close>

text \<open>On tables that agree, the client's own code is the shared registry's.\<close>

lemma deliver_publish:
  assumes "ids_ok r"
  shows "deliver i x r = publish i x r"
proof (cases "by_id r i")
  case (Some pat)
  then have "\<exists>w. map_of (by_registration r) pat = Some w"
    using assms unfolding ids_ok_def by blast
  then show ?thesis using Some by (auto simp: deliver_def publish_def)
qed (simp add: deliver_def publish_def)

lemma notice_terminate_registry: "notice_terminate r = terminate None r"
  by (simp add: notice_terminate_def terminate_def Let_def)

lemma notice_close_registry:
  "notice_close lk pat c (r, s) =
     (case close_begin pat c r of
        (None, r1) \<Rightarrow> (Inr (), r1, s)
      | (Some w, r1) \<Rightarrow>
          let (a, s') = notice_unsubscribe_wire lk (sub_id (wires r1 w)) s
          in (a, close_end pat w (case a of Inl e \<Rightarrow> Some e | Inr _ \<Rightarrow> None) r1, s'))"
  by (auto simp: notice_close_def close_begin_def close_end_def Let_def split: option.splits sum.splits prod.splits)

lemma notice_open_registry:
  assumes "notice_pattern pat = Inr ()" "map_of (by_registration r) pat = None"
    "notice_subscribe_wire lk pat s = (a, s')"
  shows "notice_open lk pat (r, s) =
    (fst (subscribe pat (case a of Inl e \<Rightarrow> Rejected e | Inr i \<Rightarrow> Replied i) r),
     snd (subscribe pat (case a of Inl e \<Rightarrow> Rejected e | Inr i \<Rightarrow> Replied i) r), s')"
  using assms by (cases a) (simp_all add: notice_open_def subscribe_def split_beta Let_def)

lemma renew_one_registry: "renew_one pat w (Inr sid) r = restore_one d pat w (Inr sid) r"
  by (simp add: renew_one_def restore_one_def Let_def)

text \<open>The invariant of the tables survives every operation, whatever the broker answers.\<close>

lemma renew_one_inv:
  assumes "reg_inv r" "map_of (by_registration r) pat = Some w"
    "\<And>sid. answer = Inr sid \<Longrightarrow> by_id r sid = None \<or> by_id r sid = Some pat"
  shows "reg_inv (renew_one pat w answer r)"
proof (cases answer)
  case (Inl e)
  have "reg_inv (fail_registration pat e r)" by (rule reg_inv_fail [OF assms(1)])
  then show ?thesis using Inl assms(2) by (simp add: renew_one_def fail_registration_def Let_def)
next
  case (Inr sid)
  then show ?thesis using reg_inv_restore_one [OF assms(1,2), of answer "[]"] assms(3)
    by (simp add: renew_one_registry [where d = "[]"])
qed

lemma reg_inv_subs: "reg_inv (r\<lparr>subs := st\<rparr>) = reg_inv r"
  by (simp add: reg_inv_def wires_ok_def ids_ok_def)

lemma notice_close_inv:
  assumes "reg_inv r"
  shows "reg_inv (fst (snd (notice_close lk pat c (r, s))))"
proof (cases "map_of (by_registration r) pat")
  case (Some w)
  let ?r = "r\<lparr>wires := (wires r)(w := (wires r w)\<lparr>consumers := removeAll c (consumers (wires r w))\<rparr>)\<rparr>"
  have "length (pending r) \<le> r_capacity r" using assms by (simp add: reg_inv_def wires_ok_distinct)
  then have r: "reg_inv ?r" by (intro reg_inv_shrink [OF assms]) (auto simp: distinct_removeAll)
  have "map_of (by_registration ?r) pat = Some w" using Some by simp
  from reg_inv_forget [OF r this, of "subs ?r"] r show ?thesis using Some
    by (auto simp: notice_close_def Let_def split: prod.split sum.split)
qed (simp add: notice_close_def assms)

lemma notice_open_inv:
  assumes "reg_inv r" "\<And>sid s'. notice_subscribe_wire lk pat s = (Inr sid, s') \<Longrightarrow> by_id r sid = None"
  shows "reg_inv (fst (snd (notice_open lk pat (r, s))))"
proof (cases "notice_pattern pat")
  case (Inr u)
  show ?thesis
  proof (cases "map_of (by_registration r) pat")
    case None
    obtain a s' where a: "notice_subscribe_wire lk pat s = (a, s')" by fastforce
    have "notice_pattern pat = Inr ()" using Inr by simp
    from notice_open_registry [OF this None a] show ?thesis
      using reg_inv_subscribe [OF assms(1), where reply = "case a of Inl e \<Rightarrow> Rejected e | Inr i \<Rightarrow> Replied i"]
        assms(2) a by (auto split: sum.splits)
  next
    case (Some w)
    then show ?thesis using Inr reg_inv_attach [OF assms(1) map_of_wire [OF Some]]
      by (simp add: notice_open_def split_beta Let_def)
  qed
qed (simp add: notice_open_def assms(1))

text \<open>Everything a notice client may do to its tables; the broker hands out ids nobody holds.\<close>

inductive notice_step :: "'s link \<Rightarrow> notices \<Rightarrow> notices \<Rightarrow> bool" for lk where
  opened: "(\<And>sid s'. notice_subscribe_wire lk pat s = (Inr sid, s') \<Longrightarrow> by_id r sid = None) \<Longrightarrow>
    notice_step lk r (fst (snd (notice_open lk pat (r, s))))"
| shut: "notice_step lk r (fst (snd (notice_close lk pat c (r, s))))"
| all: "notice_step lk r (fst (snd (unsubscribe_all lk (r, s))))"
| arrived: "notice_step lk r (snd (notice_notify body r))"
| renewed: "map_of (by_registration r) pat = Some w \<Longrightarrow>
    (\<And>sid. answer = Inr sid \<Longrightarrow> by_id r sid = None \<or> by_id r sid = Some pat) \<Longrightarrow>
    notice_step lk r (renew_one pat w answer r)"
| terminated: "notice_step lk r (notice_terminate r)"
| consumed: "notice_step lk r (r\<lparr>subs := st\<rparr>)"

lemma notice_step_inv: "notice_step lk r r' \<Longrightarrow> reg_inv r \<Longrightarrow> reg_inv r'"
proof (induction rule: notice_step.induct)
  case (all r s)
  have "reg_inv (r\<lparr>by_registration := [], by_id := Map.empty, subs := st\<rparr>)" for st
    using all by (simp add: reg_inv_def wires_ok_def ids_ok_def)
  then show ?case using all by (auto simp: unsubscribe_all_def split: prod.split sum.split)
next
  case (arrived r body)
  then show ?case
    by (auto simp: notice_notify_def deliver_publish reg_inv_def [of r] split: sum.split
        intro: reg_inv_publish [unfolded reg_inv_def] simp del: reg_inv_def)
      (simp_all add: reg_inv_def deliver_publish reg_inv_publish [unfolded reg_inv_def])
qed (simp_all add: notice_open_inv notice_close_inv renew_one_inv notice_terminate_registry
    reg_inv_terminate reg_inv_subs)

text \<open>
  C24. After any history of notice operations in which the broker hands out unused ids, the
  client's own tables are consistent and deliver a notice to the same consumers as the shared
  registry.
\<close>

lemma notice_history:
  assumes "(notice_step lk)\<^sup>*\<^sup>* (new_registry n) r"
  shows "reg_inv r \<and> deliver i x r = publish i x r"
proof -
  have "reg_inv r" using assms
    by (induction rule: rtranclp_induct) (auto simp: reg_inv_new intro: notice_step_inv)
  then show ?thesis by (simp add: reg_inv_def deliver_publish)
qed

section \<open>Unsubscribing from everything\<close>

lemma tell_all_store:
  "(\<And>s. f (f s) = f s) \<Longrightarrow> tell_all f cs st c = (if c \<in> set cs then f (st c) else st c)"
  by (induction cs arbitrary: st) (auto simp: tell_all_def Let_def split_beta)

lemma sub_finish_idem: "sub_finish (sub_finish s) = sub_finish s"
  by (simp add: sub_finish_def)

text \<open>
  unsubscribe_all changes nothing when the broker refuses, and otherwise empties the tables,
  keeps the early notices and finishes exactly the registered consumers.
\<close>

lemma unsubscribe_all_result:
  "case unsubscribe_all lk (r, s) of (answer, r', s') \<Rightarrow>
     (answer \<noteq> Inr () \<longrightarrow> r' = r) \<and>
     (answer = Inr () \<longrightarrow> registrations r' = [] \<and> by_id r' = Map.empty \<and> pending r' = pending r \<and>
        (\<forall>c. subs r' c = (if \<exists>w\<in>snd ` set (by_registration r). c \<in> set (consumers (wires r w))
                         then sub_finish (subs r c) else subs r c)))"
  by (auto simp: unsubscribe_all_def registrations_def tell_all_store sub_finish_idem
      split: prod.split sum.split)

lemma unsubscribe_all_result_witness:
  "registrations (fst (snd (unsubscribe_all ack_link
     ((new_registry 3)\<lparr>by_registration := [([97], 0)], by_id := [5 \<mapsto> [97]]\<rparr>, ())))) = []"
proof -
  let ?r = "(new_registry 3)\<lparr>by_registration := [([97], 0)], by_id := [5 \<mapsto> [97]]\<rparr> :: notices"
  have "fst (unsubscribe_all ack_link (?r, ())) = Inr ()"
    by (simp add: unsubscribe_all_def ask_def ack_link_def io_bind_def)
  then show ?thesis using unsubscribe_all_result [where lk = ack_link and r = ?r and s = "()"] by (simp add: split_beta)
qed

lemma notice_history_witness:
  "deliver 5 \<lparr>nt_route = [], nt_body = []\<rparr> (snd (notice_notify (be_bytes 8 5 @ [0,0,0,0, 0,0,0,1, 9]) (new_registry 3))) =
   publish 5 \<lparr>nt_route = [], nt_body = []\<rparr> (snd (notice_notify (be_bytes 8 5 @ [0,0,0,0, 0,0,0,1, 9]) (new_registry 3)))"
  using notice_history [OF r_into_rtranclp [where r = "notice_step ack_link", OF notice_step.arrived]] by blast

end
