(* ===== verification/Requests.thy ===== *)
theory Requests
  imports Connection Link
begin

text \<open>
  \<open>Connection.request\<close> and \<open>Connection.send\<close> on the connection itself: a caller passes the gate,
  gets its correlation id, sends and waits, and at every wait the rest of the program runs. What
  happens during the waits is a script: \<open>wd_waits k\<close> holds the events of the caller's \<open>k\<close>-th wait
  and how the wait goes on. A gate that was replaced while callers still use it is kept in
  \<open>wd_gates\<close>, for \<open>request\<close> holds on to the gate it entered. \<open>conn_link\<close> is the link the domain
  clients use.
\<close>

section \<open>The program around a caller\<close>

type_synonym outcomes = "nat \<Rightarrow> exn option"

datatype event =
    Ev_frame bytes outcomes
  | Ev_receive_error exn outcomes
  | Ev_start | Ev_dialed | Ev_authenticated outcomes | Ev_restored outcomes | Ev_failed exn outcomes
  | Ev_lost outcomes | Ev_looped outcomes | Ev_woke outcomes | Ev_closing outcomes
  | Ev_loss_task outcomes
  | Ev_listen "nat list"
  | Ev_issue int int bytes | Ev_sent int nat send_end | Ev_waited int nat wait_end
  | Ev_enter | Ev_resume nat nat bool | Ev_leave nat

text \<open>The events of the connection's own tasks; an event that is not due changes nothing.\<close>

fun conn_event :: "event \<Rightarrow> conn \<Rightarrow> conn" where
  "conn_event (Ev_frame data outcome) c =
     (case c_receive c of
        None \<Rightarrow> c
      | Some r \<Rightarrow>
          if c_transport c = None \<or> r \<in> set (c_receive_done c) \<or> c_closed c then c
          else case dispatch_transport_frame data c of
            (None, c') \<Rightarrow> c'
          | (Some e, c') \<Rightarrow> receive_failed e outcome c')"
| "conn_event (Ev_receive_error e outcome) c =
     (case c_receive c of
        None \<Rightarrow> c
      | Some r \<Rightarrow> if r \<in> set (c_receive_done c) \<or> c_closed c then c else receive_failed e outcome c)"
| "conn_event Ev_start c = (if connect_choice c = Start_connect then snd (open_begin False c) else c)"
| "conn_event Ev_dialed c =
     (case c_attempt c of
        None \<Rightarrow> c
      | Some a \<Rightarrow> if at_phase a = Dialing then open_dialed a c else c)"
| "conn_event (Ev_authenticated outcome) c =
     (case c_attempt c of
        None \<Rightarrow> c
      | Some a \<Rightarrow>
          if at_phase a = Authing \<and> c_auth c = Some Auth_ok then open_authenticated outcome a c else c)"
| "conn_event (Ev_restored outcome) c =
     (case c_attempt c of
        None \<Rightarrow> c
      | Some a \<Rightarrow> if at_phase a = Restoring then open_finish outcome a c else c)"
| "conn_event (Ev_failed e outcome) c =
     (case c_attempt c of None \<Rightarrow> c | Some a \<Rightarrow> open_failed e outcome a c)"
| "conn_event (Ev_lost outcome) c = connection_lost outcome c"
| "conn_event (Ev_looped outcome) c =
     (case c_loop c of Some (n, d, Top) \<Rightarrow> loop_top outcome c | _ \<Rightarrow> c)"
| "conn_event (Ev_woke outcome) c =
     (case c_loop c of
        Some (n, d, Asleep) \<Rightarrow> if c_attempt c = None then loop_wakes outcome c else c
      | _ \<Rightarrow> c)"
| "conn_event (Ev_closing outcome) c = snd (close_connection outcome c)"
| "conn_event (Ev_loss_task outcome) c = connection_lost outcome c"
| "conn_event (Ev_listen ls) c = c\<lparr>c_disconnect_listeners := ls\<rparr>"
| "conn_event _ c = c"

record world =
  wd_conn :: conn
  wd_gates :: "nat \<Rightarrow> gate"
  wd_ticket :: nat
  wd_others :: "nat list"  \<comment> \<open>the requests of other callers\<close>
  wd_loss :: bool  \<comment> \<open>\<open>_loss_task\<close> is waiting to run\<close>
  wd_arrived :: "bytes list"
  wd_out :: "(nat \<times> bytes) list"  \<comment> \<open>frames given to a transport\<close>
  wd_waits :: "nat \<Rightarrow> event list \<times> exn option"
  wd_turn :: nat

definition mux_of :: "world \<Rightarrow> mux" where
  "mux_of w = c_mux (wd_conn w)"

definition set_mux :: "mux \<Rightarrow> world \<Rightarrow> world" where
  "set_mux m w = w\<lparr>wd_conn := (wd_conn w)\<lparr>c_mux := m\<rparr>\<rparr>"

definition gate_at :: "nat \<Rightarrow> world \<Rightarrow> gate" where
  "gate_at i w = (if i = c_gate_id (wd_conn w) then c_gate (wd_conn w) else wd_gates w i)"

definition set_gate :: "nat \<Rightarrow> gate \<Rightarrow> world \<Rightarrow> world" where
  "set_gate i g w =
     (if i = c_gate_id (wd_conn w) then w\<lparr>wd_conn := (wd_conn w)\<lparr>c_gate := g\<rparr>\<rparr>
      else w\<lparr>wd_gates := (wd_gates w)(i := g)\<rparr>)"

text \<open>A connection event; the gate it replaces stays with the callers that hold it.\<close>

definition conn_happens :: "event \<Rightarrow> world \<Rightarrow> world" where
  "conn_happens e w =
     (let c = wd_conn w; c' = conn_event e c
      in w\<lparr>wd_conn := c',
           wd_gates := (if c_gate_id c' = c_gate_id c then wd_gates w
                        else (wd_gates w)(c_gate_id c := c_gate c))\<rparr>)"

fun happens :: "event \<Rightarrow> world \<Rightarrow> world" where
  "happens (Ev_frame data outcome) w =
     (conn_happens (Ev_frame data outcome) w)\<lparr>wd_arrived := wd_arrived w @ [data]\<rparr>"
| "happens (Ev_loss_task outcome) w =
     (if wd_loss w then (conn_happens (Ev_loss_task outcome) w)\<lparr>wd_loss := False\<rparr> else w)"
| "happens (Ev_issue mt fl fd) w =
     (case issue_begin fl fd (mux_of w) of
        (Inl e, m) \<Rightarrow> set_mux m w
      | (Inr (r, f), m) \<Rightarrow> (set_mux m w)\<lparr>wd_others := r # wd_others w\<rparr>)"
| "happens (Ev_sent mt r out) w =
     (if r \<in> set (wd_others w) then set_mux (snd (issue_sent mt r out (mux_of w))) w else w)"
| "happens (Ev_waited mt r out) w =
     (if r \<in> set (wd_others w) then set_mux (snd (issue_waited mt r out (mux_of w))) w else w)"
| "happens Ev_enter w =
     (set_gate (c_gate_id (wd_conn w)) (snd (gate_acquire (wd_ticket w) (c_gate (wd_conn w)))) w)
       \<lparr>wd_ticket := Suc (wd_ticket w)\<rparr>"
| "happens (Ev_resume i n cancelled) w = set_gate i (snd (gate_resume n cancelled (gate_at i w))) w"
| "happens (Ev_leave i) w = set_gate i (release_slot (gate_at i w)) w"
| "happens e w = conn_happens e w"

section \<open>A caller\<close>

text \<open>
  A wait of the caller: the events of the script, then \<open>None\<close> when the wait ends by itself,
  \<open>Some CancelledError\<close> when the caller is cancelled and \<open>Some e\<close> when the awaited call raises.
\<close>

definition pause :: "world \<Rightarrow> exn option \<times> world" where
  "pause w =
     (let (events, how) = wd_waits w (wd_turn w)
      in (how, fold happens events (w\<lparr>wd_turn := Suc (wd_turn w)\<rparr>)))"

text \<open>
  The second half of \<open>acquire\<close> for a caller that waits with the number \<open>n\<close> at the gate \<open>i\<close>; when
  nothing answers its wait it is cancelled.
\<close>

definition rejoin :: "nat \<Rightarrow> nat \<Rightarrow> (world, nat) io" where
  "rejoin i n w =
     (let (how, w) = pause w; g = gate_at i w;
          lonely = (futs g n = Pending);
          (a, g) = gate_resume n (how = Some CancelledError \<and> \<not> lonely)
                     (if lonely then g\<lparr>futs := (futs g)(n := Cancelled)\<rparr> else g)
      in (case a of Refused e \<Rightarrow> Inl e | _ \<Rightarrow> Inr i, set_gate i g w))"

text \<open>\<open>self._gate.acquire()\<close>\<close>

definition admit :: "(world, nat) io" where
  "admit w =
     (let i = c_gate_id (wd_conn w); n = wd_ticket w;
          (a, g) = gate_acquire n (c_gate (wd_conn w));
          w = (set_gate i g w)\<lparr>wd_ticket := Suc n\<rparr>
      in case a of Admitted \<Rightarrow> (Inr i, w) | Refused e \<Rightarrow> (Inl e, w) | Parked \<Rightarrow> rejoin i n w)"

definition leave :: "nat \<Rightarrow> world \<Rightarrow> world" where
  "leave i w = set_gate i (release_slot (gate_at i w)) w"

text \<open>The shielded send: it goes on when its caller is cancelled.\<close>

definition transmit :: "bytes \<Rightarrow> world \<Rightarrow> send_end \<times> world" where
  "transmit fr w =
     (let (how1, w) = pause w; stopped = (how1 = Some CancelledError) in
      case (send_frame_check fr (wd_conn w), c_transport (wd_conn w)) of
        (None, Some t) \<Rightarrow>
          (let (how2, w) = pause (w\<lparr>wd_out := wd_out w @ [(t, fr)]\<rparr>) in
           case how2 of
             None \<Rightarrow> (if stopped then Cancelled_then_sent else Sent, w)
           | Some e \<Rightarrow>
               if stopped then (Cancelled_then_failed, w)
               else if e = CancelledError
                 then (let (how3, w) = pause w
                       in (if how3 = None then Cancelled_then_sent else Cancelled_then_failed, w))
               else (Send_raised e, w))
      | (Some e, _) \<Rightarrow> (if stopped then Cancelled_then_failed else Send_raised e, w)
      | (None, None) \<Rightarrow> (if stopped then Cancelled_then_failed else Send_raised FitzConnectionError, w))"

text \<open>\<open>_schedule_connection_loss\<close> after a failure of the transport, the connection or the time.\<close>

definition lossy :: "exn \<Rightarrow> bool" where
  "lossy e \<longleftrightarrow> e = FitzTransportError \<or> e = FitzConnectionError \<or> e = FitzTimeoutError"

definition report_loss :: "(exn + 'a) \<times> world \<Rightarrow> (exn + 'a) \<times> world" where
  "report_loss r =
     (case r of
        (Inl e, w) \<Rightarrow> (Inl e, if lossy e then w\<lparr>wd_loss := True\<rparr> else w)
      | (Inr x, w) \<Rightarrow> (Inr x, w))"

text \<open>\<open>Multiplexer.request\<close> with its waits.\<close>

definition exchange :: "int \<Rightarrow> bytes \<Rightarrow> int \<Rightarrow> (world, bytes) io" where
  "exchange mt fd fl w =
     (case issue_begin fl fd (mux_of w) of
        (Inl e, m) \<Rightarrow> (Inl e, set_mux m w)
      | (Inr (r, fr), m) \<Rightarrow>
          (let (ended, w) = transmit fr (set_mux m w);
               (failed, m) = issue_sent mt r ended (mux_of w);
               w = set_mux m w
           in case failed of
                Some e \<Rightarrow> (Inl e, w)
              | None \<Rightarrow>
                  (let (how, w) = pause w;
                       out = (if how = Some CancelledError then Caller_cancelled
                              else if m_futures (mux_of w) r \<noteq> Waiting then Settled else wait_end.Timed_out);
                       (answer, m) = issue_waited mt r out (mux_of w)
                   in (answer, set_mux m w))))"

definition request_without_gate :: "int \<Rightarrow> bytes \<Rightarrow> int \<Rightarrow> (world, bytes) io" where
  "request_without_gate mt p fl w =
     (case encode_frame mt p fl 0 of
        Inl e \<Rightarrow> (Inl e, w)
      | Inr fd \<Rightarrow> report_loss (exchange mt fd fl w))"

text \<open>The slot is given back by \<open>leave\<close>, the function \<open>acquire\<close> returns.\<close>

definition reserve_admission :: "(world, nat) io" where
  "reserve_admission w =
     (case ensure_authenticated (wd_conn w) of Some e \<Rightarrow> (Inl e, w) | None \<Rightarrow> admit w)"

text \<open>\<open>try: ... finally: release()\<close> under the gate.\<close>

definition gated :: "(world, 'a) io \<Rightarrow> (world, 'a) io" where
  "gated body w =
     (case reserve_admission w of
        (Inl e, w) \<Rightarrow> (Inl e, w)
      | (Inr i, w) \<Rightarrow> (let (r, w) = body w in (r, leave i w)))"

definition conn_request :: "int \<Rightarrow> bytes \<Rightarrow> int \<Rightarrow> (world, bytes) io" where
  "conn_request mt p fl = gated (request_without_gate mt p fl)"

definition request_without_admission :: "int \<Rightarrow> bytes \<Rightarrow> int \<Rightarrow> (world, bytes) io" where
  "request_without_admission mt p fl w =
     (case ensure_authenticated (wd_conn w) of
        Some e \<Rightarrow> (Inl e, w)
      | None \<Rightarrow> request_without_gate mt p fl w)"

definition send_one_way :: "int \<Rightarrow> bytes \<Rightarrow> (world, unit) io" where
  "send_one_way mt p w =
     (case one_way_frame mt p (wd_conn w) of
        (Inl e, c) \<Rightarrow> (Inl e, w\<lparr>wd_conn := c\<rparr>)
      | (Inr fr, c) \<Rightarrow>
          (let t = (case c_transport c of None \<Rightarrow> 0 | Some t \<Rightarrow> t);
               (how, w) = pause (w\<lparr>wd_conn := c, wd_out := wd_out w @ [(t, fr)]\<rparr>)
           in (case how of None \<Rightarrow> Inr () | Some e \<Rightarrow> Inl e, w)))"

definition conn_send :: "int \<Rightarrow> bytes \<Rightarrow> (world, unit) io" where
  "conn_send mt p = gated (\<lambda>w. report_loss (send_one_way mt p w))"

text \<open>What a client whose disconnect listener is \<open>l\<close> sees of the connection.\<close>

definition conn_link :: "config \<Rightarrow> (nat \<Rightarrow> rat) \<Rightarrow> nat \<Rightarrow> world link" where
  "conn_link g jit l = \<lparr>
     lk_request = (\<lambda>mt p fl. conn_request mt p fl),
     lk_send = conn_send,
     lk_generation = (\<lambda>w. c_generation (wd_conn w)),
     lk_losses = (\<lambda>w. length (filter (\<lambda>x. x = On_disconnect l) (c_calls (wd_conn w)))),
     lk_capabilities = (\<lambda>w. m_capability_ids (mux_of w)),
     lk_retry = retry g, lk_jitter = jit\<rparr>"

section \<open>The script follows the connection\<close>

lemma conn_event_step: "conn_event e c = c \<or> conn_step c (conn_event e c)"
proof (cases e)
  case (Ev_frame data outcome)
  then show ?thesis
    by (auto split: option.split prod.split intro: conn_step.frame conn_step.bad_frame)
qed (auto split: option.split loop_pc.split intro: conn_step.intros)

lemma happens_conn:
  "wd_conn (happens e w) = wd_conn w \<or> conn_step (wd_conn w) (wd_conn (happens e w)) \<or>
   (\<exists>m g. wd_conn (happens e w) = (wd_conn w)\<lparr>c_mux := m, c_gate := g\<rparr>)"
proof -
  have gate: "\<exists>m g. wd_conn (set_gate i g' w) = (wd_conn w)\<lparr>c_mux := m, c_gate := g\<rparr>" for i g'
    by (rule exI [of _ "c_mux (wd_conn w)"],
        rule exI [of _ "if i = c_gate_id (wd_conn w) then g' else c_gate (wd_conn w)"])
      (simp add: set_gate_def)
  have mux: "\<exists>m' g. wd_conn (set_mux m w) = (wd_conn w)\<lparr>c_mux := m', c_gate := g\<rparr>" for m
    by (rule exI [of _ m], rule exI [of _ "c_gate (wd_conn w)"]) (simp add: set_mux_def)
  show ?thesis using conn_event_step [of e "wd_conn w"]
    by (cases e) (auto simp: conn_happens_def Let_def gate mux simp del: conn_event.simps split: prod.split sum.split)
qed

section \<open>Sessions only move on\<close>

lemma generation_kept [simp]:
  "c_generation (emit ev c) = c_generation c" "c_generation (set_state s ev c) = c_generation c"
  "c_generation (snd (notify_close outcome c)) = c_generation c"
  "c_generation (snd (notify_disconnect outcome c)) = c_generation c"
  "c_generation (settle_auth f c) = c_generation c"
  "c_generation (snd (set_max_frame_size n c)) = c_generation c"
  by (simp_all add: emit_def set_state_def listener_simps settle_auth_def set_max_frame_size_def)

lemma loop_failed_generation [simp]: "c_generation (loop_failed e outcome c) = c_generation c"
  by (simp add: loop_failed_def Let_def split: option.split prod.split)

lemma open_failed_generation [simp]: "c_generation (open_failed e outcome a c) = c_generation c"
  by (simp add: open_failed_def Let_def)

lemma lost_generation [simp]: "c_generation (connection_lost outcome c) = c_generation c"
  using generation_kept(4)
  by (simp add: connection_lost_def Let_def split_beta)

lemma dispatch_generation:
  "dispatch_transport_frame data c = (e, c') \<Longrightarrow> c_generation c' = c_generation c"
  by (auto simp: dispatch_transport_frame_def handle_hello_def handle_goaway_def set_max_frame_size_def
      settle_auth_def Let_def split: if_splits sum.splits prod.splits list.splits)

lemma conn_step_generation: "conn_step c c' \<Longrightarrow> c_generation c \<le> c_generation c'"
proof (induction rule: conn_step.induct)
  case (bad_frame c r data e c' outcome)
  then show ?case by (simp add: receive_failed_def Let_def dispatch_generation)
next
  case (authenticated c a outcome)
  then show ?case by (simp add: open_authenticated_def open_finish_def Let_def split: option.split)
next
  case (closing c outcome)
  then show ?case by (simp add: close_connection_def Let_def split_beta)
qed (simp_all add: open_begin_def open_dialed_def receive_failed_def open_finish_def loop_top_def loop_wakes_def
    dispatch_generation Let_def split: option.split prod.split)

abbreviation generation_of :: "world \<Rightarrow> int" where
  "generation_of w \<equiv> c_generation (wd_conn w)"

lemma happens_generation: "generation_of w \<le> generation_of (happens e w)"
  using happens_conn [of e w] conn_step_generation by auto

lemma fold_happens_generation: "generation_of w \<le> generation_of (fold happens es w)"
proof (induction es arbitrary: w)
  case (Cons e es)
  then show ?case using order_trans [OF happens_generation Cons.IH] by simp
qed simp

lemma pause_generation: "pause w = (how, w') \<Longrightarrow> generation_of w \<le> generation_of w'"
  using fold_happens_generation [of "w\<lparr>wd_turn := Suc (wd_turn w)\<rparr>"]
  by (auto simp: pause_def Let_def split: prod.splits)

lemma world_generation [simp]:
  "generation_of (set_mux m w) = generation_of w" "generation_of (set_gate i g w) = generation_of w"
  "generation_of (leave i w) = generation_of w"
  by (simp_all add: set_mux_def set_gate_def leave_def)

lemma rejoin_state: "\<exists>g. snd (rejoin i n w) = set_gate i g (snd (pause w))"
  by (auto simp: rejoin_def Let_def split_beta)

lemma admit_state:
  obtains g g' where "let v = (set_gate (c_gate_id (wd_conn w)) g w)\<lparr>wd_ticket := Suc (wd_ticket w)\<rparr> in
    snd (admit w) = v \<or> snd (admit w) = set_gate (c_gate_id (wd_conn w)) g' (snd (pause v))"
proof -
  obtain adm g where q: "gate_acquire (wd_ticket w) (c_gate (wd_conn w)) = (adm, g)" by fastforce
  let ?v = "(set_gate (c_gate_id (wd_conn w)) g w)\<lparr>wd_ticket := Suc (wd_ticket w)\<rparr>"
  obtain g' where "snd (rejoin (c_gate_id (wd_conn w)) (wd_ticket w) ?v) = set_gate (c_gate_id (wd_conn w)) g' (snd (pause ?v))"
    using rejoin_state by blast
  then have "snd (admit w) = ?v \<or> snd (admit w) = set_gate (c_gate_id (wd_conn w)) g' (snd (pause ?v))"
    using q by (cases adm) (auto simp: admit_def Let_def)
  then show ?thesis using that by (simp add: Let_def)
qed

lemma admit_generation: "generation_of w \<le> generation_of (snd (admit w))"
proof -
  let ?i = "c_gate_id (wd_conn w)"
  obtain g g' where st: "let v = (set_gate ?i g w)\<lparr>wd_ticket := Suc (wd_ticket w)\<rparr> in
    snd (admit w) = v \<or> snd (admit w) = set_gate ?i g' (snd (pause v))" by (rule admit_state)
  let ?v = "(set_gate ?i g w)\<lparr>wd_ticket := Suc (wd_ticket w)\<rparr>"
  have "generation_of ?v \<le> generation_of (snd (pause ?v))" by (rule pause_generation [OF surjective_pairing])
  then show ?thesis using st by (auto simp: Let_def)
qed

lemma transmit_generation: "transmit fr w = (r, w') \<Longrightarrow> generation_of w \<le> generation_of w'"
  by (auto simp: transmit_def Let_def dest!: pause_generation split: prod.splits option.splits if_splits)

lemma exchange_generation: "exchange mt fd fl w = (r, w') \<Longrightarrow> generation_of w \<le> generation_of w'"
  by (auto simp: exchange_def Let_def dest!: pause_generation transmit_generation
      split: prod.splits option.splits sum.splits)

lemma report_loss_generation [simp]: "generation_of (snd (report_loss r)) = generation_of (snd r)"
  by (auto simp: report_loss_def split: prod.split sum.split)

lemma request_generation: "generation_of w \<le> generation_of (snd (request_without_gate mt p fl w))"
  using exchange_generation [OF surjective_pairing] by (simp add: request_without_gate_def split: sum.split)

lemma one_way_generation: "generation_of w \<le> generation_of (snd (send_one_way mt p w))"
proof -
  have same: "c_generation (snd (one_way_frame mt p c)) = c_generation c" for c
    by (simp add: one_way_frame_def split_beta Let_def)
  obtain r c where f: "one_way_frame mt p (wd_conn w) = (r, c)" by fastforce
  then have c: "c_generation c = generation_of w" using same [of "wd_conn w"] by simp
  show ?thesis
  proof (cases r)
    case (Inl e)
    then show ?thesis using f c by (simp add: send_one_way_def)
  next
    case (Inr fr)
    then show ?thesis using f c pause_generation [OF surjective_pairing]
      by (auto simp: send_one_way_def Let_def split_beta intro: order_trans [OF _ pause_generation [OF surjective_pairing]])
  qed
qed

lemma gated_generation:
  assumes "\<And>w. generation_of w \<le> generation_of (snd (body w))"
  shows "generation_of w \<le> generation_of (snd (gated body w))"
proof -
  have "generation_of w \<le> generation_of (snd (admit w))" by (rule admit_generation)
  then show ?thesis using order_trans [OF _ assms]
    by (simp add: gated_def reserve_admission_def split_beta Let_def split: option.split prod.split sum.split)
qed

interpretation connected: requester "conn_link g jit l"
  by unfold_locales
     (simp_all add: conn_link_def conn_request_def conn_send_def gated_generation request_generation one_way_generation)

end
