(* ===== verification/Answers.thy ===== *)
theory Answers
  imports Requests Lifecycle
begin

text \<open>
  A request returns the answer to its own frame: what the correlation tables, the futures and the
  arrived messages keep while other callers issue, send and give up their requests and the
  connection is lost and re-established around the caller.
\<close>

section \<open>Whose answer a request returns\<close>

text \<open>A message that answers the id \<open>c\<close> with \<open>b\<close>.\<close>

definition answers :: "bytes \<Rightarrow> int \<Rightarrow> bytes \<Rightarrow> bool" where
  "answers data c b \<longleftrightarrow>
     (\<exists>f fs ids. parse_frames data = Inr (f # fs) \<and> correlation_id f = c \<and> flags f AND RESPONSE_FINAL \<noteq> 0 \<and>
        (b = payload f \<or> decode_payload (payload f) (message_type f) (flags f) = Inr (b, ids)))"

text \<open>
  What an event may do to the tables: entries disappear, a waiting caller gets a connection error
  or, if \<open>D\<close> allows it, the answer to its id.
\<close>

definition table_moves :: "(int \<Rightarrow> bytes \<Rightarrow> bool) \<Rightarrow> mux \<Rightarrow> mux \<Rightarrow> bool" where
  "table_moves D m m' \<longleftrightarrow> (m_lanes m = [] \<longrightarrow>
     m_lanes m' = [] \<and> m_reqs m' = m_reqs m \<and> m_fresh m' = m_fresh m \<and>
     (m_next m' = m_next m \<or> m_next m' = 1) \<and> set (m_correlated m') \<subseteq> set (m_correlated m) \<and>
     (\<forall>q. m_futures m' q = m_futures m q \<or> m_futures m' q = Raised FitzConnectionError \<or>
        (\<exists>c b. m_futures m' q = Result b \<and> (c, q) \<in> set (m_correlated m) \<and> D c b)))"

lemma table_refl [intro, simp]: "table_moves D m m"
  by (simp add: table_moves_def)

lemma table_trans: "table_moves D m m' \<Longrightarrow> table_moves D m' m'' \<Longrightarrow> table_moves D m m''"
  unfolding table_moves_def by (smt (verit) subsetD subset_trans)

lemma table_mono: "table_moves D m m' \<Longrightarrow> (\<And>c b. D c b \<Longrightarrow> D' c b) \<Longrightarrow> table_moves D' m m'"
  unfolding table_moves_def by metis

lemma table_disconnected: "table_moves D m (set_disconnected m)"
  by (simp add: table_moves_def set_disconnected_rest set_disconnected_futures)

lemma table_session [simp]:
  "table_moves D m (set_connected m)" "table_moves D m (set_capabilities v c m)"
  "table_moves D m (m\<lparr>m_capability_ids := ids\<rparr>)"
  by (simp_all add: table_moves_def set_connected_def set_capabilities_def)

lemma table_pushed: "table_moves D m (mux_dispatch mt b m)"
  by (simp add: table_moves_def mux_dispatch_rest)

lemma table_response:
  assumes "final \<Longrightarrow> D c b"
  shows "table_moves D m (snd (dispatch_correlated c mt b final m))"
proof (cases "map_of (m_correlated m) c")
  case (Some r)
  then show ?thesis using assms map_of_SomeD [OF Some]
    by (auto simp: table_moves_def dispatch_correlated_def settle_futures AList.delete_eq)
qed (simp add: dispatch_correlated_def)

lemma mux_kept [simp]:
  "c_mux (emit ev c) = c_mux c" "c_mux (set_state s ev c) = c_mux c"
  "c_mux (snd (notify_close outcome c)) = c_mux c" "c_mux (snd (notify_disconnect outcome c)) = c_mux c"
  "c_mux (settle_auth f c) = c_mux c" "c_mux (snd (set_max_frame_size n c)) = c_mux c"
  "c_mux (loop_failed e outcome c) = c_mux c" "c_mux (snd (open_begin again c)) = c_mux c"
  "c_mux (open_dialed a c) = c_mux c" "c_mux (loop_top outcome c) = c_mux c"
  "c_mux (loop_wakes outcome c) = c_mux c"
  by (simp_all add: emit_def set_state_def listener_simps settle_auth_def set_max_frame_size_def loop_failed_def
      open_begin_def open_dialed_def loop_top_def loop_wakes_def Let_def split: option.split prod.split)

lemma open_failed_mux [simp]: "c_mux (open_failed e outcome a c) = set_disconnected (c_mux c)"
  by (simp add: open_failed_def Let_def)

lemma lost_tables: "table_moves D (c_mux c) (c_mux (connection_lost outcome c))"
  by (simp add: connection_lost_def Let_def split_beta table_disconnected)

lemma finish_tables: "table_moves D (c_mux c) (c_mux (open_finish outcome a c))"
  by (simp add: open_finish_def Let_def table_disconnected split: option.split)

lemma authenticated_tables: "table_moves D (c_mux c) (c_mux (open_authenticated outcome a c))"
proof -
  let ?d = "c\<lparr>c_auth := None, c_generation := c_generation c + 1, c_mux := set_connected (c_mux c)\<rparr>"
  have "table_moves D (c_mux ?d) (c_mux (open_finish outcome a ?d))" by (rule finish_tables)
  then have "table_moves D (c_mux c) (c_mux (open_finish outcome a ?d))"
    by (rule table_trans [rotated]) simp
  then show ?thesis
    by (simp add: open_authenticated_def Let_def table_disconnected split: option.split)
qed

lemma close_tables: "table_moves D (c_mux c) (c_mux (snd (close_connection outcome c)))"
  by (simp add: close_connection_def Let_def split_beta table_disconnected)

lemma dispatch_tables:
  assumes "dispatch_transport_frame data c = (e, c')"
  shows "table_moves (answers data) (c_mux c) (c_mux c')"
proof -
  have hello: "table_moves (answers data) (c_mux c) (c_mux c')" if "handle_hello f ids c = (e, c')" for f ids
  proof -
    have "table_moves (answers data) m ((set_capabilities v caps m)\<lparr>m_capability_ids := x\<rparr>)" for v caps m x
      by (rule table_trans [OF table_session(2,3)])
    then show ?thesis using that
      by (auto simp: handle_hello_def Let_def set_max_frame_size_def settle_auth_def split: if_splits sum.splits)
  qed
  have goaway: "c_mux c' = c_mux c" if "handle_goaway f c = (e, c')" for f
    using that by (auto simp: handle_goaway_def split: sum.splits if_splits)
  show ?thesis using assms
    by (auto simp: dispatch_transport_frame_def Let_def split_beta answers_def dest: hello goaway
        intro!: table_pushed table_response split: if_splits sum.splits list.splits)
qed

lemma conn_event_tables:
  "table_moves (\<lambda>c b. case e of Ev_frame data _ \<Rightarrow> answers data c b | _ \<Rightarrow> False) (c_mux c) (c_mux (conn_event e c))"
proof (cases e)
  case (Ev_frame data outcome)
  show ?thesis
    by (auto simp: Ev_frame receive_failed_def Let_def split: option.split prod.split
        intro: dispatch_tables table_trans [OF dispatch_tables lost_tables])
next
  case (Ev_receive_error x outcome)
  then show ?thesis by (auto simp: receive_failed_def Let_def lost_tables split: option.split)
qed (auto simp: finish_tables authenticated_tables close_tables lost_tables table_disconnected
    split: option.split loop_pc.split)

text \<open>What the end of one request may do to the tables.\<close>

definition touches :: "nat \<Rightarrow> mux \<Rightarrow> mux \<Rightarrow> bool" where
  "touches r m m' \<longleftrightarrow> (m_lanes m = [] \<longrightarrow>
     m_lanes m' = [] \<and> m_next m' = m_next m \<and> m_fresh m' = m_fresh m \<and>
     set (m_correlated m') \<subseteq> set (m_correlated m) \<and>
     (\<forall>q. q \<noteq> r \<longrightarrow> m_reqs m' q = m_reqs m q \<and> m_futures m' q = m_futures m q))"

lemma touches_trans: "touches r m m' \<Longrightarrow> touches r m' m'' \<Longrightarrow> touches r m m''"
  unfolding touches_def by (metis subset_trans)

lemma touches_ops [simp]:
  "touches r m m" "touches r m (mark_sent r m)" "touches r m (unlink r m)" "touches r m (settle r f m)"
  "touches r m (mux_remove t r m)"
  by (auto simp: touches_def mark_sent_def unlink_def settle_def mux_remove_def lane_remove_def AList.delete_eq
      split: option.split)

lemma touches_abandon [simp]: "touches r m (abandon t r m)"
  by (auto simp: abandon_def touches_def unlink_def mux_remove_def lane_remove_def AList.delete_eq split: option.split)

lemma touches_sent: "touches r m (snd (issue_sent mt r out m))"
  by (auto simp: issue_sent_def split: send_end.split
      intro: touches_trans [OF touches_ops(2) touches_abandon] touches_trans [OF touches_ops(5) touches_abandon]
        touches_trans [OF touches_trans [OF touches_ops(2) touches_abandon] touches_abandon])

lemma touches_waited: "touches r m (snd (issue_waited mt r out m))"
  by (auto simp: issue_waited_def split: wait_end.split rfut.split
      intro: touches_trans [OF touches_ops(2) touches_abandon] touches_trans [OF touches_ops(4) touches_abandon])

definition world_ok :: "world \<Rightarrow> bool" where
  "world_ok w \<longleftrightarrow> m_lanes (mux_of w) = [] \<and> 0 \<le> m_next (mux_of w) \<and>
     (\<forall>p\<in>set (m_correlated (mux_of w)). snd p < m_fresh (mux_of w)) \<and>
     (\<forall>r\<in>set (wd_others w). r < m_fresh (mux_of w))"

text \<open>The request \<open>r\<close> with the id \<open>c\<close>, issued when the messages \<open>seen\<close> had arrived.\<close>

definition watched :: "nat \<Rightarrow> int \<Rightarrow> bytes list \<Rightarrow> world \<Rightarrow> bool" where
  "watched r c seen w \<longleftrightarrow> world_ok w \<and>
     r < m_fresh (mux_of w) \<and> r \<notin> set (wd_others w) \<and> p_corr (m_reqs (mux_of w) r) = Some c \<and>
     (\<forall>c'. (c', r) \<in> set (m_correlated (mux_of w)) \<longrightarrow> c' = c) \<and>
     (\<exists>new. wd_arrived w = seen @ new \<and>
        (\<forall>b. m_futures (mux_of w) r = Result b \<longrightarrow> (\<exists>data\<in>set new. answers data c b)))"

lemma watched_mux:
  assumes w: "watched r c seen w" and m: "table_moves D (mux_of w) (mux_of w')"
    and same: "wd_others w' = wd_others w" "wd_arrived w' = wd_arrived w @ extra"
    and D: "\<And>c b. D c b \<Longrightarrow> \<exists>data\<in>set extra. answers data c b"
  shows "watched r c seen w'"
proof -
  obtain new where new: "wd_arrived w = seen @ new"
    "\<And>b. m_futures (mux_of w) r = Result b \<Longrightarrow> \<exists>data\<in>set new. answers data c b"
    using w unfolding watched_def by blast
  have lanes: "m_lanes (mux_of w) = []" using w by (simp add: watched_def world_ok_def)
  have "\<exists>data\<in>set (new @ extra). answers data c b" if "m_futures (mux_of w') r = Result b" for b
  proof -
    have "m_futures (mux_of w) r = Result b \<or> (\<exists>c'. (c', r) \<in> set (m_correlated (mux_of w)) \<and> D c' b)"
      using m lanes that unfolding table_moves_def by (metis rfut.distinct(7) rfut.inject(1))
    then show ?thesis using new(2) D w unfolding watched_def by fastforce
  qed
  moreover have "wd_arrived w' = seen @ (new @ extra)" using new(1) same(2) by simp
  ultimately show ?thesis using w m lanes same unfolding watched_def world_ok_def table_moves_def
    by (auto dest: subsetD)
qed

lemma watched_other:
  assumes "watched r c seen w" "touches r' (mux_of w) m" "r' \<noteq> r"
  shows "watched r c seen (set_mux m w)"
  using assms unfolding watched_def world_ok_def touches_def
  by (auto simp: set_mux_def mux_of_def dest: subsetD)

lemma watched_same:
  "watched r c seen w \<Longrightarrow> mux_of w' = mux_of w \<Longrightarrow> wd_others w' = wd_others w \<Longrightarrow> wd_arrived w' = wd_arrived w \<Longrightarrow>
   watched r c seen w'"
  by (simp add: watched_def world_ok_def)

lemma set_alist_update: "set (AList.update k v al) \<subseteq> insert (k, v) (set al)"
  by (induction al) auto

lemma issue_tables:
  assumes "issue_begin fl fd m = (a, m')" "m_lanes m = []" "0 \<le> m_next m"
  shows "m_lanes m' = [] \<and> 0 \<le> m_next m' \<and> m_fresh m \<le> m_fresh m' \<and>
    set (m_correlated m') \<subseteq> insert (m_next m, m_fresh m) (set (m_correlated m)) \<and>
    (\<forall>q<m_fresh m. m_reqs m' q = m_reqs m q \<and> m_futures m' q = m_futures m q) \<and>
    (case a of
       Inl e \<Rightarrow> m_correlated m' = m_correlated m
     | Inr (r, fr) \<Rightarrow> r = m_fresh m \<and> m_fresh m' = Suc r \<and> fr = with_correlation fl (m_next m) fd \<and>
         m_next m \<le> 0xFFFFFFFFFFFFFFFF \<and>
         p_corr (m_reqs m' r) = Some (m_next m) \<and> m_futures m' r = Waiting)"
  using assms set_alist_update [of "m_next m" "m_fresh m" "m_correlated m"]
  by (auto simp: issue_begin_eq split: if_splits)

lemma mux_of_rest [simp]:
  "mux_of (w\<lparr>wd_others := a\<rparr>) = mux_of w" "mux_of (w\<lparr>wd_ticket := n\<rparr>) = mux_of w"
  "mux_of (w\<lparr>wd_loss := l\<rparr>) = mux_of w" "mux_of (w\<lparr>wd_arrived := b\<rparr>) = mux_of w"
  "mux_of (w\<lparr>wd_out := d\<rparr>) = mux_of w" "mux_of (w\<lparr>wd_turn := n\<rparr>) = mux_of w"
  by (simp_all add: mux_of_def)

lemma set_gate_rest [simp]:
  "mux_of (set_gate i g w) = mux_of w" "wd_others (set_gate i g w) = wd_others w"
  "wd_arrived (set_gate i g w) = wd_arrived w" "wd_out (set_gate i g w) = wd_out w"
  by (simp_all add: set_gate_def mux_of_def)

lemma set_mux_rest [simp]:
  "mux_of (set_mux m w) = m" "wd_others (set_mux m w) = wd_others w"
  "wd_arrived (set_mux m w) = wd_arrived w" "wd_out (set_mux m w) = wd_out w"
  by (simp_all add: set_mux_def mux_of_def)

lemma conn_happens_rest [simp]:
  "mux_of (conn_happens e w) = c_mux (conn_event e (wd_conn w))" "wd_others (conn_happens e w) = wd_others w"
  "wd_arrived (conn_happens e w) = wd_arrived w" "wd_out (conn_happens e w) = wd_out w"
  by (simp_all add: conn_happens_def mux_of_def Let_def)

lemma happens_out: "wd_out (happens e w) = wd_out w"
  by (cases e) (auto simp del: conn_event.simps split: prod.split sum.split)

text \<open>One event keeps the tables sound, and a request is only answered by a message to its id.\<close>

lemma world_ok_moved:
  assumes "world_ok w" "table_moves D (mux_of w) (mux_of w')" "wd_others w' = wd_others w"
  shows "world_ok w'"
  using assms unfolding world_ok_def table_moves_def by (auto dest: subsetD)

lemma world_ok_touched:
  assumes "world_ok w" "touches r (mux_of w) m"
  shows "world_ok (set_mux m w)"
  using assms unfolding world_ok_def touches_def by (auto dest: subsetD)

lemma world_ok_issued:
  assumes "world_ok w" "issue_begin fl fd (mux_of w) = (a, m)"
  shows "world_ok (set_mux m w)"
proof -
  have w: "m_lanes (mux_of w) = []" "0 \<le> m_next (mux_of w)" using assms(1) by (simp_all add: world_ok_def)
  note m = issue_tables [OF assms(2) w]
  have "snd p < m_fresh m" if "p \<in> set (m_correlated m)" for p
  proof (cases "p \<in> set (m_correlated (mux_of w))")
    case True
    then show ?thesis using assms(1) m by (auto simp: world_ok_def intro: less_le_trans)
  next
    case False
    then have "p = (m_next (mux_of w), m_fresh (mux_of w))" using m that by blast
    then show ?thesis using m False that by (cases a) auto
  qed
  moreover have "\<forall>r\<in>set (wd_others w). r < m_fresh m"
    using assms(1) m by (auto simp: world_ok_def intro: less_le_trans)
  ultimately show ?thesis using m by (simp add: world_ok_def)
qed

lemma happens_ok:
  assumes "world_ok w"
  shows "world_ok (happens e w)"
proof -
  have conn: "world_ok w'" if "mux_of w' = c_mux (conn_event e (wd_conn w))" "wd_others w' = wd_others w" for w'
    using world_ok_moved [OF assms, of _ w'] conn_event_tables [of e "wd_conn w"] that by (auto simp: mux_of_def)
  have same: "world_ok w'" if "mux_of w' = mux_of w" "wd_others w' = wd_others w" for w'
    using that assms by (simp add: world_ok_def)
  show ?thesis
  proof (cases e)
    case (Ev_issue mt fl fd)
    obtain a m where i: "issue_begin fl fd (mux_of w) = (a, m)" by fastforce
    have ok: "world_ok (set_mux m w)" by (rule world_ok_issued [OF assms i])
    show ?thesis
    proof (cases a)
      case (Inr p)
      then have "fst p < m_fresh m" using issue_tables [OF i] assms by (auto simp: world_ok_def split: prod.splits)
      then show ?thesis using ok Inr i Ev_issue by (auto simp: world_ok_def split: prod.split)
    qed (use ok i Ev_issue in simp)
  next
    case (Ev_sent mt r out)
    then show ?thesis using world_ok_touched [OF assms touches_sent] assms by simp
  next
    case (Ev_waited mt r out)
    then show ?thesis using world_ok_touched [OF assms touches_waited] assms by simp
  next
    case (Ev_loss_task outcome)
    then show ?thesis using assms conn by (simp del: conn_event.simps)
  qed (use conn same in \<open>simp_all del: conn_event.simps\<close>)
qed

lemma happens_watched:
  assumes "watched r c seen w"
  shows "watched r c seen (happens e w)"
proof -
  have ok: "world_ok w" using assms by (simp add: watched_def)
  have quiet: "watched r c seen w'"
    if "mux_of w' = c_mux (conn_event e (wd_conn w))" "wd_others w' = wd_others w" "wd_arrived w' = wd_arrived w"
      "\<And>data o'. e \<noteq> Ev_frame data o'" for w'
    using watched_mux [OF assms, of _ w' "[]"] conn_event_tables [of e "wd_conn w"] that
    by (cases e) (auto simp: mux_of_def)
  show ?thesis
  proof (cases e)
    case (Ev_frame data outcome)
    have "table_moves (answers data) (mux_of w) (mux_of (happens e w))"
      using conn_event_tables [of e "wd_conn w"] Ev_frame by (simp add: mux_of_def conn_happens_def Let_def)
    then show ?thesis by (rule watched_mux [OF assms, where extra = "[data]"]) (simp_all add: Ev_frame)
  next
    case (Ev_issue mt fl fd)
    obtain a m where i: "issue_begin fl fd (mux_of w) = (a, m)" by fastforce
    have w: "m_lanes (mux_of w) = []" "0 \<le> m_next (mux_of w)" using ok by (simp_all add: world_ok_def)
    have r: "r < m_fresh (mux_of w)" "r \<notin> set (wd_others w)" using assms by (simp_all add: watched_def)
    note m = issue_tables [OF i w]
    have "watched r c seen (set_mux m w)"
      using assms m r(1) world_ok_issued [OF ok i] unfolding watched_def
      by (auto dest!: subsetD intro: less_le_trans)
    moreover have "watched r c seen (x\<lparr>wd_others := q # wd_others w\<rparr>)"
      if "watched r c seen x" "wd_others x = wd_others w" "q \<noteq> r" "q < m_fresh (mux_of x)" for x q
      using that by (auto simp: watched_def world_ok_def mux_of_def)
    ultimately show ?thesis using i m r(1) Ev_issue by (auto split: sum.split)
  next
    case (Ev_sent mt q out)
    then show ?thesis using watched_other [OF assms touches_sent, of q] assms by (auto simp: watched_def)
  next
    case (Ev_waited mt q out)
    then show ?thesis using watched_other [OF assms touches_waited, of q] assms by (auto simp: watched_def)
  next
    case (Ev_loss_task outcome)
    then show ?thesis using assms quiet by (simp del: conn_event.simps)
  qed (use quiet watched_same [OF assms] in \<open>simp_all del: conn_event.simps\<close>)
qed

lemma pause_keeps:
  assumes "pause w = (how, w')"
  shows "wd_out w' = wd_out w" "world_ok w \<Longrightarrow> world_ok w'" "watched r c seen w \<Longrightarrow> watched r c seen w'"
    "\<exists>new. wd_arrived w' = wd_arrived w @ new"
proof -
  let ?w = "w\<lparr>wd_turn := Suc (wd_turn w)\<rparr>"
  obtain es where w': "w' = fold happens es ?w" using assms by (auto simp: pause_def Let_def split: prod.splits)
  have out: "wd_out (fold happens es v) = wd_out v" for v
    by (induction es arbitrary: v) (simp_all add: happens_out)
  have ok: "world_ok v \<Longrightarrow> world_ok (fold happens es v)" for v
    by (induction es arbitrary: v) (simp_all add: happens_ok)
  have watch: "watched r c seen v \<Longrightarrow> watched r c seen (fold happens es v)" for v
    by (induction es arbitrary: v) (simp_all add: happens_watched)
  have one: "\<exists>new. wd_arrived (happens e v) = wd_arrived v @ new" for e v
    by (cases e) (auto simp del: conn_event.simps split: prod.split sum.split)
  have arrived: "\<exists>new. wd_arrived (fold happens es v) = wd_arrived v @ new" for v
  proof (induction es arbitrary: v)
    case (Cons e es)
    then show ?case using one [of e v] by (metis append.assoc fold_simps(2))
  qed simp
  show "wd_out w' = wd_out w" "\<exists>new. wd_arrived w' = wd_arrived w @ new"
    using out [of ?w] arrived [of ?w] by (simp_all add: w')
  show "world_ok w'" if "world_ok w" using ok [of ?w] that by (simp add: w' world_ok_def)
  show "watched r c seen w'" if "watched r c seen w"
    using watch [of ?w] watched_same [OF that, of ?w] by (simp add: w')
qed

lemma admit_keeps:
  assumes "admit w = (a, w')"
  shows "wd_out w' = wd_out w" "world_ok w \<Longrightarrow> world_ok w'" "\<exists>new. wd_arrived w' = wd_arrived w @ new"
proof -
  have same: "world_ok v'" if "world_ok v" "mux_of v' = mux_of v" "wd_others v' = wd_others v" for v v'
    using that by (simp add: world_ok_def)
  let ?i = "c_gate_id (wd_conn w)"
  obtain g g' where st: "let v = (set_gate ?i g w)\<lparr>wd_ticket := Suc (wd_ticket w)\<rparr> in
    snd (admit w) = v \<or> snd (admit w) = set_gate ?i g' (snd (pause v))" by (rule admit_state)
  let ?w = "(set_gate ?i g w)\<lparr>wd_ticket := Suc (wd_ticket w)\<rparr>"
  obtain how v where p: "pause ?w = (how, v)" by fastforce
  have v: "wd_out v = wd_out w" "world_ok w \<Longrightarrow> world_ok v" "\<exists>new. wd_arrived v = wd_arrived w @ new"
    using pause_keeps [OF p] same [of w ?w] by simp_all
  consider "w' = ?w" | "w' = set_gate ?i g' v" using st assms p by (auto simp: Let_def)
  then have "wd_out w' = wd_out w \<and> (world_ok w \<longrightarrow> world_ok w') \<and> (\<exists>new. wd_arrived w' = wd_arrived w @ new)"
  proof cases
    case 1
    then show ?thesis using same [of w ?w] by simp
  next
    case 2
    then show ?thesis using v same [of v w'] by simp
  qed
  then show "wd_out w' = wd_out w" "world_ok w \<Longrightarrow> world_ok w'" "\<exists>new. wd_arrived w' = wd_arrived w @ new"
    by blast+
qed

lemma watched_out: "watched r c seen w \<Longrightarrow> watched r c seen (w\<lparr>wd_out := out\<rparr>)"
  by (erule watched_same) simp_all

lemma transmit_sent:
  assumes "transmit fr w = (Sent, w')" "watched r c seen w"
  shows "watched r c seen w' \<and> (\<exists>t. wd_out w' = wd_out w @ [(t, fr)])"
proof -
  obtain how1 w1 where p1: "pause w = (how1, w1)" by fastforce
  obtain t where t: "send_frame_check fr (wd_conn w1) = None" "c_transport (wd_conn w1) = Some t"
    using assms(1) p1 by (auto simp: transmit_def Let_def split: option.splits if_splits)
  obtain how2 w2 where p2: "pause (w1\<lparr>wd_out := wd_out w1 @ [(t, fr)]\<rparr>) = (how2, w2)" by fastforce
  have "w' = w2" using assms(1) p1 t p2
    by (auto simp: transmit_def Let_def split: option.splits if_splits prod.splits)
  then show ?thesis
    using pause_keeps [OF p2] watched_out [OF pause_keeps(3) [OF p1 assms(2)]] pause_keeps(1) [OF p1] by auto
qed

lemma exchange_answer:
  assumes ok: "world_ok w" and run: "exchange mt fd fl w = (Inr b, w')"
  shows "\<exists>t new. wd_out w' = wd_out w @ [(t, with_correlation fl (m_next (mux_of w)) fd)] \<and>
    m_next (mux_of w) \<le> 0xFFFFFFFFFFFFFFFF \<and>
    wd_arrived w' = wd_arrived w @ new \<and> (\<exists>data\<in>set new. answers data (m_next (mux_of w)) b)"
proof -
  obtain r fr m where i: "issue_begin fl fd (mux_of w) = (Inr (r, fr), m)"
    using run by (auto simp: exchange_def split: prod.splits sum.splits)
  have w: "m_lanes (mux_of w) = []" "0 \<le> m_next (mux_of w)" using ok by (simp_all add: world_ok_def)
  note m = issue_tables [OF i w]
  let ?c = "m_next (mux_of w)"
  have "(c', r) \<in> set (m_correlated m) \<Longrightarrow> c' = ?c" for c'
    using m ok by (auto simp: world_ok_def dest!: subsetD)
  then have watch: "watched r ?c (wd_arrived w) (set_mux m w)"
    using m world_ok_issued [OF ok i] ok by (auto simp: watched_def world_ok_def)
  obtain ended w1 where s: "transmit fr (set_mux m w) = (ended, w1)" by fastforce
  then have sent: "ended = Sent" and answered: "\<exists>how w2. pause (set_mux (mark_sent r (mux_of w1)) w1) = (how, w2) \<and>
      m_futures (mux_of w2) r = Result b \<and> w' = set_mux (mux_of w2) w2"
    using run i by (auto simp: exchange_def Let_def issue_sent_def issue_waited_def
        split: prod.splits send_end.splits if_splits rfut.splits)
  obtain t where w1: "watched r ?c (wd_arrived w) w1" "wd_out w1 = wd_out w @ [(t, fr)]"
    using transmit_sent [OF s [unfolded sent] watch] by auto
  have "watched r ?c (wd_arrived w) (set_mux (mark_sent r (mux_of w1)) w1)"
    using w1(1) by (auto simp: watched_def world_ok_def mark_sent_def)
  then obtain w2 where w2: "watched r ?c (wd_arrived w) w2" "m_futures (mux_of w2) r = Result b"
    "wd_out w2 = wd_out w1" "w' = set_mux (mux_of w2) w2"
    using answered pause_keeps(1) pause_keeps(3) by (metis set_mux_rest(4))
  then obtain new where "wd_arrived w2 = wd_arrived w @ new" "\<exists>data\<in>set new. answers data ?c b"
    unfolding watched_def by blast
  then show ?thesis using w2 w1(2) m by auto
qed

section \<open>A request that is answered\<close>

lemma pause_quiet: "wd_waits w (wd_turn w) = ([], None) \<Longrightarrow> pause w = (None, w\<lparr>wd_turn := Suc (wd_turn w)\<rparr>)"
  by (simp add: pause_def)

lemma transmit_quiet:
  assumes "wd_waits w (wd_turn w) = ([], None)" "wd_waits w (Suc (wd_turn w)) = ([], None)"
    "send_frame_check fr (wd_conn w) = None" "c_transport (wd_conn w) = Some t"
  shows "transmit fr w = (Sent, w\<lparr>wd_out := wd_out w @ [(t, fr)], wd_turn := Suc (Suc (wd_turn w))\<rparr>)"
  using assms by (simp add: transmit_def pause_quiet Let_def)

lemma dispatch_answer:
  assumes "parse_frames data = Inr [f]" "int (length data) \<le> c_max_message c"
    "flags f AND EXTENSIONS_PRESENT = 0" "flags f AND RESPONSE_FINAL \<noteq> 0"
    "message_type f \<notin> {MSG_HELLO, MSG_CONNECT_REJECTED, MSG_GOAWAY}" "correlation_id f = k" "k \<noteq> 0"
    "map_of (m_correlated (c_mux c)) k = Some r"
  shows "dispatch_transport_frame data c = (None, c\<lparr>c_mux :=
    settle r (Result (payload f)) ((c_mux c)\<lparr>m_correlated := AList.delete k (m_correlated (c_mux c))\<rparr>)\<rparr>)"
  using assms by (simp add: dispatch_transport_frame_def dispatch_correlated_def Let_def)

lemma exchange_answered:
  assumes idle: "wd_waits w (wd_turn w) = ([], None)" "wd_waits w (Suc (wd_turn w)) = ([], None)"
    "wd_waits w (Suc (Suc (wd_turn w))) = ([Ev_frame data outcome], None)"
    and up: "c_transport (wd_conn w) = Some t" "c_receive (wd_conn w) = Some rt"
      "rt \<notin> set (c_receive_done (wd_conn w))" "\<not> c_closed (wd_conn w)"
    and mux: "2 \<le> m_version (mux_of w)" "1 \<le> m_next (mux_of w)" "m_next (mux_of w) \<le> 0xFFFFFFFFFFFFFFFF"
    and ask: "0 \<le> fl" "fl \<le> 255" "length fd \<ge> 15" "int (length fd) \<le> c_max_message (wd_conn w)"
    and reply: "parse_frames data = Inr [f]" "int (length data) \<le> c_max_message (wd_conn w)"
      "flags f AND EXTENSIONS_PRESENT = 0" "flags f AND RESPONSE_FINAL \<noteq> 0"
      "message_type f \<notin> {MSG_HELLO, MSG_CONNECT_REJECTED, MSG_GOAWAY}" "correlation_id f = m_next (mux_of w)"
  shows "fst (exchange mt fd fl w) = Inr (payload f)"
proof -
  let ?k = "m_next (mux_of w)" and ?r = "m_fresh (mux_of w)"
  let ?fr = "with_correlation fl ?k fd"
  obtain m where m: "issue_begin fl fd (mux_of w) = (Inr (?r, ?fr), m)" 
     "map_of (m_correlated m) ?k = Some ?r" "p_linked (m_reqs m ?r)" "m_futures m ?r = Waiting"
    using mux ask by (auto simp: issue_begin_def correlation_enabled_def next_correlation_id_def Let_def update_conv)
  let ?w1 = "set_mux m w"
  have len: "length ?fr = length fd" using ask(3) by (simp add: with_correlation_def)
  have chk: "send_frame_check ?fr (wd_conn ?w1) = None"
    using ask(4) up(1) len by (simp add: send_frame_check_def set_mux_def)
  let ?w2 = "?w1\<lparr>wd_out := wd_out w @ [(t, ?fr)], wd_turn := Suc (Suc (wd_turn w))\<rparr>"
  have t: "transmit ?fr ?w1 = (Sent, ?w2)"
    using transmit_quiet [OF _ _ chk, of t] idle up by (simp add: set_mux_def)
  let ?m2 = "mark_sent ?r m"
  let ?w3 = "set_mux ?m2 ?w2"
  have d: "dispatch_transport_frame data (wd_conn ?w3) = (None, (wd_conn ?w3)\<lparr>c_mux :=
       settle ?r (Result (payload f)) (?m2\<lparr>m_correlated := AList.delete ?k (m_correlated ?m2)\<rparr>)\<rparr>)"
    by (subst dispatch_answer [where k = ?k and r = ?r, OF reply(1) _ reply(3-6)])
      (use reply(2) mux m(2) in \<open>simp_all add: set_mux_def mark_sent_def\<close>)
  obtain w4 where p: "pause ?w3 = (None, w4)" and f: "m_futures (mux_of w4) ?r = Result (payload f)"
    using idle(3) up d m by (simp add: pause_def set_mux_def conn_happens_def Let_def mux_of_def settle_def mark_sent_def)
  show ?thesis
    using m(1) t p f by (simp add: exchange_def issue_sent_def issue_waited_def mux_of_def set_mux_def Let_def)
qed

text \<open>
  On an authenticated connection with room at the gate, a request that is sent undisturbed and whose
  final response arrives while it waits returns the payload of that response.
\<close>

lemma request_answered:
  assumes room: "ensure_authenticated (wd_conn w) = None" "\<not> closed (c_gate (wd_conn w))"
      "active (c_gate (wd_conn w)) < maximum (c_gate (wd_conn w))" "waiters (c_gate (wd_conn w)) = []"
    and ask: "encode_frame mt p fl 0 = Inr fd" "int (length fd) \<le> c_max_message (wd_conn w)"
    and idle: "wd_waits w (wd_turn w) = ([], None)" "wd_waits w (Suc (wd_turn w)) = ([], None)"
    and up: "c_transport (wd_conn w) = Some t" "c_receive (wd_conn w) = Some rt"
      "rt \<notin> set (c_receive_done (wd_conn w))" "\<not> c_closed (wd_conn w)"
    and mux: "2 \<le> m_version (mux_of w)" "1 \<le> m_next (mux_of w)" "m_next (mux_of w) \<le> 0xFFFFFFFFFFFFFFFF"
    and reply: "wd_waits w (Suc (Suc (wd_turn w))) = ([Ev_frame data outcome], None)"
      "decode_frame data = Inr f" "int (length data) \<le> c_max_message (wd_conn w)"
      "flags f AND EXTENSIONS_PRESENT = 0" "flags f AND RESPONSE_FINAL \<noteq> 0"
      "message_type f \<notin> {MSG_HELLO, MSG_CONNECT_REJECTED, MSG_GOAWAY}" "correlation_id f = m_next (mux_of w)"
  shows "fst (conn_request mt p fl w) = Inr (payload f)"
proof -
  let ?i = "c_gate_id (wd_conn w)"
  let ?w = "(set_gate ?i ((c_gate (wd_conn w))\<lparr>active := active (c_gate (wd_conn w)) + 1\<rparr>) w)\<lparr>wd_ticket := Suc (wd_ticket w)\<rparr>"
  have a: "admit w = (Inr ?i, ?w)" using room by (simp add: admit_def gate_acquire_def Let_def)
  have fd: "fd = frame_bytes \<lparr>message_type = mt, flags = fl, correlation_id = 0, payload = p\<rparr>" "0 \<le> fl" "fl \<le> 255"
    using ask(1) by (auto simp: encode_frame_eq frame_ok_def Let_def split: if_splits)
  have same: "wd_conn ?w = (wd_conn w)\<lparr>c_gate := c_gate (wd_conn ?w)\<rparr>" "mux_of ?w = mux_of w"
      "wd_waits ?w = wd_waits w" "wd_turn ?w = wd_turn w"
    by (simp_all add: set_gate_def mux_of_def)
  have "data \<noteq> []" using decode_frame_canonical [OF reply(2)] by (auto simp: frame_bytes_def)
  then have parse: "parse_frames data = Inr [f]" using reply(2) by (simp add: parse_frames_def)
  have "fst (exchange mt fd fl ?w) = Inr (payload f)"
    by (rule exchange_answered [of ?w data outcome t rt fl fd f])
       (use idle reply up mux fd(2,3) ask(2) parse same in \<open>simp_all add: fd(1) set_gate_def mux_of_def\<close>)
  then show ?thesis using room(1) a ask(1)
    by (auto simp: conn_request_def gated_def reserve_admission_def request_without_gate_def report_loss_def Let_def split_beta split: sum.split)
qed

section \<open>A run\<close>

definition plain_up :: conn where
  "plain_up = (new_conn demo_config)\<lparr>c_state := AUTHENTICATED, c_transport := Some 0, c_receive := Some 1,
     c_max_message := 4096, c_mux := new_mux\<lparr>m_connected := True, m_version := 3\<rparr>\<rparr>"

definition served :: "gate \<Rightarrow> (nat \<Rightarrow> event list \<times> exn option) \<Rightarrow> world" where
  "served g waits = \<lparr>wd_conn = plain_up\<lparr>c_gate := g\<rparr>, wd_gates = (\<lambda>_. new_gate 0 0), wd_ticket = 0,
     wd_others = [], wd_loss = False, wd_arrived = [], wd_out = [], wd_waits = waits, wd_turn = 0\<rparr>"

definition reply_frame :: frame where
  "reply_frame = \<lparr>message_type = 128, flags = 2, correlation_id = 1, payload = [0, 7]\<rparr>"

definition answering :: "nat \<Rightarrow> event list \<times> exn option" where
  "answering k = (if k = 2 then [Ev_frame (frame_bytes reply_frame) (\<lambda>_. None)] else [], None)"

lemma answered_run: "fst (conn_request 128 [5] 0 (served (new_gate 8 1024) answering)) = Inr [0, 7]"
proof -
  have "decode_frame (frame_bytes reply_frame) = Inr reply_frame"
    by (rule decode_frame_bytes) (simp add: frame_ok_def reply_frame_def)
  from request_answered [of "served (new_gate 8 1024) answering" 128 "[5]" 0, OF _ _ _ _ _ _ _ _ _ _ _ _ _ _ _ _ this]
  show ?thesis
    by (simp add: served_def plain_up_def ensure_authenticated_def is_connected_def new_conn_def new_gate_def encode_frame_eq frame_ok_def Let_def
      answering_def mux_of_def new_mux_def reply_frame_def)
qed

section \<open>Properties\<close>



end
