(* ===== verification/Slots.thy ===== *)
theory Slots
  imports Requests Lifecycle
begin

text \<open>
  A request gives its slot of the gate back on every path: an answer, an error of the frame, the
  transport or the broker, a timeout, a cancellation at any of its waits, and a reconnect that
  replaces the gate while it waits.
\<close>

section \<open>The slot of a request\<close>

text \<open>The connection closes its gate or takes a new one, and never touches its count.\<close>

definition gate_moves :: "conn \<Rightarrow> conn \<Rightarrow> bool" where
  "gate_moves c c' \<longleftrightarrow>
     c_gate_id c' = c_gate_id c \<and> (c_gate c' = c_gate c \<or> c_gate c' = gate_close (c_gate c)) \<or>
     c_gate_id c < c_gate_id c'"

lemma gate_close_idem: "gate_close (gate_close g) = gate_close g"
  by (simp add: gate_close_def)

lemma gate_moves_trans: "gate_moves c c' \<Longrightarrow> gate_moves c' c'' \<Longrightarrow> gate_moves c c''"
  by (auto simp: gate_moves_def gate_close_idem)

lemma gate_moves_same: "c_gate_id c' = c_gate_id c \<Longrightarrow> c_gate c' = c_gate c \<Longrightarrow> gate_moves c c'"
  by (simp add: gate_moves_def)

lemma gate_kept [simp]:
  "c_gate (emit ev c) = c_gate c" "c_gate_id (emit ev c) = c_gate_id c"
  "c_gate (set_state s ev c) = c_gate c" "c_gate_id (set_state s ev c) = c_gate_id c"
  "c_gate (snd (notify_close outcome c)) = c_gate c" "c_gate_id (snd (notify_close outcome c)) = c_gate_id c"
  "c_gate (snd (notify_disconnect outcome c)) = c_gate c" "c_gate_id (snd (notify_disconnect outcome c)) = c_gate_id c"
  "c_gate (settle_auth f c) = c_gate c" "c_gate_id (settle_auth f c) = c_gate_id c"
  "c_gate (loop_failed e outcome c) = c_gate c" "c_gate_id (loop_failed e outcome c) = c_gate_id c"
  "c_gate (open_dialed a c) = c_gate c" "c_gate_id (open_dialed a c) = c_gate_id c"
  "c_gate (loop_top outcome c) = c_gate c" "c_gate_id (loop_top outcome c) = c_gate_id c"
  by (simp_all add: emit_def set_state_def listener_simps settle_auth_def loop_failed_def open_dialed_def
      loop_top_def Let_def split: option.split prod.split)

lemma open_failed_gate: "gate_moves c (open_failed e outcome a c)"
  by (simp add: gate_moves_def open_failed_def Let_def)

lemma lost_gate: "gate_moves c (connection_lost outcome c)"
  by (simp add: gate_moves_def connection_lost_def Let_def split_beta)

lemma gate_moves_cong: "gate_moves d d' \<Longrightarrow> c_gate d = c_gate c \<Longrightarrow> c_gate_id d = c_gate_id c \<Longrightarrow> gate_moves c d'"
  by (simp add: gate_moves_def)

lemma finish_gate: "gate_moves c (open_finish outcome a c)"
proof (cases "assert_transport_owner a (c\<lparr>c_restoring := False\<rparr>)")
  case (Some e)
  then show ?thesis using gate_moves_cong [OF open_failed_gate, of "c\<lparr>c_restoring := False\<rparr>" c]
    by (simp add: open_finish_def)
qed (simp add: open_finish_def Let_def gate_moves_same)

lemma authenticated_gate: "gate_moves c (open_authenticated outcome a c)"
proof -
  let ?d = "c\<lparr>c_auth := None, c_generation := c_generation c + 1, c_mux := set_connected (c_mux c)\<rparr>"
  have "gate_moves c (open_finish outcome a ?d)" "gate_moves c (open_failed e outcome a (c\<lparr>c_auth := None\<rparr>))" for e
    by (rule gate_moves_cong [OF finish_gate], simp, simp, rule gate_moves_cong [OF open_failed_gate], simp, simp)
  then show ?thesis
    by (simp add: open_authenticated_def Let_def gate_moves_same split: option.split)
qed

lemma begin_gate: "gate_moves c (snd (open_begin again c))"
  by (simp add: gate_moves_def open_begin_def Let_def)

lemma wakes_gate: "gate_moves c (loop_wakes outcome c)"
  by (auto simp: gate_moves_def open_begin_def loop_wakes_def Let_def split: option.split prod.split)

lemma close_gate: "gate_moves c (snd (close_connection outcome c))"
  by (simp add: gate_moves_def close_connection_def Let_def split_beta)

lemma dispatch_gate:
  assumes "dispatch_transport_frame data c = (e, c')"
  shows "gate_moves c c'"
proof -
  have hello: "gate_moves c c'" if "handle_hello f ids c = (e, c')" for f ids
    using that by (auto simp: gate_moves_def handle_hello_def Let_def set_max_frame_size_def split: if_splits sum.splits)
  have goaway: "gate_moves c c'" if "handle_goaway f c = (e, c')" for f
    using that by (auto simp: gate_moves_def handle_goaway_def split: sum.splits if_splits)
  show ?thesis using assms
    by (auto simp: dispatch_transport_frame_def Let_def split_beta dest: hello goaway intro: gate_moves_same
        split: if_splits sum.splits list.splits)
qed

lemma receive_failed_gate: "gate_moves c (receive_failed e outcome c)"
proof -
  have "gate_moves c ((connection_lost outcome c)\<lparr>c_receive_done := x\<rparr>)" for x
    using lost_gate [of c outcome] by (simp add: gate_moves_def)
  then show ?thesis by (simp add: receive_failed_def Let_def gate_moves_same)
qed

lemma conn_event_gate: "gate_moves c (conn_event e c)"
proof (cases e)
  case (Ev_frame data outcome)
  then show ?thesis
    by (auto simp: gate_moves_same split: option.split prod.split
        intro: dispatch_gate gate_moves_trans [OF dispatch_gate receive_failed_gate])
qed (auto simp: gate_moves_same receive_failed_gate begin_gate authenticated_gate finish_gate open_failed_gate
    lost_gate wakes_gate close_gate split: option.split loop_pc.split)

text \<open>Events in which no other caller uses a gate.\<close>

definition calm :: "event \<Rightarrow> bool" where
  "calm e \<longleftrightarrow> (case e of Ev_enter \<Rightarrow> False | Ev_resume _ _ _ \<Rightarrow> False | Ev_leave _ \<Rightarrow> False | _ \<Rightarrow> True)"

definition calm_script :: "world \<Rightarrow> bool" where
  "calm_script w \<longleftrightarrow> (\<forall>k. \<forall>e\<in>set (fst (wd_waits w k)). calm e)"

definition gate_stays :: "nat \<Rightarrow> world \<Rightarrow> world \<Rightarrow> bool" where
  "gate_stays i w w' \<longleftrightarrow> wd_waits w' = wd_waits w \<and> (i \<le> c_gate_id (wd_conn w) \<longrightarrow>
     i \<le> c_gate_id (wd_conn w') \<and> (gate_at i w' = gate_at i w \<or> gate_at i w' = gate_close (gate_at i w)))"

lemma gate_stays_refl [simp]: "gate_stays i w w"
  by (simp add: gate_stays_def)

lemma gate_stays_trans: "gate_stays i w w' \<Longrightarrow> gate_stays i w' w'' \<Longrightarrow> gate_stays i w w''"
  by (auto simp: gate_stays_def gate_close_idem)

lemma gate_stays_simps [simp]:
  "gate_stays i w (set_mux m w)" "gate_stays i w (w\<lparr>wd_others := a\<rparr>)" "gate_stays i w (w\<lparr>wd_loss := l\<rparr>)"
  "gate_stays i w (w\<lparr>wd_out := b\<rparr>)" "gate_stays i w (w\<lparr>wd_turn := n\<rparr>)" "gate_stays i w (w\<lparr>wd_arrived := c\<rparr>)"
  by (simp_all add: gate_stays_def gate_at_def set_mux_def)

lemma conn_happens_gate: "gate_stays i w (conn_happens e w)"
  using conn_event_gate [of "wd_conn w" e]
  by (auto simp: gate_stays_def gate_moves_def gate_at_def conn_happens_def Let_def simp del: conn_event.simps)

lemma happens_gate:
  assumes "calm e"
  shows "gate_stays i w (happens e w)"
proof (cases e)
  case (Ev_issue mt fl fd)
  then show ?thesis
    using gate_stays_trans [OF gate_stays_simps(1) gate_stays_simps(2)] by (auto split: prod.split sum.split)
qed (use assms conn_happens_gate gate_stays_trans [OF conn_happens_gate gate_stays_simps(3)]
    gate_stays_trans [OF conn_happens_gate gate_stays_simps(6)] in \<open>simp_all add: calm_def del: conn_event.simps\<close>)

lemma pause_gate:
  assumes "calm_script w" "pause w = (how, w')"
  shows "gate_stays i w w' \<and> calm_script w'"
proof -
  let ?w = "w\<lparr>wd_turn := Suc (wd_turn w)\<rparr>"
  obtain es where w': "w' = fold happens es ?w" and es: "\<forall>e\<in>set es. calm e"
    using assms by (auto simp: pause_def Let_def calm_script_def split: prod.splits) (metis fst_conv)
  have "gate_stays i v (fold happens es v)" for v using es
  proof (induction es arbitrary: v)
    case (Cons e es)
    then have "gate_stays i v (happens e v)" "gate_stays i (happens e v) (fold happens es (happens e v))"
      using happens_gate by simp_all
    then have "gate_stays i v (fold happens es (happens e v))" by (rule gate_stays_trans)
    then show ?case by simp
  qed simp
  then have "gate_stays i w w'" unfolding w' by (rule gate_stays_trans [OF gate_stays_simps(5)])
  then show ?thesis using assms(1) by (simp add: gate_stays_def calm_script_def)
qed

lemma stays_calm: "gate_stays i w w' \<Longrightarrow> calm_script w \<Longrightarrow> calm_script w'"
  by (simp add: gate_stays_def calm_script_def)

lemma transmit_gate:
  assumes "calm_script w" "transmit fr w = (a, w')"
  shows "gate_stays i w w'"
proof -
  obtain how1 w1 where p1: "pause w = (how1, w1)" by fastforce
  note s1 = pause_gate [OF assms(1) p1, of i]
  show ?thesis
  proof (cases "send_frame_check fr (wd_conn w1) = None \<and> c_transport (wd_conn w1) \<noteq> None")
    case True
    then obtain t where t: "c_transport (wd_conn w1) = Some t" "send_frame_check fr (wd_conn w1) = None" by auto
    let ?v = "w1\<lparr>wd_out := wd_out w1 @ [(t, fr)]\<rparr>"
    obtain how2 w2 where p2: "pause ?v = (how2, w2)" by fastforce
    have "calm_script ?v" using s1 by (simp add: calm_script_def)
    note s2 = pause_gate [OF this p2, of i]
    have to2: "gate_stays i w w2"
      using gate_stays_trans [OF gate_stays_trans [OF conjunct1 [OF s1] gate_stays_simps(4)] conjunct1 [OF s2]] .
    obtain how3 w3 where p3: "pause w2 = (how3, w3)" by fastforce
    have "gate_stays i w w3"
      using gate_stays_trans [OF to2] pause_gate [OF conjunct2 [OF s2] p3] by blast
    moreover have "w' = w2 \<or> w' = w3" using assms(2) p1 t p2 p3
      by (auto simp: transmit_def Let_def split: option.splits if_splits)
    ultimately show ?thesis using to2 by blast
  next
    case False
    then have "w' = w1" using assms(2) p1
      by (auto simp: transmit_def Let_def split: option.splits)
    then show ?thesis using s1 by simp
  qed
qed

lemma exchange_gate:
  assumes "calm_script w" "exchange mt fd fl w = (a, w')"
  shows "gate_stays i w w'"
proof (cases "issue_begin fl fd (mux_of w)")
  case (Pair x m)
  show ?thesis
  proof (cases x)
    case (Inl e)
    then show ?thesis using assms(2) Pair by (auto simp: exchange_def)
  next
    case (Inr p)
    obtain r fr where p: "p = (r, fr)" by fastforce
    obtain ended w1 where s: "transmit fr (set_mux m w) = (ended, w1)" by fastforce
    have calm: "calm_script (set_mux m w)" using stays_calm [OF gate_stays_simps(1) assms(1)] .
    have s1: "gate_stays i w w1"
      by (rule gate_stays_trans [OF gate_stays_simps(1) transmit_gate [OF calm s]])
    let ?v = "set_mux (snd (issue_sent mt r ended (mux_of w1))) w1"
    have s2: "gate_stays i w ?v" by (rule gate_stays_trans [OF s1 gate_stays_simps(1)])
    obtain how w2 where q: "pause ?v = (how, w2)" by fastforce
    have "gate_stays i w w2"
      using gate_stays_trans [OF s2] pause_gate [OF stays_calm [OF s2 assms(1)] q] by blast
    then have "gate_stays i w (set_mux m' w2)" for m' by (rule gate_stays_trans) simp
    moreover have "w' = ?v \<or> (\<exists>m'. w' = set_mux m' w2)"
      using assms(2) Pair Inr p s q by (auto simp: exchange_def Let_def split_beta split: option.splits prod.splits)
    ultimately show ?thesis using s2 by blast
  qed
qed

lemma request_gate:
  assumes "calm_script w" "request_without_gate mt p fl w = (a, w')"
  shows "gate_stays i w w'"
proof (cases "encode_frame mt p fl 0")
  case (Inr fd)
  obtain b v where x: "exchange mt fd fl w = (b, v)" by fastforce
  then have "gate_stays i w v" by (rule exchange_gate [OF assms(1)])
  moreover have "w' = v \<or> w' = v\<lparr>wd_loss := True\<rparr>"
    using assms(2) Inr x by (auto simp: request_without_gate_def report_loss_def split: sum.splits)
  ultimately show ?thesis using gate_stays_trans [OF _ gate_stays_simps(3)] by blast
qed (use assms in \<open>simp add: request_without_gate_def\<close>)

lemma stays_gate:
  "gate_stays i w w' \<Longrightarrow> i \<le> c_gate_id (wd_conn w) \<Longrightarrow>
    gate_at i w' = gate_at i w \<or> gate_at i w' = gate_close (gate_at i w)"
  by (simp add: gate_stays_def)

lemma gate_at_set_gate [simp]: "gate_at i (set_gate i g w) = g"
  by (simp add: gate_at_def set_gate_def)

lemma gate_at_ticket [simp]: "gate_at i (w\<lparr>wd_ticket := n\<rparr>) = gate_at i w"
  by (simp add: gate_at_def)

lemma calm_set [simp]: "calm_script (set_gate i g w) = calm_script w" "calm_script (w\<lparr>wd_ticket := n\<rparr>) = calm_script w"
  by (simp_all add: calm_script_def set_gate_def)

lemma gate_close_simps [simp]:
  "active (gate_close g) = active g" "closed (gate_close g)" "waiters g = [] \<Longrightarrow> waiters (gate_close g) = []"
  by (simp_all add: gate_close_def)

text \<open>A caller that finds room takes one slot, and a body that leaves the gate alone gives it back.\<close>

lemma slot_taken_and_left:
  assumes "gate_acquire n g = (Admitted, g')" "0 \<le> active g" "h = g' \<or> h = gate_close g'"
  shows "active (release_slot h) = active g \<and> waiters (release_slot h) = waiters g"
  using assms by (auto simp: gate_acquire_def release_slot_def split: if_splits)

text \<open>A caller that waits without an answer is cancelled and takes itself out of the queue.\<close>

lemma slot_waited:
  assumes "gate_acquire n g = (Parked, g')" "n \<notin> set (waiters g)" "0 \<le> active g"
    and "rejoin i n w = (r, w')" "gate_stays i v w" "calm_script w" "i \<le> c_gate_id (wd_conn v)"
    and "gate_at i v = g'"
  shows "(\<exists>e. r = Inl e) \<and>
    (closed (gate_at i w') \<or> active (gate_at i w') = active g \<and> waiters (gate_at i w') = waiters g)"
proof -
  obtain how u where p: "pause w = (how, u)" by fastforce
  have "gate_stays i v u" using gate_stays_trans [OF assms(5)] pause_gate [OF assms(6) p] by blast
  then have u: "gate_at i u = g' \<or> gate_at i u = gate_close g'" using assms(7,8) by (simp add: gate_stays_def)
  have g': "g' = g\<lparr>waiters := waiters g @ [n], futs := (futs g)(n := Pending)\<rparr>" "\<not> closed g"
    using assms(1) by (simp_all add: gate_acquire_def split: if_splits)
  from u show ?thesis
  proof
    assume "gate_at i u = g'"
    then show ?thesis using assms(2,4) p
      by (auto simp: rejoin_def Let_def g' gate_resume_def awaited_def remove1_append)
  next
    assume "gate_at i u = gate_close g'"
    then have "futs (gate_at i u) n = Failed FitzConnectionError" "waiters (gate_at i u) = []" "closed (gate_at i u)"
      using g' by (simp_all add: gate_close_def)
    then have "\<exists>e. gate_resume n (how = Some CancelledError) (gate_at i u) = (Refused e, release_slot (gate_at i u))"
      by (cases "how = Some CancelledError") (simp_all add: gate_resume_def awaited_def)
    moreover have "futs (gate_at i u) n \<noteq> Pending" "closed (release_slot (gate_at i u))"
      using \<open>futs (gate_at i u) n = _\<close> \<open>closed (gate_at i u)\<close> \<open>waiters (gate_at i u) = []\<close>
      by (simp_all add: release_slot_def)
    ultimately show ?thesis using assms(4) p
      by (auto simp: rejoin_def Let_def)
  qed
qed

text \<open>
  C11. While no other caller uses the gate, a request leaves the count and the queue of the gate it
  entered as it found them, however it ends and whatever the connection does meanwhile, unless
  the gate was closed.
\<close>

lemma request_gives_slot_back:
  assumes calm: "calm_script w" and i: "i = c_gate_id (wd_conn w)"
    and count: "0 \<le> active (gate_at i w)" and fresh: "wd_ticket w \<notin> set (waiters (gate_at i w))"
    and run: "conn_request mt p fl w = (r, w')" and still: "\<not> closed (gate_at i w')"
  shows "active (gate_at i w') = active (gate_at i w) \<and> waiters (gate_at i w') = waiters (gate_at i w)"
proof (cases "ensure_authenticated (wd_conn w)")
  case None
  obtain adm g where q: "gate_acquire (wd_ticket w) (c_gate (wd_conn w)) = (adm, g)" by fastforce
  let ?v = "(set_gate i g w)\<lparr>wd_ticket := Suc (wd_ticket w)\<rparr>"
  have here: "gate_at i w = c_gate (wd_conn w)" "i \<le> c_gate_id (wd_conn ?v)" "calm_script ?v" "gate_at i ?v = g"
    by (simp_all add: calm) (simp_all add: i gate_at_def set_gate_def)
  show ?thesis
  proof (cases adm)
    case Admitted
    obtain a u where b: "request_without_gate mt p fl ?v = (a, u)" by fastforce
    have "gate_at i u = g \<or> gate_at i u = gate_close g"
      using stays_gate [OF request_gate [OF here(3) b] here(2)] here(4) by simp
    moreover have "w' = leave i u" using run None q b Admitted
      by (simp add: conn_request_def gated_def reserve_admission_def admit_def i Let_def)
    ultimately show ?thesis using slot_taken_and_left [of "wd_ticket w" "gate_at i w" g] q Admitted count here(1)
      by (simp add: leave_def)
  next
    case Parked
    obtain a u where b: "rejoin i (wd_ticket w) ?v = (a, u)" by fastforce
    have "(\<exists>e. a = Inl e) \<and>
        (closed (gate_at i u) \<or> active (gate_at i u) = active (gate_at i w) \<and> waiters (gate_at i u) = waiters (gate_at i w))"
      by (rule slot_waited [OF _ _ count b gate_stays_refl here(3,2,4)]) (use q Parked here(1) fresh in simp_all)
    moreover from this have "w' = u" using run None q b Parked
      by (auto simp: conn_request_def gated_def reserve_admission_def admit_def i Let_def)
    ultimately show ?thesis using still by blast
  next
    case (Refused e)
    then show ?thesis using run None q here
      by (auto simp: conn_request_def gated_def reserve_admission_def admit_def i Let_def gate_acquire_def split: if_splits)
  qed
qed (use run in \<open>simp add: conn_request_def gated_def reserve_admission_def\<close>)

definition quiet_full :: world where
  "quiet_full = \<lparr>wd_conn = (new_conn demo_config)\<lparr>c_state := AUTHENTICATED, c_gate := (new_gate 1 4)\<lparr>active := 1, waiters := [3]\<rparr>\<rparr>,
     wd_gates = (\<lambda>_. new_gate 0 0), wd_ticket = 5, wd_others = [], wd_loss = False, wd_arrived = [], wd_out = [],
     wd_waits = (\<lambda>_. ([Ev_listen [2]], None)), wd_turn = 0\<rparr>"

text \<open>The caller waits behind another one; nothing frees a slot and it is cancelled.\<close>

lemma request_gives_slot_back_witness:
  "waiters (gate_at 0 (snd (conn_request 128 [5] 0 quiet_full))) = [3]"
proof -
  obtain r w' where run: "conn_request 128 [5] 0 quiet_full = (r, w')" by fastforce
  have g: "gate_at 0 quiet_full = (new_gate 1 4)\<lparr>active := 1, waiters := [3]\<rparr>" "c_gate_id (wd_conn quiet_full) = 0"
    by (simp_all add: gate_at_def quiet_full_def new_conn_def)
  have "\<not> closed (gate_at 0 w')"
    using run by (auto simp: quiet_full_def new_conn_def new_gate_def conn_request_def gated_def reserve_admission_def ensure_authenticated_def
      admit_def gate_acquire_def rejoin_def pause_def conn_happens_def gate_at_def set_gate_def gate_resume_def
      awaited_def Let_def)
  from request_gives_slot_back [OF _ _ _ _ run this] show ?thesis
    by (simp add: run g new_gate_def) (simp add: quiet_full_def calm_script_def calm_def)
qed

end
