(* ===== verification/Lease.thy ===== *)
theory Lease
  imports Handles Routes Messages
begin

text \<open>
  \<open>domains/lease.py\<close> without its two concurrent parts: the arguments and replies of every
  operation, the handle of a lease with its fencing token, managed leases with their renewal, and
  the listing. The interleaving of acquisitions is in \<open>Lease_Acquire\<close>, the inventory observer in
  \<open>Lease_Observer\<close>. Times are seconds since the epoch; the clock is an argument.
\<close>

section \<open>Data and checks\<close>

record lease_info =
  li_held :: bool
  li_owner :: "ustr option"
  li_ttl :: "int option"
  li_waiters :: int
  li_expires :: "rat option"

record lease_cursor =
  lc_snapshot :: int
  lc_offset :: int

record lease_item =
  lt_route :: ustr
  lt_owner :: ustr
  lt_incarnation :: int
  lt_acquired :: ustr
  lt_expires :: int
  lt_renewals :: int

record lease_page =
  lp_items :: "lease_item list"
  lp_cursor :: "lease_cursor option"

record lease =
  ls_route :: ustr
  ls_owner :: ustr
  ls_token :: int
  ls_expires :: rat
  ls_generation :: int
  ls_released :: bool

definition lease_route :: "ustr \<Rightarrow> exn + unit" where
  "lease_route route = guard_r (is_exact_route_shape route (lit ''lease'') 3) (bad LEASE ''INVALID_ROUTE'')"

definition lease_pattern :: "ustr \<Rightarrow> exn + unit" where
  "lease_pattern pat =
     guard_r (is_selector_route_shape pat (lit ''lease'') 3 True True) (bad LEASE ''INVALID_ROUTE'')"

definition lease_duration :: "py_num \<Rightarrow> bool \<Rightarrow> exn + int" where
  "lease_duration v positive =
     (case v of
        Py_int n \<Rightarrow> if n < (if positive then 1 else 0) then Inl PyValueError else Inr n
      | _ \<Rightarrow> Inl PyTypeError)"

definition check_u32 :: "py_num option \<Rightarrow> exn + int option" where
  "check_u32 v =
     (case v of
        None \<Rightarrow> Inr None
      | Some (Py_int n) \<Rightarrow> if 0 \<le> n \<and> n \<le> 0xFFFFFFFF then Inr (Some n) else Inl PyValueError
      | _ \<Rightarrow> Inl PyTypeError)"

text \<open>
  \<open>datetime.now(UTC) + timedelta(seconds=ttl)\<close>: a duration has at most 999999999 days and a date
  lies before the year 10000.
\<close>

definition expiry :: "rat \<Rightarrow> int \<Rightarrow> exn + rat" where
  "expiry now ttl =
     (if ttl div 86400 > 999999999 \<or> now + of_int ttl \<ge> 253402300800 then Inl OverflowError
      else Inr (now + of_int ttl))"

abbreviation lease_failure :: "string \<Rightarrow> response \<Rightarrow> exn" where
  "lease_failure \<equiv> mapped_failure LEASE"

abbreviation ill_formed :: exn where
  "ill_formed \<equiv> bad LEASE ''INVALID_RESPONSE''"

section \<open>Acquisition\<close>

definition acquire_args ::
  "ustr \<Rightarrow> ustr \<Rightarrow> ustr option \<Rightarrow> py_num \<Rightarrow> py_num \<Rightarrow> exn + ustr \<times> int \<times> int" where
  "acquire_args self_id route owner ttl wait =
     bind_r (lease_route route) (\<lambda>_.
     bind_r (lease_duration ttl True) (\<lambda>t.
     bind_r (lease_duration wait False) (\<lambda>w.
     bind_r (guard_r (t > 0 \<and> 0 \<le> w \<and> w \<le> 2 ^ 32 - 1) PyValueError) (\<lambda>_.
     let who = (case owner of None \<Rightarrow> self_id | Some o' \<Rightarrow> o')
     in bind_r (guard_r (who \<noteq> []) PyValueError) (\<lambda>_. Inr (who, t, w))))))"

definition acquire_payload :: "ustr \<Rightarrow> ustr \<Rightarrow> int \<Rightarrow> int \<Rightarrow> exn + bytes" where
  "acquire_payload route who ttl wait = build_payload [Route route, Route who, U64 ttl, U32 wait]"

definition decode_acquire :: "bytes \<Rightarrow> exn + int \<times> int" where
  "decode_acquire raw = bind_r (reply_data (lease_failure ''ACQUIRE'') raw) (run_reader
     (rd_bind read_u8 (\<lambda>kind. rd_bind read_u64_be (\<lambda>token. rd_bind (rd_get is_eof) (\<lambda>eof.
      if kind \<notin> {0, 1, 2, 3} \<or> \<not> eof then rd_raise ill_formed else rd_return (kind, token))))))"

text \<open>The first reply: \<open>Some\<close> the token, or \<open>None\<close> when the broker queued the caller.\<close>

definition primary_reply :: "bool \<Rightarrow> bytes \<Rightarrow> exn + int option" where
  "primary_reply waits raw =
     bind_r (decode_acquire raw) (\<lambda>(kind, token).
       if kind = 3 then Inl (bad LEASE ''ALREADY_QUEUED'')
       else if kind \<noteq> 2 then Inr (Some token)
       else if waits then Inr None else Inl ill_formed)"

definition final_reply :: "bytes \<Rightarrow> exn + int" where
  "final_reply raw =
     bind_r (decode_acquire raw) (\<lambda>(kind, token). if kind \<in> {0, 1} then Inr token else Inl ill_formed)"

text \<open>One acquisition on its own; \<open>queued\<close> is the wait for the reply of a queued caller.\<close>

definition lease_acquire ::
  "'s link \<Rightarrow> ustr \<Rightarrow> rat \<Rightarrow> ('s, bytes) io \<Rightarrow> ustr \<Rightarrow> ustr option \<Rightarrow> py_num \<Rightarrow> py_num \<Rightarrow> ('s, lease) io" where
  "lease_acquire lk self_id now queued route owner ttl wait =
     io_bind (io_lift (acquire_args self_id route owner ttl wait)) (\<lambda>(who, t, w).
     io_bind (ask lk MSG_LEASE_ACQUIRE (acquire_payload route who t w) 0 (primary_reply (w > 0))) (\<lambda>first.
     io_bind (case first of
         Some token \<Rightarrow> io_return token
       | None \<Rightarrow> io_bind queued (\<lambda>raw. io_lift (final_reply raw))) (\<lambda>token.
     io_bind (io_lift (expiry now t)) (\<lambda>e. io_gets (\<lambda>s.
       \<lparr>ls_route = route, ls_owner = who, ls_token = token, ls_expires = e,
        ls_generation = lk_generation lk s, ls_released = False\<rparr>)))))"

section \<open>The handle\<close>

text \<open>Leases register no disconnect listener: the hook does nothing.\<close>

abbreviation lease_link :: "'s link \<Rightarrow> (lease \<times> 's) link" where
  "lease_link \<equiv> hook (\<lambda>h. h)"

definition lease_valid :: "'s link \<Rightarrow> (lease \<times> 's, unit) io" where
  "lease_valid lk = (\<lambda>(h, s).
     (if ls_released h \<or> ls_generation h \<noteq> lk_generation lk s then Inl StaleHandleError else Inr (), (h, s)))"

definition lease_fields :: "lease \<Rightarrow> wop list \<Rightarrow> wop list" where
  "lease_fields h ops = [Route (ls_route h), Route (ls_owner h), U64 (ls_token h)] @ ops"

definition lease_ask :: "'s link \<Rightarrow> int \<Rightarrow> wop list \<Rightarrow> (bytes \<Rightarrow> exn + 'a) \<Rightarrow> (lease \<times> 's, 'a) io" where
  "lease_ask lk mt ops reply =
     io_bind (io_gets fst) (\<lambda>h. ask (lease_link lk) mt (build_payload (lease_fields h ops)) 0 reply)"

definition extend_reply :: "bytes \<Rightarrow> exn + int" where
  "extend_reply raw = bind_r (reply_data (lease_failure ''EXTEND'') raw) (\<lambda>data.
     if length data \<noteq> 8 then Inl ill_formed else run_reader read_u64_be data)"

text \<open>The client's \<open>_extend\<close> with the checked ttl beside its token, and its \<open>_release\<close>.\<close>

definition extend_request :: "'s link \<Rightarrow> py_num \<Rightarrow> (lease \<times> 's, int \<times> int) io" where
  "extend_request lk ttl =
     io_bind (io_lift (lease_duration ttl True)) (\<lambda>t.
       io_bind (lease_ask lk MSG_LEASE_EXTEND [U64 t] extend_reply) (\<lambda>token. io_return (t, token)))"

definition release_request :: "'s link \<Rightarrow> (lease \<times> 's, unit) io" where
  "release_request lk = lease_ask lk MSG_LEASE_RELEASE [] (acknowledged LEASE (lease_failure ''RELEASE''))"

text \<open>\<open>extend\<close>: the new fencing token is taken before the new expiry is computed.\<close>

definition lease_extend :: "'s link \<Rightarrow> rat \<Rightarrow> py_num \<Rightarrow> (lease \<times> 's, unit) io" where
  "lease_extend lk now ttl =
     io_bind (io_then (lease_valid lk) (extend_request lk ttl))
     (\<lambda>(t, token).
       io_then (io_modify (apfst (\<lambda>h. h\<lparr>ls_token := token\<rparr>)))
         (io_bind (io_lift (expiry now t)) (\<lambda>e. io_modify (apfst (\<lambda>h. h\<lparr>ls_expires := e\<rparr>)))))"

definition lease_release :: "'s link \<Rightarrow> (lease \<times> 's, unit) io" where
  "lease_release lk =
     io_then (io_then (lease_valid lk) (release_request lk))
       (io_modify (apfst (\<lambda>h. h\<lparr>ls_released := True\<rparr>)))"

section \<open>Managed leases\<close>

text \<open>
  \<open>_renew\<close>, cancelled during its \<open>n\<close>-th sleep at the latest: what it leaves in \<open>_lost\<close>. \<open>rest k\<close>
  is what happens to the program during a sleep, \<open>clock k\<close> the time after the extension.
\<close>

fun lease_renewals ::
  "'s link \<Rightarrow> int \<Rightarrow> (nat \<Rightarrow> rat) \<Rightarrow> (nat \<Rightarrow> 's \<Rightarrow> 's) \<Rightarrow> nat \<Rightarrow> lease \<times> 's \<Rightarrow> exn option \<times> lease \<times> 's" where
  "lease_renewals lk ttl clock rest 0 (h, s) = (None, h, rest 0 s)"
| "lease_renewals lk ttl clock rest (Suc n) (h, s) =
     (case lease_extend lk (clock n) (Py_int ttl) (h, rest (Suc n) s) of
        (Inr _, st) \<Rightarrow> lease_renewals lk ttl clock rest n st
      | (Inl e, st) \<Rightarrow> (if e = CancelledError then None else Some LeaseLostError, st))"

text \<open>\<open>__aexit__\<close>, after the renewal task has ended.\<close>

definition managed_exit :: "'s link \<Rightarrow> exn option \<Rightarrow> (lease \<times> 's, unit) io" where
  "managed_exit lk lost = (\<lambda>(h, s).
     let (r, st) = (if ls_released h then (Inr (), (h, s)) else lease_release lk (h, s));
         failures = (case lost of None \<Rightarrow> [] | Some e \<Rightarrow> [e]) @ (case r of Inl e \<Rightarrow> [e] | Inr _ \<Rightarrow> [])
     in (if r = Inl CancelledError then Inl CancelledError
         else case failures of
           [] \<Rightarrow> Inr ()
         | [e] \<Rightarrow> Inl e
         | es \<Rightarrow> Inl (LeaseLifecycleError es), st))"

text \<open>\<open>async with client.hold(...)\<close> around a body that only lets time pass.\<close>

definition managed_lease ::
  "('s, lease) io \<Rightarrow> 's link \<Rightarrow> int \<Rightarrow> (nat \<Rightarrow> rat) \<Rightarrow> (nat \<Rightarrow> 's \<Rightarrow> 's) \<Rightarrow> nat \<Rightarrow> 's \<Rightarrow>
   (exn + unit) \<times> lease option \<times> 's" where
  "managed_lease acquire lk ttl clock rest n s =
     (case acquire s of
        (Inl e, s) \<Rightarrow> (Inl e, None, s)
      | (Inr h, s) \<Rightarrow>
          (let (lost, st) = lease_renewals lk ttl clock rest n (h, s);
               (r, h, s) = managed_exit lk lost st
           in (r, Some h, s)))"

section \<open>Queries and listing\<close>

definition query_reader :: "rat \<Rightarrow> lease_info rd" where
  "query_reader now =
     rd_bind read_u8 (\<lambda>flag.
     if flag \<noteq> 0 \<and> flag \<noteq> 1 then rd_raise ill_formed
     else if flag = 0
     then rd_bind read_u32_be (\<lambda>n. rd_bind (expect_eof ill_formed) (\<lambda>_.
       rd_return \<lparr>li_held = False, li_owner = None, li_ttl = None, li_waiters = n, li_expires = None\<rparr>))
     else rd_bind read_route (\<lambda>owner. rd_bind read_u64_be (\<lambda>ttl. rd_bind read_u32_be (\<lambda>n.
       rd_bind (rd_lift (expiry now ttl)) (\<lambda>e. rd_bind (expect_eof ill_formed) (\<lambda>_.
       rd_return \<lparr>li_held = True, li_owner = Some owner, li_ttl = Some ttl, li_waiters = n,
         li_expires = Some e\<rparr>))))))"

definition query_reply :: "rat \<Rightarrow> bytes \<Rightarrow> exn + lease_info" where
  "query_reply now raw = bind_r (reply_data (lease_failure ''QUERY'') raw) (run_reader (query_reader now))"

definition lease_query :: "'s link \<Rightarrow> rat \<Rightarrow> ustr \<Rightarrow> ('s, lease_info) io" where
  "lease_query lk now route =
     ask lk MSG_LEASE_QUERY (bind_r (lease_route route) (\<lambda>_. build_payload [Route route])) 0 (query_reply now)"

definition cursor_fields :: "lease_cursor option \<Rightarrow> wop list" where
  "cursor_fields c =
     (case c of None \<Rightarrow> [U8 0] | Some c \<Rightarrow> [U8 1, U64 (lc_snapshot c), U32 (lc_offset c)])"

definition lease_list_fields :: "ustr \<Rightarrow> lease_cursor option \<Rightarrow> int option \<Rightarrow> wop list" where
  "lease_list_fields pat cursor limit =
     [Route pat] @ cursor_fields cursor @ [U32 (case limit of None \<Rightarrow> 0 | Some n \<Rightarrow> n)]"

definition read_lease_item :: "lease_item rd" where
  "read_lease_item =
     rd_bind read_route (\<lambda>route. rd_bind read_string (\<lambda>owner. rd_bind read_u64_be (\<lambda>inc.
     rd_bind read_string (\<lambda>acquired. rd_bind read_u64_be (\<lambda>expires. rd_bind read_u32_be (\<lambda>renewals.
     rd_return \<lparr>lt_route = route, lt_owner = owner, lt_incarnation = inc, lt_acquired = acquired,
       lt_expires = expires, lt_renewals = renewals\<rparr>))))))"

definition read_lease_cursor :: "lease_cursor option rd" where
  "read_lease_cursor =
     rd_bind read_u8 (\<lambda>flag.
     if flag \<noteq> 0 \<and> flag \<noteq> 1 then rd_raise ill_formed
     else if flag = 1
     then rd_bind read_u64_be (\<lambda>i. rd_bind read_u32_be (\<lambda>n. rd_return (Some \<lparr>lc_snapshot = i, lc_offset = n\<rparr>)))
     else rd_return None)"

definition list_page_reader :: "lease_page rd" where
  "list_page_reader =
     rd_bind read_u32_be (\<lambda>count. rd_bind (rd_times (nat count) read_lease_item) (\<lambda>items.
     rd_bind read_lease_cursor (\<lambda>cursor. rd_bind (expect_eof ill_formed) (\<lambda>_.
     rd_return \<lparr>lp_items = items, lp_cursor = cursor\<rparr>))))"

definition list_page_reply :: "bytes \<Rightarrow> exn + lease_page" where
  "list_page_reply raw = bind_r (reply_data (lease_failure ''LIST'') raw) (run_reader list_page_reader)"

definition lease_list_page :: "'s link \<Rightarrow> ustr \<Rightarrow> lease_cursor option \<Rightarrow> py_num option \<Rightarrow> ('s, lease_page) io" where
  "lease_list_page lk pat cursor limit =
     io_then (io_lift (lease_pattern pat))
    (io_bind (io_lift (check_u32 limit)) (\<lambda>n.
     ask lk MSG_LEASE_LIST (build_payload (lease_list_fields pat cursor n)) 0 list_page_reply))"

text \<open>
  \<open>list_leases\<close>, drained: the items, the exception that ended it, and the state; \<open>None\<close> when the
  broker's pages never end.
\<close>

partial_function (option) list_leases_loop ::
  "'s link \<Rightarrow> ustr \<Rightarrow> py_num option \<Rightarrow> lease_cursor option \<Rightarrow> lease_item list \<Rightarrow> 's \<Rightarrow>
   ((lease_item list \<times> exn option) \<times> 's) option" where
  "list_leases_loop lk pat limit cursor acc s =
     (case lease_list_page lk pat cursor limit s of
        (Inl e, s') \<Rightarrow> Some ((acc, Some e), s')
      | (Inr page, s') \<Rightarrow>
          if lp_cursor page = None then Some ((acc @ lp_items page, None), s')
          else list_leases_loop lk pat limit (lp_cursor page) (acc @ lp_items page) s')"

definition list_leases ::
  "'s link \<Rightarrow> ustr \<Rightarrow> py_num option \<Rightarrow> 's \<Rightarrow> ((lease_item list \<times> exn option) \<times> 's) option" where
  "list_leases lk pat limit s = list_leases_loop lk pat limit None [] s"

text \<open>\<open>_full_list\<close>: a later item replaces an earlier one of the same route.\<close>

definition full_view :: "lease_item list \<Rightarrow> ustr \<Rightarrow> lease_item option" where
  "full_view items = fold (\<lambda>i v. v(lt_route i \<mapsto> i)) items Map.empty"

definition full_list :: "'s link \<Rightarrow> ustr \<Rightarrow> 's \<Rightarrow> ((exn + (ustr \<Rightarrow> lease_item option)) \<times> 's) option" where
  "full_list lk pat s =
     map_option (\<lambda>((items, e), s').
       (case e of None \<Rightarrow> Inr (full_view items) | Some e \<Rightarrow> Inl e, s')) (list_leases lk pat None s)"

section \<open>Subscriptions\<close>

definition sub_id_reply :: "bytes \<Rightarrow> exn + int" where
  "sub_id_reply raw = bind_r (reply_data (lease_failure ''SUBSCRIBE'') raw) (\<lambda>data.
     if length data \<noteq> 8 then Inl ill_formed else run_reader read_u64_be data)"

definition lease_subscribe_wire :: "'s link \<Rightarrow> ustr \<Rightarrow> ('s, int) io" where
  "lease_subscribe_wire lk pat = ask lk MSG_LEASE_SUBSCRIBE (build_payload [Route pat]) 0 sub_id_reply"

definition lease_unsubscribe_wire :: "'s link \<Rightarrow> ustr \<Rightarrow> ('s, unit) io" where
  "lease_unsubscribe_wire lk pat =
     ask lk MSG_LEASE_UNSUBSCRIBE (build_payload [Route pat]) 0
       (acknowledged LEASE (lease_failure ''UNSUBSCRIBE''))"

definition lease_subscribe :: "'s link \<Rightarrow> ustr \<Rightarrow> ustr registry \<Rightarrow> 's \<Rightarrow> ((exn + nat) \<times> ustr registry) \<times> 's" where
  "lease_subscribe lk pat r s =
     (case lease_pattern pat of
        Inl e \<Rightarrow> ((Inl e, r), s)
      | Inr _ \<Rightarrow> registry_subscribe (lease_subscribe_wire lk pat) pat r s)"

definition lease_notification :: "bytes \<Rightarrow> exn + int \<times> ustr" where
  "lease_notification = run_reader
     (rd_bind read_u64_be (\<lambda>i. rd_bind read_route (\<lambda>route. rd_bind read_blob (\<lambda>body.
      if body \<noteq> [] then rd_raise ill_formed
      else rd_bind (expect_eof ill_formed) (\<lambda>_. rd_return (i, route))))))"

definition lease_notify :: "bytes \<Rightarrow> ustr registry \<Rightarrow> exn option \<times> ustr registry" where
  "lease_notify = registry_notify lease_notification"

end
