(* ===== verification/Lease_Acquire.thy ===== *)
theory Lease_Acquire
  imports Lease
begin

text \<open>
  Concurrent acquisitions of one lease client. All of them pass one lock; a caller that is willing
  to wait leaves a future in the client's queue before it asks, and the broker's later message to
  queued callers settles the oldest future. A caller that is cancelled while its future is in the
  queue hands the lock to a task that waits for that future.
\<close>

section \<open>State\<close>

datatype afut = Unset | Reply bytes | Broken exn

text \<open>
  A caller waits for the lock, then for the reply to its ACQUIRE, then for its future; \<open>Draining\<close>
  is the task that a cancelled caller left behind. The flag tells whether it is willing to wait.
\<close>

datatype aphase = Absent | Entering bool | Asking bool | Queued | Draining | Ended "exn + int"

record acq_sys =
  aq_lock :: "nat option"
  aq_queue :: "nat list"
  aq_futs :: "nat \<Rightarrow> afut"
  aq_phase :: "nat \<Rightarrow> aphase"

definition new_acq :: acq_sys where
  "new_acq = \<lparr>aq_lock = None, aq_queue = [], aq_futs = (\<lambda>_. Unset), aq_phase = (\<lambda>_. Absent)\<rparr>"

section \<open>Operations\<close>

definition aq_enter :: "nat \<Rightarrow> bool \<Rightarrow> acq_sys \<Rightarrow> acq_sys" where
  "aq_enter n waits s = s\<lparr>aq_phase := (aq_phase s)(n := Entering waits)\<rparr>"

text \<open>The lock is granted; the future is queued and the request is on its way.\<close>

definition aq_take :: "nat \<Rightarrow> bool \<Rightarrow> acq_sys \<Rightarrow> acq_sys" where
  "aq_take n waits s =
     s\<lparr>aq_lock := Some n, aq_queue := aq_queue s @ (if waits then [n] else []),
       aq_phase := (aq_phase s)(n := Asking waits)\<rparr>"

text \<open>The caller returns or raises: its future leaves the queue and the lock is released.\<close>

definition aq_finish :: "nat \<Rightarrow> exn + int \<Rightarrow> acq_sys \<Rightarrow> acq_sys" where
  "aq_finish n r s =
     s\<lparr>aq_lock := None, aq_queue := remove1 n (aq_queue s), aq_phase := (aq_phase s)(n := Ended r)\<rparr>"

text \<open>The reply to ACQUIRE, or the failure of the request.\<close>

definition aq_answered :: "nat \<Rightarrow> bool \<Rightarrow> exn + bytes \<Rightarrow> acq_sys \<Rightarrow> acq_sys" where
  "aq_answered n waits raw s =
     (case bind_r raw (primary_reply waits) of
        Inl e \<Rightarrow> aq_finish n (Inl e) s
      | Inr (Some token) \<Rightarrow>
          aq_finish n (if waits \<and> n \<notin> set (aq_queue s) then Inl PyValueError else Inr token) s
      | Inr None \<Rightarrow> s\<lparr>aq_phase := (aq_phase s)(n := Queued)\<rparr>)"

definition aq_woken :: "nat \<Rightarrow> acq_sys \<Rightarrow> acq_sys" where
  "aq_woken n s =
     (case aq_futs s n of
        Unset \<Rightarrow> s
      | Reply raw \<Rightarrow> aq_finish n (final_reply raw) s
      | Broken e \<Rightarrow> aq_finish n (Inl e) s)"

definition aq_cancel :: "nat \<Rightarrow> acq_sys \<Rightarrow> acq_sys" where
  "aq_cancel n s =
     (case aq_phase s n of
        Entering _ \<Rightarrow> s\<lparr>aq_phase := (aq_phase s)(n := Ended (Inl CancelledError))\<rparr>
      | _ \<Rightarrow>
          if n \<in> set (aq_queue s) then s\<lparr>aq_phase := (aq_phase s)(n := Draining)\<rparr>
          else aq_finish n (Inl CancelledError) s)"

definition aq_drained :: "nat \<Rightarrow> acq_sys \<Rightarrow> acq_sys" where
  "aq_drained n s = s\<lparr>aq_lock := None, aq_phase := (aq_phase s)(n := Ended (Inl CancelledError))\<rparr>"

text \<open>\<open>_queued_reply\<close>: the oldest future that is not done gets the message.\<close>

fun push_loop :: "bytes \<Rightarrow> nat list \<Rightarrow> (nat \<Rightarrow> afut) \<Rightarrow> nat list \<times> (nat \<Rightarrow> afut)" where
  "push_loop raw [] f = ([], f)"
| "push_loop raw (n # q) f = (if f n = Unset then (q, f(n := Reply raw)) else push_loop raw q f)"

definition queued_reply :: "bytes \<Rightarrow> acq_sys \<Rightarrow> acq_sys" where
  "queued_reply raw s =
     (let (q, f) = push_loop raw (aq_queue s) (aq_futs s) in s\<lparr>aq_queue := q, aq_futs := f\<rparr>)"

definition acq_disconnect :: "acq_sys \<Rightarrow> acq_sys" where
  "acq_disconnect s =
     s\<lparr>aq_queue := [],
       aq_futs := (\<lambda>n. if n \<in> set (aq_queue s) \<and> aq_futs s n = Unset then Broken FitzConnectionError
                       else aq_futs s n)\<rparr>"

section \<open>Steps\<close>

text \<open>\<open>news\<close>: whether messages to queued callers and lost connections may happen.\<close>

inductive acq_step :: "bool \<Rightarrow> acq_sys \<Rightarrow> acq_sys \<Rightarrow> bool" for news :: bool where
  enter: "aq_phase s n = Absent \<Longrightarrow> acq_step news s (aq_enter n waits s)"
| take_lock: "aq_phase s n = Entering waits \<Longrightarrow> aq_lock s = None \<Longrightarrow> acq_step news s (aq_take n waits s)"
| answered: "aq_phase s n = Asking waits \<Longrightarrow> acq_step news s (aq_answered n waits raw s)"
| woken: "aq_phase s n = Queued \<Longrightarrow> aq_futs s n \<noteq> Unset \<Longrightarrow> acq_step news s (aq_woken n s)"
| cancel: "aq_phase s n \<in> {Entering w, Asking w, Queued} \<Longrightarrow> acq_step news s (aq_cancel n s)"
| drained: "aq_phase s n = Draining \<Longrightarrow> aq_futs s n \<noteq> Unset \<Longrightarrow> acq_step news s (aq_drained n s)"
| push: "news \<Longrightarrow> acq_step news s (queued_reply raw s)"
| lost: "news \<Longrightarrow> acq_step news s (acq_disconnect s)"

inductive acq_reach :: "acq_sys \<Rightarrow> bool" where
  start: "acq_reach new_acq"
| step: "acq_reach s \<Longrightarrow> acq_step True s s' \<Longrightarrow> acq_reach s'"

section \<open>The invariant\<close>

definition inside :: "aphase \<Rightarrow> bool" where
  "inside p \<longleftrightarrow> (case p of Asking _ \<Rightarrow> True | Queued \<Rightarrow> True | Draining \<Rightarrow> True | _ \<Rightarrow> False)"

definition future_ok :: "acq_sys \<Rightarrow> nat \<Rightarrow> bool" where
  "future_ok s n \<longleftrightarrow>
     (case aq_phase s n of
        Absent \<Rightarrow> aq_futs s n = Unset
      | Entering _ \<Rightarrow> aq_futs s n = Unset
      | Asking waits \<Rightarrow> waits \<longrightarrow> n \<in> set (aq_queue s) \<or> aq_futs s n \<noteq> Unset
      | Queued \<Rightarrow> n \<in> set (aq_queue s) \<or> aq_futs s n \<noteq> Unset
      | Draining \<Rightarrow> n \<in> set (aq_queue s) \<or> aq_futs s n \<noteq> Unset
      | Ended _ \<Rightarrow> True)"

text \<open>One caller at a time is inside, and the queue holds at most its future, which is not done.\<close>

definition acq_inv :: "acq_sys \<Rightarrow> bool" where
  "acq_inv s \<longleftrightarrow>
     (\<forall>n. inside (aq_phase s n) \<longleftrightarrow> aq_lock s = Some n) \<and>
     (aq_queue s = [] \<or> (\<exists>n. aq_lock s = Some n \<and> aq_queue s = [n] \<and> aq_futs s n = Unset \<and> aq_phase s n \<noteq> Asking False)) \<and>
     (\<forall>n. future_ok s n)"

lemma inside_simps [simp]:
  "inside (Asking w)" "inside Queued" "inside Draining" "\<not> inside Absent" "\<not> inside (Entering w)"
  "\<not> inside (Ended r)"
  by (simp_all add: inside_def)

lemma acq_inv_start: "acq_inv new_acq"
  by (simp add: acq_inv_def new_acq_def future_ok_def)

lemma acq_inv_cases:
  assumes "acq_inv s" "aq_lock s = Some n"
  obtains "aq_queue s = []" | "aq_queue s = [n]" "aq_futs s n = Unset" "aq_phase s n \<noteq> Asking False"
  using assms by (auto simp: acq_inv_def)

lemma acq_inv_unlocked: "acq_inv s \<Longrightarrow> aq_lock s = None \<Longrightarrow> aq_queue s = []"
  by (auto simp: acq_inv_def)

text \<open>A step that changes one caller's phase, the lock and the queue.\<close>

lemma acq_inv_change:
  assumes inv: "acq_inv s" and lock: "aq_lock s = Some n \<or> aq_lock s = None"
    and lock': "l = (if inside p then Some n else None)"
    and queue: "q = [] \<or> q = [n] \<and> aq_futs s n = Unset \<and> inside p \<and> p \<noteq> Asking False"
    and fut: "future_ok (s\<lparr>aq_lock := l, aq_queue := q, aq_phase := (aq_phase s)(n := p)\<rparr>) n"
  shows "acq_inv (s\<lparr>aq_lock := l, aq_queue := q, aq_phase := (aq_phase s)(n := p)\<rparr>)"
proof -
  let ?s = "s\<lparr>aq_lock := l, aq_queue := q, aq_phase := (aq_phase s)(n := p)\<rparr>"
  have outside: "\<not> inside (aq_phase s m)" if "m \<noteq> n" for m
    using inv lock that by (auto simp: acq_inv_def)
  have "future_ok ?s m" for m
  proof (cases "m = n")
    case False
    then have "future_ok s m" "\<not> inside (aq_phase s m)" using inv outside by (simp_all add: acq_inv_def)
    then show ?thesis using False by (simp add: future_ok_def split: aphase.splits)
  qed (use fut in simp)
  moreover have "inside (aq_phase ?s m) \<longleftrightarrow> aq_lock ?s = Some m" for m
    using outside [of m] by (simp add: lock')
  ultimately show ?thesis using queue by (auto simp: acq_inv_def lock')
qed

lemma acq_inv_finish:
  assumes "acq_inv s" "aq_lock s = Some n"
  shows "acq_inv (aq_finish n r s)"
  unfolding aq_finish_def
  by (rule acq_inv_change [OF assms(1)])
    (use assms in \<open>auto elim!: acq_inv_cases simp: future_ok_def\<close>)

lemma acq_inv_lock: "acq_inv s \<Longrightarrow> inside (aq_phase s n) \<Longrightarrow> aq_lock s = Some n"
  by (simp add: acq_inv_def)

lemma acq_inv_out: "acq_inv s \<Longrightarrow> \<not> inside (aq_phase s n) \<Longrightarrow> aq_lock s \<noteq> Some n"
  unfolding acq_inv_def by blast

lemma acq_inv_future: "acq_inv s \<Longrightarrow> future_ok s n"
  by (simp add: acq_inv_def)

lemma acq_inv_phase:
  assumes "acq_inv s" "inside (aq_phase s n)" "p = Queued \<and> aq_phase s n = Asking True \<or> p = Draining \<and> n \<in> set (aq_queue s)"
  shows "acq_inv (s\<lparr>aq_phase := (aq_phase s)(n := p)\<rparr>)"
proof -
  have lock: "aq_lock s = Some n" using acq_inv_lock [OF assms(1,2)] .
  have "acq_inv (s\<lparr>aq_lock := aq_lock s, aq_queue := aq_queue s, aq_phase := (aq_phase s)(n := p)\<rparr>)"
    by (rule acq_inv_change [OF assms(1)])
      (use assms lock acq_inv_future [OF assms(1), of n] in \<open>auto elim!: acq_inv_cases [OF assms(1)] simp: future_ok_def\<close>)
  then show ?thesis by simp
qed

lemma primary_queues: "primary_reply waits raw = Inr None \<Longrightarrow> waits"
  by (auto simp: primary_reply_def bind_r_Inr_iff split: if_splits)

lemma acq_inv_news:
  assumes "acq_inv s" "aq_lock s = Some n" "aq_queue s = [n]" "f \<noteq> Unset"
  shows "acq_inv (s\<lparr>aq_queue := [], aq_futs := (aq_futs s)(n := f)\<rparr>)"
proof -
  have "inside (aq_phase s n)" using assms by (simp add: acq_inv_def)
  then have "future_ok (s\<lparr>aq_queue := [], aq_futs := (aq_futs s)(n := f)\<rparr>) m" for m
    using acq_inv_future [OF assms(1), of m] assms(3,4)
    by (cases "m = n") (auto simp: future_ok_def split: aphase.splits)
  then show ?thesis using assms by (simp add: acq_inv_def)
qed

lemma acq_inv_step: "acq_step news s s' \<Longrightarrow> acq_inv s \<Longrightarrow> acq_inv s'"
proof (induction rule: acq_step.induct)
  case (enter s n waits)
  have "future_ok (aq_enter n waits s) m" for m
    using acq_inv_future [OF enter(2), of m] acq_inv_future [OF enter(2), of n] enter(1)
    by (cases "m = n") (auto simp: future_ok_def aq_enter_def split: aphase.splits)
  moreover have "aq_lock s \<noteq> Some n" using enter by (intro acq_inv_out) simp_all
  ultimately show ?case using enter by (auto simp: acq_inv_def aq_enter_def)
next
  case (take_lock s n waits)
  have "aq_queue s = []" using acq_inv_unlocked take_lock by blast
  then show ?case unfolding aq_take_def using acq_inv_future [OF take_lock(3), of n] take_lock(1,2)
    by (intro acq_inv_change [OF take_lock(3)]) (auto simp: future_ok_def)
next
  case (answered s n waits raw)
  then have lock: "aq_lock s = Some n" by (intro acq_inv_lock) simp_all
  have "acq_inv (s\<lparr>aq_phase := (aq_phase s)(n := Queued)\<rparr>)" if "bind_r raw (primary_reply waits) = Inr None"
  proof (rule acq_inv_phase [OF answered(2)])
    show "inside (aq_phase s n)" using answered(1) by simp
    have waits using that primary_queues by (auto simp: bind_r_Inr_iff)
    then show "Queued = Queued \<and> aq_phase s n = Asking True \<or> Queued = Draining \<and> n \<in> set (aq_queue s)"
      using answered(1) by simp
  qed
  then show ?case using acq_inv_finish [OF answered(2) lock]
    by (auto simp: aq_answered_def split: sum.split option.split)
next
  case (woken s n)
  then have lock: "aq_lock s = Some n" by (intro acq_inv_lock) simp_all
  then show ?case using acq_inv_finish [OF woken(3) lock] woken(3) by (simp add: aq_woken_def split: afut.split)
next
  case (cancel s n w)
  show ?case
  proof (cases "aq_phase s n = Entering w")
    case True
    have "future_ok (aq_cancel n s) m" for m
      using acq_inv_future [OF cancel(2), of m] True
      by (cases "m = n") (auto simp: future_ok_def aq_cancel_def split: aphase.splits)
    moreover have "aq_lock s \<noteq> Some n" using True cancel by (intro acq_inv_out) simp_all
    ultimately show ?thesis using cancel True by (auto simp: aq_cancel_def acq_inv_def)
  next
    case False
    then have ins: "inside (aq_phase s n)" using cancel by auto
    then show ?thesis using acq_inv_phase [OF cancel(2) ins] acq_inv_finish [OF cancel(2) acq_inv_lock [OF cancel(2) ins]]
      by (auto simp: aq_cancel_def split: aphase.split)
  qed
next
  case (drained s n)
  then have lock: "aq_lock s = Some n" by (intro acq_inv_lock) simp_all
  have "aq_queue s = []" using drained acq_inv_cases [OF drained(3) lock] by metis
  then have "aq_drained n s =
      s\<lparr>aq_lock := None, aq_queue := [], aq_phase := (aq_phase s)(n := Ended (Inl CancelledError))\<rparr>"
    by (cases s) (simp add: aq_drained_def)
  moreover have "acq_inv (s\<lparr>aq_lock := None, aq_queue := [], aq_phase := (aq_phase s)(n := Ended (Inl CancelledError))\<rparr>)"
    by (rule acq_inv_change [OF drained(3)]) (simp_all add: lock future_ok_def)
  ultimately show ?case by simp
next
  case (push s raw)
  show ?case
  proof (cases "aq_queue s = []")
    case False
    then obtain n where n: "aq_queue s = [n]" "aq_futs s n = Unset" "aq_lock s = Some n"
      using push by (auto simp: acq_inv_def)
    show ?thesis using acq_inv_news [OF push(2) n(3,1), of "Reply raw"] n by (simp add: queued_reply_def)
  qed (use push in \<open>cases s; simp add: queued_reply_def\<close>)
next
  case (lost s)
  show ?case
  proof (cases "aq_queue s = []")
    case False
    then obtain n where n: "aq_queue s = [n]" "aq_futs s n = Unset" "aq_lock s = Some n"
      using lost by (auto simp: acq_inv_def)
    have "acq_disconnect s = s\<lparr>aq_queue := [], aq_futs := (aq_futs s)(n := Broken FitzConnectionError)\<rparr>"
      using n by (simp add: acq_disconnect_def) (simp add: fun_eq_iff)
    then show ?thesis using acq_inv_news [OF lost(2) n(3,1), of "Broken FitzConnectionError"] by simp
  qed (use lost in \<open>cases s; simp add: acq_disconnect_def\<close>)
qed

lemma acq_reach_inv: "acq_reach s \<Longrightarrow> acq_inv s"
  by (induction rule: acq_reach.induct) (auto intro: acq_inv_start acq_inv_step)

section \<open>A draining caller\<close>

lemma draining_stays:
  "acq_step False s s' \<Longrightarrow> acq_inv s \<Longrightarrow> aq_phase s n = Draining \<Longrightarrow> aq_futs s n = Unset \<Longrightarrow>
    aq_phase s' n = Draining \<and> aq_futs s' n = Unset"
proof (induction rule: acq_step.induct)
  case (answered s m waits raw)
  then have "m \<noteq> n" by auto
  then show ?case using answered
    by (auto simp: aq_answered_def aq_finish_def split: sum.split option.split)
next
  case (woken s m)
  then have "m \<noteq> n" by auto
  then show ?case using woken by (auto simp: aq_woken_def aq_finish_def split: afut.split)
next
  case (cancel s m w)
  then have "m \<noteq> n" by auto
  then show ?case using cancel by (auto simp: aq_cancel_def aq_finish_def split: aphase.split)
qed (auto simp: aq_enter_def aq_take_def aq_drained_def)

section \<open>Properties\<close>

text \<open>
  C35. At most one acquisition of a lease client is between its request and its answer, and a
  message of the broker to queued callers settles only the future of that acquisition.
\<close>

lemma acquire_exclusive:
  assumes "acq_reach s"
  shows "(inside (aq_phase s n) \<longrightarrow> inside (aq_phase s m) \<longrightarrow> n = m) \<and>
    (aq_futs (queued_reply raw s) n \<noteq> aq_futs s n \<longrightarrow> inside (aq_phase s n) \<and> aq_futs s n = Unset)"
proof -
  have inv: "acq_inv s" by (rule acq_reach_inv [OF assms])
  have "aq_futs (queued_reply raw s) n = aq_futs s n" if "aq_queue s \<noteq> [n] \<or> aq_futs s n \<noteq> Unset"
    using inv that by (auto simp: acq_inv_def queued_reply_def)
  then show ?thesis using inv by (auto simp: acq_inv_def)
qed

text \<open>
  C40. An acquisition that is willing to wait and is cancelled before its answer keeps all others
  out until the broker sends a message to queued callers or the connection is lost.
\<close>

lemma cancelled_acquire_blocks:
  assumes "acq_reach s" "aq_phase s n = Asking True" "aq_futs s n = Unset" "(acq_step False)\<^sup>*\<^sup>* (aq_cancel n s) s'"
    and "m \<noteq> n"
  shows "aq_lock s' = Some n \<and> \<not> inside (aq_phase s' m)"
proof -
  have inv: "acq_inv s" by (rule acq_reach_inv [OF assms(1)])
  have c: "aq_phase (aq_cancel n s) n = Draining \<and> aq_futs (aq_cancel n s) n = Unset"
    using acq_inv_future [OF inv, of n] assms(2,3) by (simp add: aq_cancel_def future_ok_def)
  have "acq_inv (aq_cancel n s)"
    using acq_inv_step [OF acq_step.cancel inv, of n True] assms(2) by simp
  with c have "acq_inv (aq_cancel n s) \<and> aq_phase (aq_cancel n s) n = Draining \<and> aq_futs (aq_cancel n s) n = Unset"
    by simp
  with assms(4) have "acq_inv s' \<and> aq_phase s' n = Draining \<and> aq_futs s' n = Unset"
    by (induction rule: rtranclp_induct) (use draining_stays acq_inv_step in blast)+
  then show ?thesis using assms(5) by (auto simp: acq_inv_def)
qed

text \<open>A caller that waits for the lock while another one is asking, and a cancelled one.\<close>

definition two_callers :: acq_sys where
  "two_callers = aq_enter 1 True (aq_take 0 True (aq_enter 0 True new_acq))"

lemma two_callers: "acq_reach two_callers" "aq_phase two_callers 0 = Asking True" "aq_futs two_callers 0 = Unset"
    "aq_phase two_callers 1 = Entering True"
proof -
  have "acq_step True new_acq (aq_enter 0 True new_acq)" by (rule acq_step.enter) (simp add: new_acq_def)
  moreover have "acq_step True (aq_enter 0 True new_acq) (aq_take 0 True (aq_enter 0 True new_acq))"
    by (rule acq_step.take_lock) (simp_all add: new_acq_def aq_enter_def)
  moreover have "acq_step True (aq_take 0 True (aq_enter 0 True new_acq)) two_callers"
    unfolding two_callers_def by (rule acq_step.enter) (simp add: new_acq_def aq_enter_def aq_take_def)
  ultimately show "acq_reach two_callers" by (meson acq_reach.intros)
qed (simp_all add: two_callers_def aq_enter_def aq_take_def new_acq_def)

lemma acquire_exclusive_witness:
  "\<not> inside (aq_phase two_callers 1) \<and> aq_futs (queued_reply [7] two_callers) 0 = Reply [7] \<and>
   aq_futs (queued_reply [7] two_callers) 1 = Unset"
  using acquire_exclusive [OF two_callers(1), of 1 0 "[7]"] acquire_exclusive [OF two_callers(1), of 0 0 "[7]"]
  by (simp add: two_callers) (simp add: two_callers_def aq_enter_def aq_take_def new_acq_def queued_reply_def)

lemma cancelled_acquire_blocks_witness:
  "aq_phase (aq_cancel 0 two_callers) 0 = Draining \<and> aq_lock (aq_cancel 1 (aq_cancel 0 two_callers)) = Some 0"
proof -
  have "acq_step False (aq_cancel 0 two_callers) (aq_cancel 1 (aq_cancel 0 two_callers))"
    by (rule acq_step.cancel [where w = True]) (simp add: two_callers aq_cancel_def, simp add: two_callers_def aq_enter_def aq_take_def new_acq_def)
  then show ?thesis
    using cancelled_acquire_blocks [OF two_callers(1-3), of _ 1] by (auto simp: aq_cancel_def two_callers_def aq_enter_def aq_take_def new_acq_def)
qed

end
