(* ===== verification/Lease_Observer.thy ===== *)
theory Lease_Observer
  imports Lease
begin

text \<open>
  \<open>LeaseInventoryObserver\<close>: a view of the leases of a selector, built by complete LIST passes and
  invalidated by notifications, failures of its subscription and reconnects. The bodies under the
  observer's lock do not suspend, so each of them is one step. \<open>ob_seen\<close> records, for the proofs
  only, the two counters at the start of the pass that built the view.
\<close>

section \<open>State\<close>

datatype change = Whole_view | Changes_closed

text \<open>
  The bootstrap task: not started, ended, waiting for \<open>_invalidate\<close>, then for the subscription,
  listing (with the number of raced passes and the two counters it started from), in the sleep
  after a raced pass, in the sleep after a failed one. \<open>ob_attempt\<close> counts the failed ones in a row.
\<close>

datatype boot = Boot_new | Boot_off | Boot_idle | Boot_armed | Boot_listing nat nat nat | Boot_backing nat | Boot_resting

datatype consumer = Consumer_off | Reading | Replacing

record observer =
  ob_view :: "ustr \<Rightarrow> lease_item option"
  ob_ready :: bool
  ob_closed :: bool
  ob_buffering :: bool
  ob_buffer :: "ustr list"
  ob_notes :: nat
  ob_sub_ready :: bool
  ob_sub_gen :: nat
  ob_invalid :: bool
  ob_changes :: "change list"
  ob_capacity :: nat
  ob_error :: "exn option"
  ob_reports :: "exn list"
  ob_boot :: boot
  ob_attempt :: nat
  ob_consumer :: consumer
  ob_seen :: "(nat \<times> nat) option"

definition new_observer :: "int \<Rightarrow> observer" where
  "new_observer changes_maxsize = \<lparr>ob_view = Map.empty, ob_ready = False, ob_closed = False,
     ob_buffering = True, ob_buffer = [], ob_notes = 0, ob_sub_ready = False, ob_sub_gen = 0,
     ob_invalid = True, ob_changes = [], ob_capacity = nat (max 1 changes_maxsize), ob_error = None,
     ob_reports = [], ob_boot = Boot_new, ob_attempt = 0, ob_consumer = Consumer_off, ob_seen = None\<rparr>"

definition degraded :: "observer \<Rightarrow> bool" where
  "degraded ob \<longleftrightarrow> ob_error ob \<noteq> None"

section \<open>The change stream\<close>

text \<open>\<open>_enqueue_change\<close>: while the queue is full its oldest entry is dropped.\<close>

fun enqueue_change :: "nat \<Rightarrow> change \<Rightarrow> change list \<Rightarrow> change list" where
  "enqueue_change cap x [] = [x]"
| "enqueue_change cap x (y # q) =
     (if length (y # q) < cap then y # q @ [x] else enqueue_change cap x q)"

definition put_change :: "change \<Rightarrow> observer \<Rightarrow> observer" where
  "put_change x ob = ob\<lparr>ob_changes := enqueue_change (ob_capacity ob) x (ob_changes ob)\<rparr>"

lemma enqueue_change_length: "length (enqueue_change cap x q) \<le> max 1 (max cap (length q))"
  by (induction cap x q rule: enqueue_change.induct) auto

lemma enqueue_change_bounded: "1 \<le> cap \<Longrightarrow> length q \<le> cap \<Longrightarrow> length (enqueue_change cap x q) \<le> cap"
  using enqueue_change_length [of cap x q] by simp

text \<open>The newest entries are kept.\<close>

lemma enqueue_change_suffix: "\<exists>k. enqueue_change cap x q = drop k q @ [x]"
proof (induction cap x q rule: enqueue_change.induct)
  case (2 cap x y q)
  show ?case
  proof (cases "length (y # q) < cap")
    case True
    then show ?thesis by (intro exI [of _ 0]) simp
  next
    case False
    then obtain k where "enqueue_change cap x q = drop k q @ [x]" using 2 by blast
    then show ?thesis using False by (intro exI [of _ "Suc k"]) simp
  qed
qed simp

section \<open>Backoff\<close>

definition bootstrap_backoff :: "nat \<Rightarrow> rat \<Rightarrow> rat" where
  "bootstrap_backoff attempt random =
     max (5 / 100) (min 2 (5 / 100 * 2 ^ min attempt 10) * (1 / 2 + random * (1 / 2)))"

lemma bootstrap_backoff_bounds:
  assumes "0 \<le> random" "random \<le> 1"
  shows "5 / 100 \<le> bootstrap_backoff attempt random \<and> bootstrap_backoff attempt random \<le> 2"
proof -
  let ?cap = "min 2 (5 / 100 * 2 ^ min attempt 10) :: rat"
  have "?cap * (1 / 2 + random * (1 / 2)) \<le> 2 * 1"
    by (rule mult_mono) (use assms in auto)
  then show ?thesis by (simp add: bootstrap_backoff_def)
qed

text \<open>The sleep of \<open>_reconcile_loop\<close> and the checks of \<open>observe\<close>.\<close>

definition reconcile_sleep :: "rat \<Rightarrow> rat \<Rightarrow> rat \<Rightarrow> rat" where
  "reconcile_sleep interval jitter random = interval * ((1 - jitter) + random * 2 * jitter)"

definition observe_args :: "ustr \<Rightarrow> rat \<Rightarrow> rat \<Rightarrow> exn + unit" where
  "observe_args pat interval jitter =
     bind_r (lease_pattern pat) (\<lambda>_. bind_r (guard_r (\<not> interval \<le> 0) PyValueError) (\<lambda>_.
     guard_r (0 \<le> jitter \<and> jitter < 1) PyValueError))"

lemma reconcile_sleep_bounds:
  assumes "observe_args pat interval jitter = Inr ()" "0 \<le> random" "random \<le> 1"
  shows "interval * (1 - jitter) \<le> reconcile_sleep interval jitter random \<and>
    reconcile_sleep interval jitter random \<le> interval * (1 + jitter)"
proof -
  have i: "0 < interval" and j: "0 \<le> jitter"
    using assms(1) by (cases "lease_pattern pat"; auto simp: observe_args_def guard_r_def split: if_splits)+
  have "random * 2 * jitter \<le> 1 * 2 * jitter" using j assms(3) by (intro mult_right_mono) auto
  moreover have "0 \<le> random * 2 * jitter" using j assms(2) by simp
  ultimately show ?thesis unfolding reconcile_sleep_def
    by (intro conjI mult_left_mono) (use i in auto)
qed

section \<open>Notifications and the subscription\<close>

text \<open>\<open>report_restore_failure\<close>\<close>

definition report :: "exn \<Rightarrow> observer \<Rightarrow> observer" where
  "report e ob = ob\<lparr>ob_reports := ob_reports ob @ [e]\<rparr>"

definition note_notification :: "observer \<Rightarrow> observer" where
  "note_notification ob =
     (let ob = ob\<lparr>ob_notes := Suc (ob_notes ob)\<rparr>
      in if ob_buffering ob then ob else ob\<lparr>ob_ready := False, ob_invalid := True\<rparr>)"

definition note_failure :: "exn \<Rightarrow> observer \<Rightarrow> observer" where
  "note_failure e ob =
     report e (ob\<lparr>ob_sub_gen := Suc (ob_sub_gen ob), ob_sub_ready := False, ob_ready := False,
       ob_buffering := True, ob_buffer := [], ob_invalid := True\<rparr>)"

definition handle_reconnect :: "observer \<Rightarrow> observer" where
  "handle_reconnect ob =
     ob\<lparr>ob_ready := False, ob_buffering := True, ob_buffer := [], ob_sub_gen := Suc (ob_sub_gen ob),
        ob_invalid := True\<rparr>"

text \<open>\<open>_start\<close>, once the subscription is acknowledged.\<close>

definition observer_started :: "observer \<Rightarrow> observer" where
  "observer_started ob =
     ob\<lparr>ob_sub_gen := Suc (ob_sub_gen ob), ob_sub_ready := True, ob_boot := Boot_idle, ob_consumer := Reading\<rparr>"

text \<open>\<open>_consume\<close>: one route, the end of the subscription by an exception or cleanly, a new one.\<close>

definition consume_route :: "ustr \<Rightarrow> observer \<Rightarrow> observer" where
  "consume_route route ob =
     (if ob_buffering ob then ob\<lparr>ob_buffer := ob_buffer ob @ [route]\<rparr>
      else ob\<lparr>ob_ready := False, ob_invalid := True\<rparr>)"

definition consume_raised :: "exn \<Rightarrow> observer \<Rightarrow> observer" where
  "consume_raised e ob =
     (if ob_sub_ready ob then note_failure e ob else ob)\<lparr>ob_consumer := Replacing\<rparr>"

definition consume_finished :: "observer \<Rightarrow> observer" where
  "consume_finished ob = ob\<lparr>ob_sub_ready := False, ob_ready := False, ob_consumer := Consumer_off\<rparr>"

definition subscription_replaced :: "observer \<Rightarrow> observer" where
  "subscription_replaced ob =
     ob\<lparr>ob_sub_gen := Suc (ob_sub_gen ob), ob_sub_ready := True, ob_invalid := True, ob_consumer := Reading\<rparr>"

section \<open>Bootstrap and reconciliation\<close>

definition boot_wake :: "observer \<Rightarrow> observer" where
  "boot_wake ob =
     (if ob_closed ob then ob\<lparr>ob_boot := Boot_off\<rparr> else ob\<lparr>ob_invalid := False, ob_boot := Boot_armed\<rparr>)"

definition begin_pass :: "nat \<Rightarrow> observer \<Rightarrow> observer" where
  "begin_pass k ob = ob\<lparr>ob_boot := Boot_listing k (ob_notes ob) (ob_sub_gen ob)\<rparr>"

definition boot_begin :: "observer \<Rightarrow> observer" where
  "boot_begin ob = begin_pass 0 (ob\<lparr>ob_invalid := False, ob_buffering := True, ob_buffer := []\<rparr>)"

text \<open>A complete LIST: \<open>raced\<close>, or the view is installed.\<close>

definition raced :: "nat \<Rightarrow> nat \<Rightarrow> observer \<Rightarrow> bool" where
  "raced notes gen ob \<longleftrightarrow>
     ob_buffer ob \<noteq> [] \<or> ob_notes ob \<noteq> notes \<or> \<not> ob_sub_ready ob \<or> ob_sub_gen ob \<noteq> gen"

definition pass_listed :: "(ustr \<Rightarrow> lease_item option) \<Rightarrow> nat \<Rightarrow> nat \<Rightarrow> nat \<Rightarrow> observer \<Rightarrow> observer" where
  "pass_listed view k notes gen ob =
     (if raced notes gen ob then ob\<lparr>ob_buffer := [], ob_boot := Boot_backing (Suc k)\<rparr>
      else put_change Whole_view (ob\<lparr>ob_view := view, ob_buffering := False, ob_buffer := [],
        ob_ready := True, ob_boot := Boot_idle, ob_attempt := 0, ob_seen := Some (notes, gen)\<rparr>))"

definition pass_failed :: "exn \<Rightarrow> observer \<Rightarrow> observer" where
  "pass_failed e ob = report e (ob\<lparr>ob_ready := False, ob_boot := Boot_resting, ob_attempt := Suc (ob_attempt ob)\<rparr>)"

definition boot_rested :: "observer \<Rightarrow> observer" where
  "boot_rested ob = ob\<lparr>ob_invalid := True, ob_boot := Boot_idle\<rparr>"

definition reconcile_tick :: "observer \<Rightarrow> observer" where
  "reconcile_tick ob = (if ob_closed ob then ob else ob\<lparr>ob_ready := False, ob_invalid := True\<rparr>)"

text \<open>\<open>_task_done\<close> for a task that failed.\<close>

definition task_failed :: "exn \<Rightarrow> observer \<Rightarrow> observer" where
  "task_failed e ob = report e (ob\<lparr>ob_error := (case ob_error ob of None \<Rightarrow> Some e | Some e' \<Rightarrow> Some e')\<rparr>)"

definition observer_close :: "observer \<Rightarrow> observer" where
  "observer_close ob =
     (if ob_closed ob then ob
      else put_change Changes_closed
        (ob\<lparr>ob_closed := True, ob_invalid := True, ob_boot := Boot_off, ob_consumer := Consumer_off\<rparr>))"

section \<open>Steps\<close>

inductive obs_step :: "observer \<Rightarrow> observer \<Rightarrow> bool" where
  started: "ob_boot ob = Boot_new \<Longrightarrow> obs_step ob (observer_started ob)"
| notified: "obs_step ob (note_notification ob)"
| failed: "obs_step ob (note_failure e ob)"
| reconnected: "obs_step ob (handle_reconnect ob)"
| consumed: "ob_consumer ob = Reading \<Longrightarrow> obs_step ob (consume_route r ob)"
| consumer_raised: "ob_consumer ob = Reading \<Longrightarrow> obs_step ob (consume_raised e ob)"
| consumer_finished: "ob_consumer ob = Reading \<Longrightarrow> obs_step ob (consume_finished ob)"
| replaced: "ob_consumer ob = Replacing \<Longrightarrow> obs_step ob (subscription_replaced ob)"
| wake: "ob_boot ob = Boot_idle \<Longrightarrow> ob_invalid ob \<Longrightarrow> obs_step ob (boot_wake ob)"
| armed: "ob_boot ob = Boot_armed \<Longrightarrow> ob_sub_ready ob \<Longrightarrow> obs_step ob (boot_begin ob)"
| listed: "ob_boot ob = Boot_listing k notes gen \<Longrightarrow> obs_step ob (pass_listed view k notes gen ob)"
| list_failed: "ob_boot ob = Boot_listing k notes gen \<Longrightarrow> obs_step ob (pass_failed e ob)"
| backed: "ob_boot ob = Boot_backing k \<Longrightarrow> ob_sub_ready ob \<Longrightarrow> obs_step ob (begin_pass k ob)"
| rested: "ob_boot ob = Boot_resting \<Longrightarrow> obs_step ob (boot_rested ob)"
| tick: "obs_step ob (reconcile_tick ob)"
| boot_died: "ob_boot ob \<in> {Boot_backing k, Boot_resting} \<Longrightarrow> obs_step ob (task_failed e (ob\<lparr>ob_boot := Boot_off\<rparr>))"
| consumer_died: "ob_consumer ob = Replacing \<Longrightarrow> obs_step ob (task_failed e (ob\<lparr>ob_consumer := Consumer_off\<rparr>))"
| reconcile_died: "obs_step ob (task_failed e ob)"
| closed_: "obs_step ob (observer_close ob)"

inductive obs_reach :: "int \<Rightarrow> observer \<Rightarrow> bool" for cap :: int where
  start: "obs_reach cap (new_observer cap)"
| step: "obs_reach cap ob \<Longrightarrow> obs_step ob ob' \<Longrightarrow> obs_reach cap ob'"

section \<open>The invariant\<close>

definition obs_inv :: "observer \<Rightarrow> bool" where
  "obs_inv ob \<longleftrightarrow>
     (ob_ready ob \<longrightarrow> (\<exists>n. ob_seen ob = Some (n, ob_sub_gen ob) \<and> ob_sub_ready ob \<and>
        (\<not> ob_buffering ob \<longrightarrow> ob_notes ob = n))) \<and>
     (ob_consumer ob = Replacing \<longrightarrow> \<not> ob_sub_ready ob) \<and>
     (ob_boot ob = Boot_new \<longrightarrow> \<not> ob_ready ob \<and> ob_invalid ob \<and> ob_consumer ob = Consumer_off) \<and>
     (\<not> ob_closed ob \<and> ob_boot ob = Boot_idle \<longrightarrow>
        ob_ready ob \<or> ob_invalid ob \<or> ob_consumer ob = Consumer_off) \<and>
     1 \<le> ob_capacity ob \<and> length (ob_changes ob) \<le> ob_capacity ob"

lemmas obs_defs = note_notification_def note_failure_def report_def handle_reconnect_def observer_started_def
  consume_route_def consume_raised_def consume_finished_def subscription_replaced_def boot_wake_def
  begin_pass_def boot_begin_def raced_def pass_listed_def pass_failed_def boot_rested_def
  reconcile_tick_def task_failed_def observer_close_def put_change_def Let_def

lemma obs_inv_step: "obs_step ob ob' \<Longrightarrow> obs_inv ob \<Longrightarrow> obs_inv ob'"
  by (induction rule: obs_step.induct)
    (auto simp: obs_inv_def obs_defs intro: enqueue_change_bounded split: if_splits)

lemma obs_reach_inv: "obs_reach cap ob \<Longrightarrow> obs_inv ob"
proof (induction rule: obs_reach.induct)
  case start
  then show ?case by (simp add: obs_inv_def new_observer_def)
next
  case (step ob ob')
  then show ?case using obs_inv_step by blast
qed

section \<open>Properties\<close>


definition listing_run :: observer where
  "listing_run = boot_begin (boot_wake (observer_started (new_observer 256)))"

definition ready_run :: observer where
  "ready_run = pass_listed Map.empty 0 0 1 (reconcile_tick listing_run)"

lemma ready_run:
  "obs_reach 256 ready_run"
  "ready_run = put_change Whole_view (listing_run\<lparr>ob_view := Map.empty, ob_buffering := False, ob_buffer := [],
      ob_ready := True, ob_invalid := True, ob_boot := Boot_idle, ob_seen := Some (0, 1)\<rparr>)"
proof -
  have "obs_reach 256 listing_run" unfolding listing_run_def
    by (intro obs_reach.step [OF obs_reach.step [OF obs_reach.step [OF obs_reach.start obs_step.started]
          obs_step.wake] obs_step.armed]) (simp_all add: new_observer_def observer_started_def boot_wake_def)
  then show "obs_reach 256 ready_run" unfolding ready_run_def
    by (intro obs_reach.step [OF obs_reach.step [OF _ obs_step.tick] obs_step.listed])
      (simp_all add: listing_run_def obs_defs new_observer_def)
qed (simp add: ready_run_def listing_run_def obs_defs new_observer_def)


text \<open>
  A reachable observer is ready although a notification arrived after the LIST that built its
  view began.
\<close>

lemma observer_ready_stale:
  "\<exists>ob n. obs_reach 256 ob \<and> ob_ready ob \<and> ob_seen ob = Some (n, ob_sub_gen ob) \<and> n < ob_notes ob"
proof -
  let ?o = "note_notification (boot_begin (boot_wake ready_run))"
  have "obs_reach 256 ?o"
    by (intro obs_reach.step [OF obs_reach.step [OF obs_reach.step [OF ready_run(1) obs_step.wake] obs_step.armed] obs_step.notified])
      (simp_all add: ready_run(2) listing_run_def obs_defs new_observer_def)
  moreover have "ob_ready ?o" "ob_seen ?o = Some (0, ob_sub_gen ?o)" "0 < ob_notes ?o"
    by (simp_all add: ready_run(2) listing_run_def obs_defs new_observer_def)
  ultimately show ?thesis by blast
qed

end
