(* ===== verification/Lease_Proofs.thy ===== *)
theory Lease_Proofs
  imports Lease Codec
begin

text \<open>
  What the lease client guarantees: the frames and the single release of a lease and its fencing
  tokens, what a managed lease reports when it ends, and that listings are read back as the broker
  wrote them.
\<close>

section \<open>The life of a lease\<close>

datatype 's lease_op = Extend rat py_num | Release | Wait "'s \<Rightarrow> 's"

fun lease_step :: "'s link \<Rightarrow> 's lease_op \<Rightarrow> lease \<times> 's \<times> sent \<Rightarrow> exn option \<times> lease \<times> 's \<times> sent" where
  "lease_step lk (Extend now ttl) st = outcome (lease_extend (traced lk) now ttl st)"
| "lease_step lk Release st = outcome (lease_release (traced lk) st)"
| "lease_step lk (Wait f) (h, s, l) = (None, h, f s, l)"

definition lease_same :: "lease \<Rightarrow> lease \<Rightarrow> bool" where
  "lease_same h h' \<longleftrightarrow> ls_route h' = ls_route h \<and> ls_owner h' = ls_owner h \<and> ls_generation h' = ls_generation h"

definition of_lease :: "lease \<Rightarrow> int \<times> int \<times> bytes \<Rightarrow> bool" where
  "of_lease h f \<longleftrightarrow> fst f = ls_generation h \<and>
     (\<exists>pre rest. build_payload [Route (ls_route h), Route (ls_owner h)] = Inr pre \<and> snd (snd f) = pre @ rest)"

abbreviation lease_moves :: "lease \<times> 's \<times> sent \<Rightarrow> lease \<times> 's \<times> sent \<Rightarrow> bool" where
  "lease_moves \<equiv> handle_moves lease_same of_lease ls_released (\<lambda>_. False)"

interpretation held: handle lease_same of_lease ls_released "\<lambda>_. False" "\<lambda>h. h"
  by unfold_locales (auto simp: lease_same_def of_lease_def)

lemma lease_fields_prefix:
  assumes "build_payload (lease_fields h ops) = Inr p"
  shows "\<exists>pre rest. build_payload [Route (ls_route h), Route (ls_owner h)] = Inr pre \<and> p = pre @ rest"
  using assms by (auto simp: build_payload_spec lease_fields_def bind_r_Inr_iff)

lemma lease_guarded_ask:
  fixes lk :: "'s link" and guard :: "(lease \<times> 's \<times> sent, 'u) io"
  assumes "\<And>h s r st. guard (h, s) = (r, st) \<Longrightarrow> st = (h, s) \<and>
    ((\<exists>e. r = Inl e) \<or> \<not> ls_released h \<and> lk_generation (traced lk) s = ls_generation h)"
  shows "moves lease_moves (io_bind guard (\<lambda>u. lease_ask (traced lk) mt (ops u) reply))"
proof -
  have "case guard (h, s) of (Inl e, st) \<Rightarrow> st = (h, s)
      | (Inr u, st) \<Rightarrow> st = (h, s) \<and> \<not> ls_released h \<and>
         (\<forall>p. build_payload (lease_fields h (ops u)) = Inr p \<longrightarrow>
            of_lease h (lk_generation (traced lk) s, mt, p) \<and> \<not> False)" for h s
    using assms [of h s] lease_fields_prefix
    by (fastforce simp: of_lease_def split: prod.split sum.split)
  then show ?thesis unfolding lease_ask_def by (rule held.handle_guarded_ask)
qed

lemma lease_moves_modify:
  assumes "\<And>h. lease_same h (f h)" "\<And>h. ls_released h \<Longrightarrow> ls_released (f h)"
  shows "moves lease_moves (io_modify (apfst f))"
  using assms by (auto simp: moves_def handle_moves_def)

text \<open>A continuation may still use what the guard returned.\<close>

lemma moves_bind_keep:
  assumes "transp R" "moves R (io_bind g a)" "\<And>u x. moves R (k u x)"
  shows "moves R (io_bind g (\<lambda>u. io_bind (a u) (k u)))"
  unfolding moves_def
proof
  fix s
  have ga: "R s (snd (io_bind g a s))" by (rule moves_D [OF assms(2)])
  obtain r s' where g: "g s = (r, s')" by fastforce
  show "R s (snd (io_bind g (\<lambda>u. io_bind (a u) (k u)) s))"
  proof (cases r)
    case (Inr u)
    obtain x s'' where a: "a u s' = (x, s'')" by fastforce
    have "R s s''" using ga g a Inr by (simp add: io_bind_def)
    moreover have "R s'' (snd (k u y s''))" for y by (rule moves_D [OF assms(3)])
    ultimately show ?thesis using g a Inr transpD [OF assms(1)]
      by (cases x) (auto simp: io_bind_def)
  qed (use ga g in \<open>simp add: io_bind_def\<close>)
qed

lemma lease_moves_extend: "moves lease_moves (lease_extend (traced lk) now ttl)"
proof -
  let ?guard = "io_then (lease_valid (traced lk)) (io_lift (lease_duration ttl True))"
  have "moves lease_moves (io_bind ?guard (\<lambda>t. io_bind (lease_ask (traced lk) MSG_LEASE_EXTEND [U64 t] extend_reply)
      (\<lambda>token. io_then (io_modify (apfst (\<lambda>h. h\<lparr>ls_token := token\<rparr>)))
         (io_bind (io_lift (expiry now t)) (\<lambda>e. io_modify (apfst (\<lambda>h. h\<lparr>ls_expires := e\<rparr>)))))))"
    by (intro moves_bind_keep held.handle_preorder lease_guarded_ask held.handle_bind lease_moves_modify held.handle_still)
      (auto simp: lease_valid_def io_bind_def lease_same_def split: if_splits)
  then show ?thesis by (simp only: lease_extend_def extend_request_def io_bind_assoc io_return_bind prod.case)
qed

lemma lease_moves_release: "moves lease_moves (lease_release (traced lk))"
  unfolding lease_release_def release_request_def
  by (intro held.handle_bind lease_moves_modify lease_guarded_ask)
    (auto simp: lease_valid_def lease_same_def split: if_splits)

lemma lease_moves_step: "lease_moves st (snd (lease_step lk x st))"
proof (cases x)
  case (Wait f)
  obtain h s l where "st = (h, s, l)" by (metis prod_cases3)
  then show ?thesis using Wait by (simp add: handle_moves_def held.same_refl)
qed (simp_all add: lease_moves_extend [THEN moves_D] lease_moves_release [THEN moves_D])

fun releasing :: "'s lease_op \<Rightarrow> bool" where
  "releasing Release = True"
| "releasing _ = False"

lemma released_refuses:
  "ls_released h \<Longrightarrow> releasing x \<Longrightarrow> lease_step lk x (h, s, l) = (Some StaleHandleError, h, s, l)"
  by (cases x) (simp_all add: lease_release_def release_request_def lease_valid_def io_bind_def outcome_def)

lemma release_closes:
  "releasing x \<Longrightarrow> fst (lease_step lk x st) = None \<Longrightarrow> ls_released (fst (snd (lease_step lk x st)))"
  by (cases x) (auto simp: outcome_def lease_release_def release_request_def io_bind_def split: sum.splits prod.splits)

lemma stays_released: "ls_released (fst st) \<Longrightarrow> ls_released (fst (snd (lease_step lk x st)))"
  using lease_moves_step [of st lk x] by (auto simp: handle_moves_def split: prod.splits)

lemma released_once: "successes releasing xs (fst (exec_ops (lease_step lk) xs st)) \<le> 1"
proof (rule successes_once [where dead = "\<lambda>st. ls_released (fst st)"])
  fix x :: "'a lease_op" and st :: "lease \<times> 'a \<times> sent"
  obtain h s l where st: "st = (h, s, l)" by (metis prod_cases3)
  show "ls_released (fst st) \<Longrightarrow> releasing x \<Longrightarrow> fst (lease_step lk x st) \<noteq> None"
    using released_refuses [of h x lk s l] by (simp add: st)
  show "ls_released (fst st) \<Longrightarrow> ls_released (fst (snd (lease_step lk x st)))" by (rule stays_released)
  show "releasing x \<Longrightarrow> fst (lease_step lk x st) = None \<Longrightarrow> ls_released (fst (snd (lease_step lk x st)))"
    by (rule release_closes)
qed

section \<open>Fencing\<close>

lemma read_u64_whole: "0 \<le> v \<Longrightarrow> v < 18446744073709551616 \<Longrightarrow> run_reader read_u64_be (be_bytes 8 v) = Inr v"
  by (rule decodes_run [OF reads_decodes [OF reads_fields(4)]]) (simp add: build_payload_spec)

text \<open>
  A broker that grants a lease to its holder alone: it keeps the current fencing token, issues a
  new one at every extension and refuses requests with any other token.
\<close>

record fence =
  fn_route :: ustr
  fn_owner :: ustr
  fn_token :: int
  fn_held :: bool

definition presented :: "fence \<Rightarrow> bytes \<Rightarrow> bool" where
  "presented b p \<longleftrightarrow> fn_held b \<and>
     (case build_payload [Route (fn_route b), Route (fn_owner b), U64 (fn_token b)] of
        Inl _ \<Rightarrow> False | Inr pre \<Rightarrow> take (length pre) p = pre)"

definition fence_link :: "(int \<Rightarrow> int) \<Rightarrow> fence link" where
  "fence_link issue = \<lparr>
     lk_request = (\<lambda>mt p fl b.
       if \<not> presented b p then (Inl (bad LEASE ''FENCED''), b)
       else if mt = MSG_LEASE_EXTEND
       then (Inr (0 # be_bytes 8 (issue (fn_token b))), b\<lparr>fn_token := issue (fn_token b)\<rparr>)
       else (Inr [0], b\<lparr>fn_held := False\<rparr>)),
     lk_send = (\<lambda>mt p b. (Inr (), b)),
     lk_generation = (\<lambda>_. 1), lk_losses = (\<lambda>_. 0), lk_capabilities = (\<lambda>_. []),
     lk_retry = retry (default_config []), lk_jitter = (\<lambda>_. 1)\<rparr>"

text \<open>The holder's handle carries the token that the broker expects.\<close>

definition synced :: "lease \<Rightarrow> fence \<Rightarrow> bool" where
  "synced h b \<longleftrightarrow> fn_held b \<and> \<not> ls_released h \<and> ls_generation h = 1 \<and> fn_route b = ls_route h \<and>
     fn_owner b = ls_owner h \<and> fn_token b = ls_token h \<and> (\<exists>pre. build_payload (lease_fields h []) = Inr pre)"

lemma synced_presents:
  assumes "synced h b" "build_payload (lease_fields h ops) = Inr p"
  shows "presented b p"
proof -
  obtain pre where pre: "build_payload (lease_fields h []) = Inr pre" using assms(1) by (auto simp: synced_def)
  have "build_payload (lease_fields h [] @ ops) = Inr p" using assms(2) by (simp add: lease_fields_def)
  then obtain rest where "p = pre @ rest" using pre unfolding build_payload_append by auto
  then show ?thesis using assms(1) pre by (simp add: synced_def presented_def lease_fields_def)
qed

lemma synced_valid: "synced h b \<Longrightarrow> lease_valid (fence_link issue) (h, b) = (Inr (), (h, b))"
  by (simp add: synced_def lease_valid_def fence_link_def)

lemma extend_synced:
  assumes "synced h b" "\<forall>t. 0 \<le> issue t \<and> issue t < 2 ^ 64"
  shows "\<exists>h' b'. snd (lease_extend (fence_link issue) now ttl (h, b)) = (h', b') \<and> synced h' b'"
proof (cases "bind_r (lease_duration ttl True) (\<lambda>t. bind_r (build_payload (lease_fields h [U64 t])) (\<lambda>p. Inr (t, p)))")
  case (Inl e)
  then show ?thesis using assms(1) synced_valid [OF assms(1)]
    by (cases "lease_duration ttl True")
      (auto simp: lease_extend_def extend_request_def io_bind_def lease_ask_def ask_def bind_r_def split: sum.splits)
next
  case (Inr tp)
  then obtain t p where t: "lease_duration ttl True = Inr t" "build_payload (lease_fields h [U64 t]) = Inr p"
    by (auto simp: bind_r_Inr_iff)
  let ?v = "issue (fn_token b)"
  have v: "0 \<le> ?v" "?v < 18446744073709551616" using assms(2) by simp_all
  have "lk_request (fence_link issue) MSG_LEASE_EXTEND p 0 b = (Inr (0 # be_bytes 8 ?v), b\<lparr>fn_token := ?v\<rparr>)"
    using synced_presents [OF assms(1) t(2)] by (simp add: fence_link_def)
  moreover have "extend_reply (0 # be_bytes 8 ?v) = Inr ?v"
    using v by (simp add: extend_reply_def read_u64_whole)
  ultimately have r: "lease_ask (fence_link issue) MSG_LEASE_EXTEND [U64 t] extend_reply (h, b) =
      (Inr ?v, (h, b\<lparr>fn_token := ?v\<rparr>))"
    using t by (simp add: lease_ask_def ask_def io_bind_def hear_def)
  have "\<exists>pre. build_payload (lease_fields (h\<lparr>ls_token := ?v, ls_expires := e\<rparr>) []) = Inr pre" for e
    using t(2) v by (auto simp: build_payload_spec lease_fields_def bind_r_Inr_iff pack_Inr_iff)
  then have "synced (h\<lparr>ls_token := ?v, ls_expires := e\<rparr>) (b\<lparr>fn_token := ?v\<rparr>)" for e
    using assms(1) by (simp add: synced_def)
  moreover from this [of "ls_expires h"] have "synced (h\<lparr>ls_token := ?v\<rparr>) (b\<lparr>fn_token := ?v\<rparr>)" by simp
  ultimately show ?thesis using r t(1) synced_valid [OF assms(1)]
    by (cases "expiry now t") (auto simp: lease_extend_def extend_request_def io_bind_def)
qed

lemma release_synced:
  assumes "synced h b"
  shows "lease_release (fence_link issue) (h, b) = (Inr (), (h\<lparr>ls_released := True\<rparr>, b\<lparr>fn_held := False\<rparr>))"
proof -
  obtain pre where pre: "build_payload (lease_fields h []) = Inr pre" using assms by (auto simp: synced_def)
  then have "lk_request (fence_link issue) MSG_LEASE_RELEASE pre 0 b = (Inr [0], b\<lparr>fn_held := False\<rparr>)"
    using synced_presents [OF assms pre] by (simp add: fence_link_def)
  then show ?thesis using pre synced_valid [OF assms]
    by (simp add: lease_release_def release_request_def lease_ask_def ask_def io_bind_def hear_def)
qed

lemma renew_synced:
  assumes "\<forall>t. 0 \<le> issue t \<and> issue t < 2 ^ 64"
  shows "synced h b \<Longrightarrow> \<exists>lost h' b'. lease_renewals (fence_link issue) ttl clock (\<lambda>_ b. b) n (h, b) = (lost, h', b') \<and> synced h' b'"
proof (induction n arbitrary: h b)
  case (Suc n)
  obtain h' b' where e: "snd (lease_extend (fence_link issue) (clock n) (Py_int ttl) (h, b)) = (h', b')" "synced h' b'"
    using extend_synced [OF Suc.prems assms] by blast
  then show ?case using Suc.IH [OF e(2)]
    by (cases "lease_extend (fence_link issue) (clock n) (Py_int ttl) (h, b)") (auto split: sum.split)
qed simp

section \<open>Managed leases\<close>


definition demo_lease :: lease where
  "demo_lease = \<lparr>ls_route = lit ''lease://a/b/c'', ls_owner = lit ''me'', ls_token = 7, ls_expires = 0,
     ls_generation = 1, ls_released = False\<rparr>"

definition demo_fence :: fence where
  "demo_fence = \<lparr>fn_route = lit ''lease://a/b/c'', fn_owner = lit ''me'', fn_token = 7, fn_held = True\<rparr>"

lemma demo_synced: "synced demo_lease demo_fence"
  by (simp add: synced_def demo_lease_def demo_fence_def lease_fields_def build_payload_spec str_field_ascii
      lit_def pack_def)


section \<open>Listing\<close>

definition lease_item_ops :: "lease_item \<Rightarrow> wop list" where
  "lease_item_ops i = [Route (lt_route i), Str (lt_owner i), U64 (lt_incarnation i), Str (lt_acquired i),
     U64 (lt_expires i), U32 (lt_renewals i)]"

lemma read_item: "reads read_lease_item (lease_item_ops i) i"
  unfolding read_lease_item_def lease_item_ops_def by (cases i) (intro codec; simp)

text \<open>A page as the broker writes it is read back whole.\<close>

lemma list_page_roundtrip:
  assumes "build_payload ([U32 (int (length (lp_items page)))] @ concat (map lease_item_ops (lp_items page)) @
    cursor_fields (lp_cursor page)) = Inr bs"
  shows "list_page_reply (0 # bs) = Inr page"
proof -
  have cursor: "reads read_lease_cursor (cursor_fields c) c" for c
    unfolding read_lease_cursor_def cursor_fields_def
    by (cases c) (auto intro!: codec)
  have "decodes (rd_bind (rd_times (length (lp_items page)) read_lease_item) (\<lambda>items.
      rd_bind read_lease_cursor (\<lambda>cursor. rd_bind (expect_eof ill_formed) (\<lambda>_.
      rd_return \<lparr>lp_items = items, lp_cursor = cursor\<rparr>))))
      (concat (map lease_item_ops (lp_items page)) @ (cursor_fields (lp_cursor page) @ [])) page"
    by (intro decodes_bind [OF reads_times] decodes_bind [OF cursor] read_item) (auto intro!: codec)
  then have "decodes list_page_reader ([U32 (int (length (lp_items page)))] @ concat (map lease_item_ops (lp_items page)) @
      cursor_fields (lp_cursor page)) page"
    by (simp add: list_page_reader_def codec)
  then show ?thesis using decodes_run assms by (simp add: list_page_reply_def)
qed

end
