(* ===== verification/Rpc.thy ===== *)
theory Rpc
  imports Handles Routes Messages "HOL-Library.AList" "HOL-Library.Product_Lexorder"
begin

text \<open>
  \<open>domains/rpc.py\<close>, the parts without concurrency: routes and their matching, the payloads of
  requests, responses, budgets and errors, the writer of a worker's responses, and the table of
  registered workers. Calls are in \<open>Rpc_Calls\<close>, the invocations of workers in \<open>Rpc_Workers\<close>.
\<close>

section \<open>Routes\<close>

definition rpc_parts :: "ustr \<Rightarrow> ustr list" where
  "rpc_parts route = split_on SLASH (drop 6 route)"

definition rpc_route :: "ustr \<Rightarrow> bool \<Rightarrow> exn + unit" where
  "rpc_route route patterns =
     (if \<not> starts_with (lit ''rpc://'') route then Inl (bad RPC ''INVALID_ROUTE'')
      else let parts = rpc_parts route
      in if parts = [] \<or> list_ex (\<lambda>p. p = []) parts
            \<or> \<not> patterns \<and> list_ex (\<lambda>p. STAR \<in> set p) parts
            \<or> list_ex (\<lambda>p. STAR \<in> set p \<and> p \<noteq> star \<and> p \<noteq> dstar) parts
            \<or> dstar \<in> set parts \<and> last parts \<noteq> dstar
         then Inl (bad RPC ''INVALID_ROUTE'') else Inr ())"

text \<open>The loop of \<open>_matches\<close> over the pattern's segments.\<close>

fun match_parts :: "ustr list \<Rightarrow> ustr list \<Rightarrow> bool" where
  "match_parts rs [] = (rs = [])"
| "match_parts rs (p # ps) =
     (if p = dstar then True
      else case rs of [] \<Rightarrow> False | r # rs \<Rightarrow> (p = star \<or> p = r) \<and> match_parts rs ps)"

definition matches :: "ustr \<Rightarrow> ustr \<Rightarrow> bool" where
  "matches route pat = match_parts (rpc_parts route) (rpc_parts pat)"

definition specificity :: "ustr \<Rightarrow> int \<times> int \<times> int \<times> int" where
  "specificity pat =
     (let parts = rpc_parts pat in
      (int (length (filter (\<lambda>p. p \<noteq> star \<and> p \<noteq> dstar) parts)), int (length parts),
       - int (count_list parts dstar), - int (count_list parts star)))"

section \<open>Workers\<close>

record registration =
  rg_handler :: nat
  rg_max :: int
  rg_identity :: nat

type_synonym workers = "(ustr \<times> registration) list"

text \<open>\<open>max(..., key=...)\<close>: the first of the greatest.\<close>

fun first_max :: "('a \<Rightarrow> 'k::linorder) \<Rightarrow> 'a \<Rightarrow> 'a list \<Rightarrow> 'a" where
  "first_max key best [] = best"
| "first_max key best (x # xs) = first_max key (if key best < key x then x else best) xs"

definition best_worker :: "ustr \<Rightarrow> workers \<Rightarrow> registration option" where
  "best_worker route ws =
     (case filter (\<lambda>(pat, _). matches route pat) ws of
        [] \<Rightarrow> None
      | m # ms \<Rightarrow> Some (snd (first_max (\<lambda>(pat, _). specificity pat) m ms)))"

definition expect_empty_rpc :: "bytes \<Rightarrow> exn + unit" where
  "expect_empty_rpc = run_reader (rd_bind read_blob (\<lambda>body.
     if body \<noteq> [] then rd_raise (bad RPC ''INVALID_RESPONSE'')
     else expect_eof (bad RPC ''INVALID_RESPONSE'')))"

definition rpc_status :: "string \<Rightarrow> bytes \<Rightarrow> exn + unit" where
  "rpc_status op raw = bind_r (reply_data (mapped_failure RPC op) raw) expect_empty_rpc"

definition rpc_subscribe :: "'s link \<Rightarrow> ustr \<Rightarrow> int \<Rightarrow> ('s, unit) io" where
  "rpc_subscribe lk route n =
     ask lk MSG_RPC_SUBSCRIBE_WORKER (build_payload [Route route, U32 n, U8 1]) 0 (rpc_status ''SUBSCRIBE'')"

definition register_worker ::
  "'s link \<Rightarrow> ustr \<Rightarrow> nat \<Rightarrow> int \<Rightarrow> nat \<Rightarrow> workers \<Rightarrow> 's \<Rightarrow> ((exn + nat) \<times> workers) \<times> 's" where
  "register_worker lk route handler n identity ws s =
     (case rpc_route route True of
        Inl e \<Rightarrow> ((Inl e, ws), s)
      | Inr _ \<Rightarrow>
          if \<not> (1 \<le> n \<and> n \<le> 1024) then ((Inl PyValueError, ws), s)
          else case rpc_subscribe lk route n s of
            (Inl e, s') \<Rightarrow> ((Inl e, ws), s')
          | (Inr _, s') \<Rightarrow> ((Inr identity,
              AList.update route \<lparr>rg_handler = handler, rg_max = n, rg_identity = identity\<rparr> ws), s'))"

definition unregister_worker ::
  "'s link \<Rightarrow> ustr \<Rightarrow> nat \<Rightarrow> workers \<Rightarrow> 's \<Rightarrow> ((exn + unit) \<times> workers) \<times> 's" where
  "unregister_worker lk route identity ws s =
     (case map_of ws route of
        None \<Rightarrow> ((Inr (), ws), s)
      | Some r \<Rightarrow>
          if rg_identity r \<noteq> identity then ((Inr (), ws), s)
          else case ask lk MSG_RPC_UNSUBSCRIBE_WORKER (build_payload [Route route]) 0 (rpc_status ''UNSUBSCRIBE'') s of
            (Inl e, s') \<Rightarrow> ((Inl e, ws), s')
          | (Inr _, s') \<Rightarrow> ((Inr (), AList.delete route ws), s'))"

text \<open>
  \<open>_restore\<close>: over a copy of the table; \<open>reports\<close> are the failures it reported. A cancellation
  ends the loop.
\<close>

fun restore_workers ::
  "'s link \<Rightarrow> workers \<Rightarrow> workers \<Rightarrow> (ustr \<times> exn) list \<Rightarrow> 's \<Rightarrow> (exn option \<times> workers \<times> (ustr \<times> exn) list) \<times> 's" where
  "restore_workers lk [] ws reports s = ((None, ws, reports), s)"
| "restore_workers lk ((route, r) # todo) ws reports s =
     (if map_of ws route \<noteq> Some r then restore_workers lk todo ws reports s
      else case rpc_subscribe lk route (rg_max r) s of
        (Inr _, s') \<Rightarrow> restore_workers lk todo ws reports s'
      | (Inl e, s') \<Rightarrow>
          if e = CancelledError then ((Some e, ws, reports), s')
          else restore_workers lk todo (AList.delete route ws) (reports @ [(route, e)]) s')"

section \<open>Budgets and requests\<close>

definition MAX_RPC_BUDGET_MS :: int where [simp]: "MAX_RPC_BUDGET_MS = 86400000"

text \<open>Python's \<open>int\<close> of a number: towards zero.\<close>

definition py_int :: "rat \<Rightarrow> int" where
  "py_int x = (if 0 \<le> x then \<lfloor>x\<rfloor> else \<lceil>x\<rceil>)"

definition check_timeout :: "rat option \<Rightarrow> exn + unit" where
  "check_timeout t =
     (case t of
        None \<Rightarrow> Inr ()
      | Some x \<Rightarrow> guard_r (0 < x \<and> x * 1000 \<le> of_int MAX_RPC_BUDGET_MS) PyValueError)"

definition remaining_budget :: "rat option \<Rightarrow> rat \<Rightarrow> int option" where
  "remaining_budget deadline now =
     map_option (\<lambda>d. max 0 (min MAX_RPC_BUDGET_MS (py_int ((d - now) * 1000)))) deadline"

definition remaining_time_ms :: "rat option \<Rightarrow> rat \<Rightarrow> int option" where
  "remaining_time_ms deadline now = map_option (\<lambda>d. max 0 (py_int ((d - now) * 1000))) deadline"

definition budget_fields :: "int option \<Rightarrow> exn + wop list" where
  "budget_fields b =
     (case b of
        None \<Rightarrow> Inr [U8 0]
      | Some ms \<Rightarrow> if 0 \<le> ms \<and> ms \<le> MAX_RPC_BUDGET_MS then Inr [U8 1, U32 ms] else Inl PyValueError)"

definition request_payload :: "bytes \<Rightarrow> ustr \<Rightarrow> bytes \<Rightarrow> int option \<Rightarrow> exn + bytes" where
  "request_payload key route body budget =
     bind_r (budget_fields budget) (\<lambda>b.
       build_payload ([Raw key, Route route, U32 (int (length body)), Raw body] @ b))"

definition read_budget :: "int option rd" where
  "read_budget =
     rd_bind (rd_get is_eof) (\<lambda>eof.
     if eof then rd_raise (bad RPC ''INVALID_RESPONSE'')
     else rd_bind read_u8 (\<lambda>flag. rd_bind (rd_get remaining_bytes) (\<lambda>left.
       if flag = 0
       then (if left \<noteq> 0 then rd_raise (bad RPC ''INVALID_RESPONSE'') else rd_return None)
       else if flag \<noteq> 1 \<or> left \<noteq> 4 then rd_raise (bad RPC ''INVALID_RESPONSE'')
       else rd_bind read_u32_be (\<lambda>ms.
         if ms > MAX_RPC_BUDGET_MS then rd_raise (bad RPC ''INVALID_RESPONSE'') else rd_return (Some ms)))))"

definition read_request :: "(bytes \<times> ustr \<times> bytes \<times> int option) rd" where
  "read_request =
     rd_bind (read_bytes 16) (\<lambda>key. rd_bind read_route (\<lambda>route. rd_bind read_blob (\<lambda>body.
     rd_bind read_budget (\<lambda>budget. rd_return (key, route, body, budget)))))"

definition decode_request :: "bytes \<Rightarrow> exn + bytes \<times> ustr \<times> bytes \<times> int option" where
  "decode_request = run_reader (rd_bind read_request (\<lambda>x.
     rd_bind (expect_eof (bad RPC ''INVALID_RESPONSE'')) (\<lambda>_. rd_return x)))"

definition looks_like_request :: "bytes \<Rightarrow> bool" where
  "looks_like_request data =
     (case run_reader (rd_bind read_request (\<lambda>_. rd_get is_eof)) data of Inr eof \<Rightarrow> eof | Inl _ \<Rightarrow> False)"

section \<open>Responses\<close>

record response_frame =
  rf_body :: bytes
  rf_sequence :: int

definition response_fields :: "bytes \<Rightarrow> int \<Rightarrow> bool \<Rightarrow> bytes \<Rightarrow> wop list" where
  "response_fields key seq fin body =
     [Raw key, U64 seq, U8 (of_bool fin), U32 (int (length body)), Raw body]"

definition decode_response :: "bytes \<Rightarrow> exn + bytes \<times> int \<times> int \<times> bytes" where
  "decode_response = run_reader
     (rd_bind (read_bytes 16) (\<lambda>key. rd_bind read_u64_be (\<lambda>seq. rd_bind read_u8 (\<lambda>flgs.
      if flgs AND NOT 1 \<noteq> 0 then rd_raise (bad RPC ''INVALID_RESPONSE'')
      else rd_bind read_blob (\<lambda>body. rd_bind (expect_eof (bad RPC ''INVALID_RESPONSE'')) (\<lambda>_.
        rd_return (key, seq, flgs, body)))))))"

definition looks_like_response :: "bytes \<Rightarrow> bool" where
  "looks_like_response data =
     (case run_reader (rd_bind (read_bytes 16) (\<lambda>_. rd_bind read_u64_be (\<lambda>_. rd_bind read_u8 (\<lambda>flgs.
        rd_bind read_blob (\<lambda>_. rd_bind (rd_get is_eof) (\<lambda>eof. rd_return (flgs AND NOT 1 = 0 \<and> eof))))))) data of
        Inr ok \<Rightarrow> ok | Inl _ \<Rightarrow> False)"

definition rpc_code :: "int \<Rightarrow> bool" where
  "rpc_code c \<longleftrightarrow> 6001 \<le> c \<and> c \<le> 6010 \<or> 6050 \<le> c \<and> c \<le> 6055"

definition decode_terminal_error :: "bytes \<Rightarrow> exn + exn option" where
  "decode_terminal_error body =
     (if length body < 9 \<or> hd body \<noteq> 1 then Inr None
      else case parse_response body of
        Inl e \<Rightarrow> (case e of CodecError \<Rightarrow> Inr None | ProtocolError _ \<Rightarrow> Inr None | UnicodeDecodeError \<Rightarrow> Inr None
                | _ \<Rightarrow> Inl e)
      | Inr r \<Rightarrow> Inr (case rs_error_code r of
            None \<Rightarrow> None
          | Some c \<Rightarrow>
              if success r \<or> \<not> rpc_code c \<or> rs_data r \<noteq> [] then None
              else Some (DomainError RPC ''CALL'' (Some c) (rs_error_class r) (rs_effect r))))"

text \<open>The body of \<open>_send_error\<close>.\<close>

definition error_fields :: "int \<Rightarrow> ustr \<Rightarrow> wop list" where
  "error_fields code message =
     [U8 1, U16 code, U8 (code mod 1000),
      U8 (if code mod 1000 = 5 then 0 else if code mod 1000 \<in> {6, 7} then 1 else 0), Str message]"

record rwriter =
  rw_key :: bytes
  rw_sequence :: int
  rw_generation :: int
  rw_ended :: bool

definition new_writer_for :: "'s link \<Rightarrow> bytes \<Rightarrow> 's \<Rightarrow> rwriter" where
  "new_writer_for lk key s = \<lparr>rw_key = key, rw_sequence = 0, rw_generation = lk_generation lk s, rw_ended = False\<rparr>"

text \<open>\<open>ResponseWriter.send\<close>: the sequence moves on when the frame was sent.\<close>

definition writer_send :: "'s link \<Rightarrow> bytes \<Rightarrow> bool \<Rightarrow> (rwriter \<times> 's, unit) io" where
  "writer_send lk body fin =
     io_bind (\<lambda>(w, s). (if rw_ended w \<or> rw_generation w \<noteq> lk_generation lk s then Inl FitzConnectionError else Inr w, (w, s)))
    (\<lambda>w. io_bind (io_lift (build_payload (response_fields (rw_key w) (rw_sequence w) fin body)))
    (\<lambda>p. io_then (lk_send (hook (\<lambda>w. w) lk) MSG_RPC_RESPONSE p)
       (io_modify (apfst (\<lambda>w. w\<lparr>rw_sequence := rw_sequence w + 1, rw_ended := fin\<rparr>)))))"

definition send_error :: "'s link \<Rightarrow> int \<Rightarrow> ustr \<Rightarrow> (rwriter \<times> 's, unit) io" where
  "send_error lk code message =
     io_bind (io_lift (build_payload (error_fields code message))) (\<lambda>body. writer_send lk body True)"

section \<open>Opening a call\<close>

text \<open>
  \<open>open_call\<close> up to its \<open>await\<close>: the deadline and the payload of the request under the random key;
  \<open>now\<close> is read twice.
\<close>

definition open_request ::
  "ustr \<Rightarrow> bytes \<Rightarrow> rat option \<Rightarrow> bytes \<Rightarrow> rat \<Rightarrow> rat \<Rightarrow> exn + rat option \<times> bytes" where
  "open_request route body timeout key now later =
     bind_r (rpc_route route False) (\<lambda>_.
     bind_r (check_timeout timeout) (\<lambda>_.
     let deadline = map_option (\<lambda>t. now + t) timeout
     in bind_r (request_payload key route body (remaining_budget deadline later)) (\<lambda>p. Inr (deadline, p))))"

text \<open>\<open>call_from_request\<close>: the budget a downstream call inherits.\<close>

definition inherited_timeout :: "bool \<Rightarrow> rat option \<Rightarrow> rat \<Rightarrow> exn + rat option" where
  "inherited_timeout cancelled deadline now =
     (if cancelled then Inl CancelledError
      else case remaining_time_ms deadline now of
        None \<Rightarrow> Inr None
      | Some ms \<Rightarrow> if ms = 0 then Inl FitzTimeoutError else Inr (Some (of_int ms / 1000)))"

end
