(* ===== verification/Rpc_Calls.thy ===== *)
theory Rpc_Calls
  imports Rpc
begin

text \<open>
  The calls of an RPC client: the objects of open calls with their queues and outcome futures, the
  tables of pending and of cancelled calls, and everything that reaches them: responses, lifecycle
  frames, the caller's reads and cancellations, deadlines, the grace timer and a lost connection.
  \<open>_close_and_cancel\<close> is split where it awaits the sending of its CANCELLATION frame.
\<close>

section \<open>State\<close>

datatype call_outcome =
    Not_requested | Queued_removed | Forwarded | Worker_unsupported | Already_terminal
  | Unknown_or_unauthorized | Forwarding_failed | Unconfirmed | Connection_closed

datatype rentry = Piece response_frame | Trouble exn | End_mark

record rpc_call =
  rc_key :: bytes
  rc_deadline :: "rat option"
  rc_capacity :: int
  rc_queue :: "rentry list"
  rc_closed :: bool
  rc_terminal :: bool
  rc_failure :: "exn option"
  rc_outcome :: "call_outcome option"
  rc_watched :: bool  \<comment> \<open>deadline and parent tasks are running\<close>

record calls =
  cl_call :: "nat \<Rightarrow> rpc_call option"
  cl_pending :: "(bytes \<times> nat) list"
  cl_cancelling :: "(bytes \<times> nat) list"
  cl_opening :: "nat set"

definition no_calls :: calls where
  "no_calls = \<lparr>cl_call = Map.empty, cl_pending = [], cl_cancelling = [], cl_opening = {}\<rparr>"

definition fresh_call :: "bytes \<Rightarrow> rat option \<Rightarrow> int \<Rightarrow> rpc_call" where
  "fresh_call key deadline capacity =
     \<lparr>rc_key = key, rc_deadline = deadline, rc_capacity = capacity, rc_queue = [], rc_closed = False,
      rc_terminal = False, rc_failure = None, rc_outcome = None, rc_watched = False\<rparr>"

text \<open>\<open>asyncio.Queue(maxsize)\<close>\<close>

definition queue_room :: "rpc_call \<Rightarrow> bool" where
  "queue_room r \<longleftrightarrow> rc_capacity r \<le> 0 \<or> int (length (rc_queue r)) < rc_capacity r"

definition on_call :: "nat \<Rightarrow> (rpc_call \<Rightarrow> rpc_call) \<Rightarrow> calls \<Rightarrow> calls" where
  "on_call c f st = st\<lparr>cl_call := (cl_call st)(c := map_option f (cl_call st c))\<rparr>"

section \<open>Outcomes\<close>

definition set_outcome :: "call_outcome \<Rightarrow> rpc_call \<Rightarrow> rpc_call" where
  "set_outcome out r = (if rc_outcome r = None then r\<lparr>rc_outcome := Some out\<rparr> else r)"

text \<open>\<open>if self._pending.get(key) is call: self._pending.pop(key)\<close>\<close>

definition drop_pending :: "bytes \<Rightarrow> nat \<Rightarrow> calls \<Rightarrow> calls" where
  "drop_pending key c st =
     (if map_of (cl_pending st) key = Some c then st\<lparr>cl_pending := AList.delete key (cl_pending st)\<rparr> else st)"

definition finish_call :: "nat \<Rightarrow> call_outcome \<Rightarrow> calls \<Rightarrow> calls" where
  "finish_call c out st =
     (case cl_call st c of
        None \<Rightarrow> st
      | Some r \<Rightarrow> on_call c (set_outcome out) (drop_pending (rc_key r) c st))"

definition settle_cancellation :: "bytes \<Rightarrow> call_outcome \<Rightarrow> calls \<Rightarrow> calls" where
  "settle_cancellation key out st =
     (case map_of (cl_cancelling st) key of
        None \<Rightarrow> st
      | Some c \<Rightarrow> on_call c (set_outcome out) (st\<lparr>cl_cancelling := AList.delete key (cl_cancelling st)\<rparr>))"

section \<open>Responses\<close>

definition fail_record :: "exn \<Rightarrow> bool \<Rightarrow> rpc_call \<Rightarrow> rpc_call" where
  "fail_record e preserve r =
     (let r = (if preserve then r else r\<lparr>rc_queue := []\<rparr>)
      in if queue_room r then r\<lparr>rc_queue := rc_queue r @ [Trouble e], rc_failure := None\<rparr>
         else r\<lparr>rc_failure := Some e\<rparr>)"

definition call_fail :: "exn \<Rightarrow> bool \<Rightarrow> nat \<Rightarrow> calls \<Rightarrow> calls" where
  "call_fail e preserve c st =
     (case cl_call st c of
        None \<Rightarrow> st
      | Some r \<Rightarrow>
          if rc_closed r then st
          else on_call c (fail_record e preserve)
            (finish_call c (if e = FitzConnectionError then Connection_closed else Not_requested)
              (on_call c (\<lambda>r. r\<lparr>rc_closed := True, rc_watched := False\<rparr>) st)))"

definition call_push :: "response_frame \<Rightarrow> bool \<Rightarrow> nat \<Rightarrow> calls \<Rightarrow> calls" where
  "call_push f fin c st =
     (case cl_call st c of
        None \<Rightarrow> st
      | Some r \<Rightarrow>
          if rc_closed r then st
          else if queue_room r
          then let st = on_call c (\<lambda>r. r\<lparr>rc_queue := rc_queue r @ [Piece f]\<rparr>) st
               in if fin then finish_call c Not_requested (on_call c (\<lambda>r. r\<lparr>rc_terminal := True, rc_watched := False\<rparr>) st)
                  else st
          else call_fail (bad RPC ''BACKPRESSURE'') False c st)"

text \<open>\<open>_on_response\<close>: what it raises, and the calls.\<close>

definition on_response :: "bytes \<Rightarrow> calls \<Rightarrow> exn option \<times> calls" where
  "on_response data st =
     (case decode_response data of
        Inl e \<Rightarrow> (Some e, st)
      | Inr (key, seq, flgs, body) \<Rightarrow>
          (case map_of (cl_pending st) key of
             None \<Rightarrow> (None, st)
           | Some c \<Rightarrow>
               (case (if flgs AND 1 \<noteq> 0 then decode_terminal_error body else Inr None) of
                  Inl e \<Rightarrow> (Some e, st)
                | Inr (Some e) \<Rightarrow> (None, let st = call_fail e True c st in st\<lparr>cl_pending := AList.delete key (cl_pending st)\<rparr>)
                | Inr None \<Rightarrow> (None, call_push \<lparr>rf_body = body, rf_sequence = seq\<rparr> (flgs AND 1 \<noteq> 0) c st))))"

definition cancellation_outcome :: "8 word \<Rightarrow> call_outcome option" where
  "cancellation_outcome v =
     (if v = 1 then Some Queued_removed else if v = 2 then Some Forwarded
      else if v = 3 then Some Worker_unsupported else if v = 4 then Some Already_terminal
      else if v = 5 then Some Unknown_or_unauthorized else if v = 6 then Some Forwarding_failed else None)"

text \<open>\<open>_on_lifecycle\<close> for the caller's side.\<close>

definition caller_lifecycle :: "bytes \<Rightarrow> calls \<Rightarrow> calls" where
  "caller_lifecycle data st =
     (if length data \<noteq> 18 \<or> hd data \<noteq> 4 then st
      else case cancellation_outcome (data ! 17) of
        None \<Rightarrow> st
      | Some out \<Rightarrow> settle_cancellation (seg 1 16 data) out st)"

section \<open>Cancellation\<close>

definition cancellation_payload :: "bytes \<Rightarrow> int \<Rightarrow> exn + bytes" where
  "cancellation_payload key reason = build_payload [U8 1, Raw key, U8 reason]"

text \<open>\<open>_abandon_call\<close> up to its send: whether a CANCELLATION is sent.\<close>

definition abandon_call :: "nat \<Rightarrow> calls \<Rightarrow> bool \<times> calls" where
  "abandon_call c st =
     (case cl_call st c of
        None \<Rightarrow> (False, st)
      | Some r \<Rightarrow>
          let st = drop_pending (rc_key r) c st
          in if rc_outcome r \<noteq> None \<or> map_of (cl_cancelling st) (rc_key r) \<noteq> None then (False, st)
             else (True, st\<lparr>cl_cancelling := AList.update (rc_key r) c (cl_cancelling st)\<rparr>))"

definition close_and_cancel :: "nat \<Rightarrow> calls \<Rightarrow> bool \<times> calls" where
  "close_and_cancel c st =
     (case cl_call st c of
        None \<Rightarrow> (False, st)
      | Some r \<Rightarrow>
          if rc_terminal r \<or> rc_closed r then (False, st)
          else abandon_call c (on_call c (\<lambda>r. r\<lparr>rc_closed := True, rc_queue := [End_mark], rc_watched := False\<rparr>) st))"

text \<open>How the send of the CANCELLATION ended; a cancellation of the sender leaves the timer.\<close>

definition cancel_sent :: "bytes \<Rightarrow> exn option \<Rightarrow> calls \<Rightarrow> calls" where
  "cancel_sent key how st =
     (case how of
        None \<Rightarrow> st
      | Some e \<Rightarrow>
          if e = FitzConnectionError \<or> e = FitzTimeoutError then settle_cancellation key Connection_closed st
          else if e = CancelledError then st
          else settle_cancellation key Unconfirmed st)"

definition deadline_expired :: "nat \<Rightarrow> calls \<Rightarrow> bool \<times> calls" where
  "deadline_expired c st =
     (case cl_call st c of
        None \<Rightarrow> (False, st)
      | Some r \<Rightarrow>
          if rc_closed r \<or> rc_terminal r then (False, st)
          else close_and_cancel c (on_call c (\<lambda>r. r\<lparr>rc_failure := Some FitzTimeoutError\<rparr>) st))"

definition calls_disconnect :: "calls \<Rightarrow> calls" where
  "calls_disconnect st =
     (let st = fold (call_fail FitzConnectionError True) (map snd (cl_pending st)) st;
          st = st\<lparr>cl_pending := []\<rparr>;
          st = fold (\<lambda>c. on_call c (set_outcome Connection_closed)) (map snd (cl_cancelling st)) st
      in st\<lparr>cl_cancelling := []\<rparr>)"

section \<open>The caller\<close>

text \<open>What \<open>__anext__\<close> does at once: \<open>Must_wait\<close> is the wait for an item of the queue.\<close>

datatype next_end = Yielded response_frame | Raises exn | Must_wait

text \<open>An item was taken from the queue.\<close>

definition take_entry :: "rentry \<Rightarrow> rpc_call \<Rightarrow> next_end \<times> rpc_call" where
  "take_entry x r =
     (case x of
        Piece f \<Rightarrow> (Yielded f, r)
      | Trouble e \<Rightarrow> (Raises e, r\<lparr>rc_closed := True, rc_failure := None\<rparr>)
      | End_mark \<Rightarrow>
          (case rc_failure r of
             Some e \<Rightarrow> (Raises e, r\<lparr>rc_closed := True, rc_failure := None\<rparr>)
           | None \<Rightarrow> (Raises StopAsyncIteration, r\<lparr>rc_closed := True\<rparr>)))"

definition overdue :: "rat option \<Rightarrow> rat \<Rightarrow> bool" where
  "overdue deadline now \<longleftrightarrow> (case deadline of None \<Rightarrow> False | Some d \<Rightarrow> d - now \<le> 0)"

definition call_next :: "rat \<Rightarrow> nat \<Rightarrow> calls \<Rightarrow> next_end \<times> calls" where
  "call_next now c st =
     (case cl_call st c of
        None \<Rightarrow> (Raises StopAsyncIteration, st)
      | Some r \<Rightarrow>
          (case (rc_failure r, rc_queue r) of
             (Some e, []) \<Rightarrow> (Raises e, on_call c (\<lambda>r. r\<lparr>rc_failure := None\<rparr>) st)
           | (_, q) \<Rightarrow>
               if (rc_closed r \<or> rc_terminal r) \<and> q = [] then (Raises StopAsyncIteration, st)
               else if overdue (rc_deadline r) now
               then (Raises FitzTimeoutError, snd (close_and_cancel c st))
               else (case q of
                   [] \<Rightarrow> (Must_wait, st)
                 | x # q \<Rightarrow>
                     let (a, r) = take_entry x (r\<lparr>rc_queue := q\<rparr>) in (a, on_call c (\<lambda>_. r) st))))"

text \<open>The wait ended without an item: the caller was cancelled, or the deadline passed.\<close>

definition next_interrupted :: "exn \<Rightarrow> nat \<Rightarrow> calls \<Rightarrow> next_end \<times> calls" where
  "next_interrupted e c st =
     (Raises (if e = CancelledError then CancelledError else FitzTimeoutError), snd (close_and_cancel c st))"

text \<open>
  \<open>LazyRPCCall.cancellation\<close>, of a call that was never opened or of the opened one; \<open>None\<close> while
  its future is not done.
\<close>

definition lazy_cancellation :: "nat option \<Rightarrow> calls \<Rightarrow> call_outcome option" where
  "lazy_cancellation opened st =
     (case opened of
        None \<Rightarrow> Some Not_requested
      | Some c \<Rightarrow> (case cl_call st c of None \<Rightarrow> None | Some r \<Rightarrow> rc_outcome r))"

section \<open>Steps\<close>

definition open_call :: "nat \<Rightarrow> bytes \<Rightarrow> rat option \<Rightarrow> int \<Rightarrow> calls \<Rightarrow> calls" where
  "open_call c key deadline capacity st =
     st\<lparr>cl_call := (cl_call st)(c \<mapsto> fresh_call key deadline capacity),
        cl_pending := AList.update key c (cl_pending st), cl_opening := insert c (cl_opening st)\<rparr>"

text \<open>The REQUEST was sent, or its send raised and nobody gets the call.\<close>

definition call_opened :: "nat \<Rightarrow> calls \<Rightarrow> calls" where
  "call_opened c st = on_call c (\<lambda>r. r\<lparr>rc_watched := True\<rparr>) (st\<lparr>cl_opening := cl_opening st - {c}\<rparr>)"

definition open_failed_call :: "nat \<Rightarrow> calls \<Rightarrow> calls" where
  "open_failed_call c st =
     (case cl_call st c of
        None \<Rightarrow> st
      | Some r \<Rightarrow> st\<lparr>cl_call := (cl_call st)(c := None), cl_pending := AList.delete (rc_key r) (cl_pending st),
                     cl_opening := cl_opening st - {c}\<rparr>)"

text \<open>Keys are 16 random bytes; that no two calls draw the same is a premise of opening.\<close>

definition key_unused :: "bytes \<Rightarrow> calls \<Rightarrow> bool" where
  "key_unused key st \<longleftrightarrow> (\<forall>c r. cl_call st c = Some r \<longrightarrow> rc_key r \<noteq> key)"

inductive call_step :: "calls \<Rightarrow> calls \<Rightarrow> bool" where
  opens: "cl_call st c = None \<Longrightarrow> key_unused key st \<Longrightarrow> call_step st (open_call c key deadline capacity st)"
| opened: "c \<in> cl_opening st \<Longrightarrow> call_step st (call_opened c st)"
| open_failed: "c \<in> cl_opening st \<Longrightarrow> call_step st (open_failed_call c st)"
| response: "call_step st (snd (on_response data st))"
| lifecycle: "call_step st (caller_lifecycle data st)"
| cancels: "c \<notin> cl_opening st \<Longrightarrow> call_step st (snd (close_and_cancel c st))"
| sent: "call_step st (cancel_sent key how st)"
| grace: "call_step st (settle_cancellation key Unconfirmed st)"
| expired: "c \<notin> cl_opening st \<Longrightarrow> call_step st (snd (deadline_expired c st))"
| awaited: "c \<notin> cl_opening st \<Longrightarrow> call_step st (snd (call_next now c st))"
| interrupted: "c \<notin> cl_opening st \<Longrightarrow> call_step st (snd (next_interrupted e c st))"
| lost: "call_step st (calls_disconnect st)"

inductive call_reach :: "calls \<Rightarrow> bool" where
  start: "call_reach no_calls"
| step: "call_reach st \<Longrightarrow> call_step st st' \<Longrightarrow> call_reach st'"

section \<open>The invariant\<close>

text \<open>
  A call is pending and open, or closed with its cancellation under way, or over with its outcome
  settled; the queue of a call that is not closed holds responses only.
\<close>

definition call_ok :: "calls \<Rightarrow> nat \<Rightarrow> rpc_call \<Rightarrow> bool" where
  "call_ok st c r \<longleftrightarrow>
     (case (map_of (cl_pending st) (rc_key r), map_of (cl_cancelling st) (rc_key r)) of
        (Some d, None) \<Rightarrow> d = c \<and> \<not> rc_closed r \<and> \<not> rc_terminal r \<and> rc_outcome r = None
      | (None, Some d) \<Rightarrow> d = c \<and> rc_closed r \<and> \<not> rc_terminal r \<and> rc_outcome r = None \<and> c \<notin> cl_opening st
      | (None, None) \<Rightarrow> (rc_closed r \<or> rc_terminal r) \<and> rc_outcome r \<noteq> None
      | _ \<Rightarrow> False) \<and>
     (\<not> rc_closed r \<longrightarrow> list_all (case_rentry (\<lambda>_. True) (\<lambda>_. False) False) (rc_queue r))"

definition calls_inv :: "calls \<Rightarrow> bool" where
  "calls_inv st \<longleftrightarrow>
     (\<forall>c r. cl_call st c = Some r \<longrightarrow> call_ok st c r) \<and>
     (\<forall>c r d q. cl_call st c = Some r \<longrightarrow> cl_call st d = Some q \<longrightarrow> rc_key r = rc_key q \<longrightarrow> c = d) \<and>
     (\<forall>k c. map_of (cl_pending st) k = Some c \<or> map_of (cl_cancelling st) k = Some c \<longrightarrow>
        (\<exists>r. cl_call st c = Some r \<and> rc_key r = k))"

lemma calls_inv_ok: "calls_inv st \<Longrightarrow> cl_call st c = Some r \<Longrightarrow> call_ok st c r"
  by (simp add: calls_inv_def)

lemma calls_inv_key: "calls_inv st \<Longrightarrow> cl_call st c = Some r \<Longrightarrow> cl_call st d = Some q \<Longrightarrow> rc_key r = rc_key q \<Longrightarrow> c = d"
  unfolding calls_inv_def by blast

lemma calls_inv_table:
  assumes "calls_inv st" "map_of (cl_pending st) k = Some c \<or> map_of (cl_cancelling st) k = Some c"
  obtains r where "cl_call st c = Some r" "rc_key r = k"
  using assms unfolding calls_inv_def by blast

lemma calls_inv_start: "calls_inv no_calls"
  by (simp add: calls_inv_def no_calls_def)

text \<open>A step that changes one call and what the tables hold under its key.\<close>

lemma calls_inv_change:
  assumes inv: "calls_inv st" and r: "cl_call st c = Some r" and key: "rc_key r' = rc_key r"
    and calls: "cl_call st' = (cl_call st)(c \<mapsto> r')"
    and p: "\<And>k. k \<noteq> rc_key r \<Longrightarrow> map_of (cl_pending st') k = map_of (cl_pending st) k"
    and q: "\<And>k. k \<noteq> rc_key r \<Longrightarrow> map_of (cl_cancelling st') k = map_of (cl_cancelling st) k"
    and o': "cl_opening st' \<subseteq> cl_opening st"
    and ok: "call_ok st' c r'"
  shows "calls_inv st'"
proof -
  have ne: "rc_key a \<noteq> rc_key r" if "cl_call st d = Some a" "d \<noteq> c" for d a
    using calls_inv_key [OF inv r that(1)] that(2) by auto
  have "call_ok st' d a" if "cl_call st' d = Some a" for d a
  proof (cases "d = c")
    case False
    then have "cl_call st d = Some a" using that calls by simp
    then have "call_ok st d a" "rc_key a \<noteq> rc_key r" using calls_inv_ok [OF inv] ne False by auto
    then show ?thesis using p q o' by (auto simp: call_ok_def split: option.splits)
  qed (use that ok calls in simp)
  moreover have "d = e" if "cl_call st' d = Some a" "cl_call st' e = Some b" "rc_key a = rc_key b" for d e a b
    using that calls_inv_key [OF inv] ne key r unfolding calls by (auto split: if_splits)
  moreover have "\<exists>a. cl_call st' d = Some a \<and> rc_key a = k"
    if "map_of (cl_pending st') k = Some d \<or> map_of (cl_cancelling st') k = Some d" for k d
  proof (cases "k = rc_key r")
    case True
    then have "d = c" using that ok key by (auto simp: call_ok_def split: option.splits)
    then show ?thesis using True calls key by simp
  next
    case False
    then have "map_of (cl_pending st) k = Some d \<or> map_of (cl_cancelling st) k = Some d" using that p q by simp
    then obtain a where "cl_call st d = Some a" "rc_key a = k" by (rule calls_inv_table [OF inv])
    then show ?thesis using False r calls by auto
  qed
  ultimately show ?thesis unfolding calls_inv_def by simp
qed

lemma on_call_Some [simp]: "cl_call st c = Some r \<Longrightarrow> on_call c f st = st\<lparr>cl_call := (cl_call st)(c \<mapsto> f r)\<rparr>"
  by (simp add: on_call_def)

lemma on_call_rest [simp]:
  "cl_pending (on_call c f st) = cl_pending st" "cl_cancelling (on_call c f st) = cl_cancelling st"
  "cl_opening (on_call c f st) = cl_opening st"
  by (simp_all add: on_call_def)

lemma drop_pending_rest [simp]:
  "cl_call (drop_pending k c st) = cl_call st" "cl_cancelling (drop_pending k c st) = cl_cancelling st"
  "cl_opening (drop_pending k c st) = cl_opening st"
  "map_of (cl_pending (drop_pending k c st)) = (if map_of (cl_pending st) k = Some c then (map_of (cl_pending st))(k := None) else map_of (cl_pending st))"
  by (simp_all add: drop_pending_def delete_conv')

lemma call_ok_cancelling:
  "map_of (cl_pending st) (rc_key r) = None \<Longrightarrow> map_of (cl_cancelling st) (rc_key r) = Some c \<Longrightarrow> rc_closed r \<Longrightarrow>
    \<not> rc_terminal r \<Longrightarrow> rc_outcome r = None \<Longrightarrow> c \<notin> cl_opening st \<Longrightarrow> call_ok st c r"
  by (simp add: call_ok_def)

lemma call_ok_settled:
  "map_of (cl_pending st) (rc_key r) = None \<Longrightarrow> map_of (cl_cancelling st) (rc_key r) = None \<Longrightarrow>
    rc_closed r \<or> rc_terminal r \<Longrightarrow> rc_outcome r \<noteq> None \<Longrightarrow>
    (\<not> rc_closed r \<Longrightarrow> list_all (case_rentry (\<lambda>_. True) (\<lambda>_. False) False) (rc_queue r)) \<Longrightarrow> call_ok st c r"
  by (simp add: call_ok_def)

text \<open>A call that is not closed, and one that is.\<close>

lemma call_ok_open:
  assumes "call_ok st c r" "\<not> rc_closed r" "\<not> rc_terminal r"
  shows "map_of (cl_pending st) (rc_key r) = Some c \<and> map_of (cl_cancelling st) (rc_key r) = None \<and> rc_outcome r = None"
  using assms by (auto simp: call_ok_def split: option.splits)

lemma call_ok_over:
  assumes "call_ok st c r" "rc_terminal r"
  shows "map_of (cl_pending st) (rc_key r) = None \<and> map_of (cl_cancelling st) (rc_key r) = None \<and> rc_outcome r \<noteq> None"
  using assms by (auto simp: call_ok_def split: option.splits)

lemma call_ok_closed: "call_ok st c r \<Longrightarrow> rc_closed r \<Longrightarrow> map_of (cl_pending st) (rc_key r) = None"
  by (auto simp: call_ok_def split: option.splits)

section \<open>Every step keeps it\<close>

lemma drop_pending_calls: "drop_pending k c (st\<lparr>cl_call := f\<rparr>) = drop_pending k c st\<lparr>cl_call := f\<rparr>"
  by (simp add: drop_pending_def)

lemma set_outcome_fields [simp]:
  "rc_key (set_outcome out r) = rc_key r" "rc_closed (set_outcome out r) = rc_closed r"
  "rc_terminal (set_outcome out r) = rc_terminal r" "rc_queue (set_outcome out r) = rc_queue r"
  "rc_outcome (set_outcome out r) = (if rc_outcome r = None then Some out else rc_outcome r)"
  by (simp_all add: set_outcome_def)

lemma fail_record_fields [simp]:
  "rc_key (fail_record e p r) = rc_key r" "rc_closed (fail_record e p r) = rc_closed r"
  "rc_terminal (fail_record e p r) = rc_terminal r" "rc_outcome (fail_record e p r) = rc_outcome r"
  by (simp_all add: fail_record_def Let_def)

lemma finish_call_result:
  "cl_call st c = Some r \<Longrightarrow>
    finish_call c out st = drop_pending (rc_key r) c st\<lparr>cl_call := (cl_call st)(c \<mapsto> set_outcome out r)\<rparr>"
  by (simp add: finish_call_def)

definition failed_record :: "exn \<Rightarrow> bool \<Rightarrow> rpc_call \<Rightarrow> rpc_call" where
  "failed_record e preserve r =
     fail_record e preserve (set_outcome (if e = FitzConnectionError then Connection_closed else Not_requested)
       (r\<lparr>rc_closed := True, rc_watched := False\<rparr>))"

lemma call_fail_result:
  "cl_call st c = Some r \<Longrightarrow> \<not> rc_closed r \<Longrightarrow> call_fail e preserve c st =
    drop_pending (rc_key r) c st\<lparr>cl_call := (cl_call st)(c \<mapsto> failed_record e preserve r)\<rparr>"
  by (simp add: call_fail_def finish_call_result drop_pending_calls failed_record_def)

lemma calls_inv_fail:
  assumes "calls_inv st"
  shows "calls_inv (call_fail e preserve c st)"
proof (cases "\<exists>r. cl_call st c = Some r \<and> \<not> rc_closed r")
  case True
  then obtain r where r: "cl_call st c = Some r" "\<not> rc_closed r" by blast
  have ok: "call_ok st c r" by (rule calls_inv_ok [OF assms r(1)])
  show ?thesis unfolding call_fail_result [OF r]
  proof (rule calls_inv_change [OF assms r(1)])
    show "call_ok (drop_pending (rc_key r) c st\<lparr>cl_call := (cl_call st)(c \<mapsto> failed_record e preserve r)\<rparr>) c (failed_record e preserve r)"
      using ok r(2) call_ok_open [OF ok r(2)] call_ok_over [OF ok]
      by (cases "rc_terminal r") (simp_all add: call_ok_def failed_record_def)
  qed (simp_all add: failed_record_def)
qed (use assms in \<open>auto simp: call_fail_def split: option.split\<close>)

lemma calls_inv_same:
  assumes "calls_inv st" "cl_call st' = cl_call st" "map_of (cl_pending st') = map_of (cl_pending st)"
    "map_of (cl_cancelling st') = map_of (cl_cancelling st)" "cl_opening st' \<subseteq> cl_opening st"
  shows "calls_inv st'"
proof -
  have "call_ok st' c r" if "call_ok st c r" for c r
    using that assms(3-5) by (auto simp: call_ok_def split: option.splits)
  then show ?thesis using assms(1) unfolding calls_inv_def assms(2-4) by blast
qed

lemma calls_inv_push:
  assumes "calls_inv st" "map_of (cl_pending st) key = Some c"
  shows "calls_inv (call_push f fin c st)"
proof -
  obtain r where r: "cl_call st c = Some r" "rc_key r = key"
    using calls_inv_table [OF assms(1) disjI1 [OF assms(2)]] by blast
  have ok: "call_ok st c r" by (rule calls_inv_ok [OF assms(1) r(1)])
  then have live: "\<not> rc_closed r" "\<not> rc_terminal r" "map_of (cl_cancelling st) key = None"
    using assms(2) r(2) by (auto simp: call_ok_def split: option.splits)
  consider "\<not> queue_room r" | "queue_room r" "fin" | "queue_room r" "\<not> fin" by blast
  then show ?thesis
  proof cases
    case 1
    then show ?thesis using calls_inv_fail [OF assms(1)] by (simp add: call_push_def r live)
  next
    case 2
    let ?r = "set_outcome Not_requested (r\<lparr>rc_queue := rc_queue r @ [Piece f], rc_terminal := True, rc_watched := False\<rparr>)"
    have "call_push f fin c st = drop_pending key c st\<lparr>cl_call := (cl_call st)(c \<mapsto> ?r)\<rparr>"
      using 2 by (simp add: call_push_def r live finish_call_result drop_pending_calls Let_def)
    moreover have "list_all (case_rentry (\<lambda>_. True) (\<lambda>_. False) False) (rc_queue r)"
      using ok live by (simp add: call_ok_def)
    ultimately show ?thesis
      using live assms(2) by (intro calls_inv_change [OF assms(1) r(1), where r' = ?r] call_ok_settled) (simp_all add: r)
  next
    case 3
    then show ?thesis
      using ok live assms(2)
      by (intro calls_inv_change [OF assms(1) r(1), where r' = "r\<lparr>rc_queue := rc_queue r @ [Piece f]\<rparr>"])
        (simp_all add: call_push_def r live call_ok_def)
  qed
qed

lemma calls_inv_response:
  assumes "calls_inv st"
  shows "calls_inv (snd (on_response data st))"
proof -
  have "calls_inv (call_fail e True c st\<lparr>cl_pending := AList.delete key (cl_pending (call_fail e True c st))\<rparr>)"
    if c: "map_of (cl_pending st) key = Some c" for e key c
  proof (rule calls_inv_same [OF calls_inv_fail [OF assms, of e True c]])
    obtain r where r: "cl_call st c = Some r" "rc_key r = key" using calls_inv_table [OF assms disjI1 [OF c]] by blast
    have "\<not> rc_closed r" using calls_inv_ok [OF assms r(1)] c r(2) by (auto simp: call_ok_def split: option.splits)
    then have "map_of (cl_pending (call_fail e True c st)) key = None"
      using call_fail_result [OF r(1)] r c by simp
    then show "map_of (cl_pending (call_fail e True c st\<lparr>cl_pending := AList.delete key (cl_pending (call_fail e True c st))\<rparr>)) =
        map_of (cl_pending (call_fail e True c st))"
      by (simp add: delete_conv' fun_upd_idem)
  qed simp_all
  then show ?thesis using assms calls_inv_push [OF assms]
    by (auto simp: on_response_def Let_def split: sum.split option.split)
qed

lemma calls_inv_settle:
  assumes "calls_inv st"
  shows "calls_inv (settle_cancellation key out st)"
proof (cases "map_of (cl_cancelling st) key")
  case (Some c)
  obtain r where r: "cl_call st c = Some r" "rc_key r = key" using calls_inv_table [OF assms disjI2 [OF Some]] by blast
  have ok: "call_ok st c r" by (rule calls_inv_ok [OF assms r(1)])
  then have "rc_closed r" "map_of (cl_pending st) key = None"
    using Some r(2) by (auto simp: call_ok_def split: option.splits)
  then show ?thesis using Some
    by (intro calls_inv_change [OF assms r(1), where r' = "set_outcome out r"] call_ok_settled)
      (simp_all add: settle_cancellation_def r delete_conv')
qed (simp add: settle_cancellation_def assms)

lemma close_and_cancel_result:
  assumes "calls_inv st" "cl_call st c = Some r" "\<not> rc_terminal r" "\<not> rc_closed r"
  shows "close_and_cancel c st = (True, drop_pending (rc_key r) c st
    \<lparr>cl_call := (cl_call st)(c \<mapsto> r\<lparr>rc_closed := True, rc_queue := [End_mark], rc_watched := False\<rparr>),
     cl_cancelling := AList.update (rc_key r) c (cl_cancelling st)\<rparr>)"
  using call_ok_open [OF calls_inv_ok [OF assms(1,2)] assms(4,3)] assms(2-4)
  by (simp add: close_and_cancel_def abandon_call_def drop_pending_calls Let_def)

lemma calls_inv_cancel:
  assumes "calls_inv st" "c \<notin> cl_opening st"
  shows "calls_inv (snd (close_and_cancel c st))"
proof (cases "\<exists>r. cl_call st c = Some r \<and> \<not> rc_terminal r \<and> \<not> rc_closed r")
  case True
  then obtain r where r: "cl_call st c = Some r" "\<not> rc_terminal r" "\<not> rc_closed r" by blast
  have ok: "map_of (cl_pending st) (rc_key r) = Some c \<and> map_of (cl_cancelling st) (rc_key r) = None \<and> rc_outcome r = None"
    by (rule call_ok_open [OF calls_inv_ok [OF assms(1) r(1)] r(3,2)])
  show ?thesis using ok assms(2) unfolding close_and_cancel_result [OF assms(1) r]
    by (intro calls_inv_change [OF assms(1) r(1),
            where r' = "r\<lparr>rc_closed := True, rc_queue := [End_mark], rc_watched := False\<rparr>"] call_ok_cancelling)
      (simp_all add: update_conv' r)
qed (use assms in \<open>auto simp: close_and_cancel_def split: option.split\<close>)

lemma call_ok_same:
  assumes "call_ok st c r" "rc_key r' = rc_key r" "rc_closed r' = rc_closed r" "rc_terminal r' = rc_terminal r"
    "rc_outcome r' = rc_outcome r" "set (rc_queue r') \<subseteq> set (rc_queue r)"
    "cl_pending st' = cl_pending st" "cl_cancelling st' = cl_cancelling st" "cl_opening st' = cl_opening st"
  shows "call_ok st' c r'"
  using assms unfolding call_ok_def by (auto simp: list_all_iff split: option.splits)

text \<open>A change of the failure only.\<close>

lemma calls_inv_failure:
  assumes "calls_inv st"
  shows "calls_inv (on_call c (\<lambda>r. r\<lparr>rc_failure := x\<rparr>) st)"
proof (cases "cl_call st c")
  case (Some r)
  then show ?thesis
    by (intro calls_inv_change [OF assms Some, where r' = "r\<lparr>rc_failure := x\<rparr>"] call_ok_same [OF calls_inv_ok [OF assms Some]])
      simp_all
next
  case None
  then show ?thesis by (intro calls_inv_same [OF assms]) (simp_all add: on_call_def fun_upd_idem)
qed

lemma take_entry_fields [simp]:
  "rc_key (snd (take_entry x r)) = rc_key r" "rc_terminal (snd (take_entry x r)) = rc_terminal r"
  "rc_outcome (snd (take_entry x r)) = rc_outcome r" "rc_queue (snd (take_entry x r)) = rc_queue r"
  "rc_closed (snd (take_entry x r)) \<longleftrightarrow> rc_closed r \<or> \<not> (case x of Piece _ \<Rightarrow> True | _ \<Rightarrow> False)"
  by (auto simp: take_entry_def split: rentry.split option.split)

lemma calls_inv_take:
  assumes "calls_inv st" "cl_call st c = Some r" "rc_queue r = x # q"
  shows "calls_inv (st\<lparr>cl_call := (cl_call st)(c \<mapsto> snd (take_entry x (r\<lparr>rc_queue := q\<rparr>)))\<rparr>)"
proof (rule calls_inv_change [OF assms(1,2)])
  have ok: "call_ok st c r" by (rule calls_inv_ok [OF assms(1,2)])
  then have "\<not> rc_closed r \<Longrightarrow> case x of Piece _ \<Rightarrow> True | _ \<Rightarrow> False" using assms(3) by (simp add: call_ok_def)
  then show "call_ok (st\<lparr>cl_call := (cl_call st)(c \<mapsto> snd (take_entry x (r\<lparr>rc_queue := q\<rparr>)))\<rparr>) c
      (snd (take_entry x (r\<lparr>rc_queue := q\<rparr>)))"
    by (intro call_ok_same [OF ok]) (auto simp: assms(3))
qed simp_all

lemma calls_inv_next:
  assumes "calls_inv st" "c \<notin> cl_opening st"
  shows "calls_inv (snd (call_next now c st))"
proof (cases "cl_call st c")
  case (Some r)
  show ?thesis
    using assms(1) calls_inv_cancel [OF assms] calls_inv_failure [OF assms(1), of c None] calls_inv_take [OF assms(1) Some]
    by (simp add: call_next_def Some Let_def split: option.split list.split prod.split) (metis snd_conv)
qed (simp add: call_next_def assms)

lemma calls_inv_expired:
  assumes "calls_inv st" "c \<notin> cl_opening st"
  shows "calls_inv (snd (deadline_expired c st))"
  using assms calls_inv_cancel [OF calls_inv_failure [OF assms(1), of c "Some FitzTimeoutError"], of c]
  by (auto simp: deadline_expired_def split: option.split)

lemma calls_inv_open:
  assumes "calls_inv st" "cl_call st c = None" "key_unused key st"
  shows "calls_inv (open_call c key deadline capacity st)"
proof -
  let ?st = "open_call c key deadline capacity st"
  have absent: "map_of (cl_pending st) key = None" "map_of (cl_cancelling st) key = None"
    using assms(3) calls_inv_table [OF assms(1)] by (metis key_unused_def option.exhaust)+
  have "call_ok ?st d r" if "cl_call ?st d = Some r" for d r
  proof (cases "d = c")
    case True
    then show ?thesis using that absent by (auto simp: open_call_def call_ok_def fresh_call_def update_conv')
  next
    case False
    then have d: "cl_call st d = Some r" using that by (simp add: open_call_def)
    then have "rc_key r \<noteq> key" using assms(3) by (simp add: key_unused_def)
    then show ?thesis using calls_inv_ok [OF assms(1) d] False
      by (auto simp: open_call_def call_ok_def update_conv' split: option.splits)
  qed
  moreover have "d = e" if "cl_call ?st d = Some a" "cl_call ?st e = Some b" "rc_key a = rc_key b" for d e a b
  proof -
    have new: "rc_key q \<noteq> key" if "cl_call st x = Some q" for x q using assms(3) that by (simp add: key_unused_def)
    show ?thesis using that new [of d a] new [of e b] calls_inv_key [OF assms(1), of d a e b]
      by (cases "d = c"; cases "e = c") (auto simp: open_call_def fresh_call_def)
  qed
  moreover have "\<exists>r. cl_call ?st d = Some r \<and> rc_key r = k"
    if "map_of (cl_pending ?st) k = Some d \<or> map_of (cl_cancelling ?st) k = Some d" for k d
  proof (cases "k = key")
    case True
    then show ?thesis using that absent by (auto simp: open_call_def update_conv' fresh_call_def)
  next
    case False
    then have "map_of (cl_pending st) k = Some d \<or> map_of (cl_cancelling st) k = Some d"
      using that by (simp add: open_call_def update_conv')
    then obtain a where "cl_call st d = Some a" "rc_key a = k" by (rule calls_inv_table [OF assms(1)])
    then show ?thesis using assms(2) by (auto simp: open_call_def)
  qed
  ultimately show ?thesis unfolding calls_inv_def by blast
qed

lemma calls_inv_opened:
  assumes "calls_inv st"
  shows "calls_inv (call_opened c st)"
proof (cases "cl_call st c")
  case (Some r)
  have ok: "call_ok st c r" by (rule calls_inv_ok [OF assms Some])
  have "call_ok (st\<lparr>cl_opening := cl_opening st - {c}\<rparr>) c r" using ok by (auto simp: call_ok_def split: option.splits)
  then have "call_ok (call_opened c st) c (r\<lparr>rc_watched := True\<rparr>)"
    by (rule call_ok_same) (simp_all add: call_opened_def Some)
  then show ?thesis
    by (intro calls_inv_change [OF assms Some, where r' = "r\<lparr>rc_watched := True\<rparr>"]) (auto simp: call_opened_def Some)
next
  case None
  then show ?thesis by (intro calls_inv_same [OF assms]) (auto simp: call_opened_def on_call_def fun_upd_idem)
qed

lemma calls_inv_open_failed:
  assumes "calls_inv st" "c \<in> cl_opening st"
  shows "calls_inv (open_failed_call c st)"
proof (cases "cl_call st c")
  case (Some r)
  let ?st = "open_failed_call c st"
  have st: "cl_call ?st = (cl_call st)(c := None)" "map_of (cl_pending ?st) = (map_of (cl_pending st))(rc_key r := None)"
    "cl_cancelling ?st = cl_cancelling st" "cl_opening ?st = cl_opening st - {c}"
    by (simp_all add: open_failed_call_def Some delete_conv')
  have here: "map_of (cl_cancelling st) (rc_key r) = None" "map_of (cl_pending st) (rc_key r) \<in> {None, Some c}"
    using calls_inv_ok [OF assms(1) Some] assms(2) by (auto simp: call_ok_def split: option.splits)
  have "call_ok ?st d a" if "cl_call ?st d = Some a" for d a
  proof -
    have d: "cl_call st d = Some a" "d \<noteq> c" using that by (auto simp: st split: if_splits)
    then have "rc_key a \<noteq> rc_key r" using calls_inv_key [OF assms(1) d(1) Some] by auto
    then show ?thesis using calls_inv_ok [OF assms(1) d(1)] by (auto simp: call_ok_def st split: option.splits)
  qed
  moreover have "d = e" if "cl_call ?st d = Some a" "cl_call ?st e = Some b" "rc_key a = rc_key b" for d e a b
    using that calls_inv_key [OF assms(1)] by (auto simp: st split: if_splits)
  moreover have "\<exists>a. cl_call ?st d = Some a \<and> rc_key a = k"
    if "map_of (cl_pending ?st) k = Some d \<or> map_of (cl_cancelling ?st) k = Some d" for k d
  proof -
    have k: "k \<noteq> rc_key r" using that here by (auto simp: st)
    then have "map_of (cl_pending st) k = Some d \<or> map_of (cl_cancelling st) k = Some d" using that by (simp add: st)
    then obtain a where "cl_call st d = Some a" "rc_key a = k" by (rule calls_inv_table [OF assms(1)])
    then show ?thesis using k Some by (auto simp: st)
  qed
  ultimately show ?thesis unfolding calls_inv_def by blast
qed (simp add: open_failed_call_def assms)

text \<open>A lost connection: first all pending calls fail, then all cancellations end.\<close>

lemma fail_all_pending:
  assumes "calls_inv st" "\<And>k d. map_of (cl_pending st) k = Some d \<Longrightarrow> d \<in> set cs"
  shows "calls_inv (fold (call_fail e True) cs st) \<and> map_of (cl_pending (fold (call_fail e True) cs st)) = Map.empty \<and>
    cl_cancelling (fold (call_fail e True) cs st) = cl_cancelling st"
  using assms
proof (induction cs arbitrary: st)
  case Nil
  then have "map_of (cl_pending st) k = None" for k by (cases "map_of (cl_pending st) k") auto
  then show ?case using Nil by (auto simp: fun_eq_iff)
next
  case (Cons c cs)
  let ?st = "call_fail e True c st"
  have inv: "calls_inv ?st" by (rule calls_inv_fail [OF Cons.prems(1)])
  have rest: "cl_cancelling ?st = cl_cancelling st \<and> (\<forall>k d. map_of (cl_pending ?st) k = Some d \<longrightarrow>
      map_of (cl_pending st) k = Some d \<and> d \<noteq> c)"
  proof (cases "\<exists>r. cl_call st c = Some r \<and> \<not> rc_closed r")
    case True
    then obtain r where r: "cl_call st c = Some r" "\<not> rc_closed r" by blast
    have mine: "map_of (cl_pending st) k = Some c \<Longrightarrow> k = rc_key r" for k
      using calls_inv_table [OF Cons.prems(1) disjI1, of k c] r(1) by auto
    show ?thesis unfolding call_fail_result [OF r] by (auto dest: mine split: if_splits)
  next
    case False
    then have "map_of (cl_pending st) k \<noteq> Some c" for k
      using calls_inv_table [OF Cons.prems(1), of k c] call_ok_closed calls_inv_ok [OF Cons.prems(1)]
      by (metis option.distinct(1))
    then show ?thesis using False by (auto simp: call_fail_def split: option.split)
  qed
  show ?case using Cons.IH [OF inv] rest Cons.prems(2) by fastforce
qed

lemma on_calls_fold:
  assumes "\<And>r. f (f r) = f r"
  shows "fold (\<lambda>c. on_call c f) cs st =
    st\<lparr>cl_call := \<lambda>c. if c \<in> set cs then map_option f (cl_call st c) else cl_call st c\<rparr>"
proof (induction cs arbitrary: st)
  case (Cons c cs)
  have "map_option f (map_option f x) = map_option f x" for x by (cases x) (simp_all add: assms)
  then show ?case by (simp add: Cons.IH) (simp add: on_call_def fun_eq_iff)
qed simp

lemma set_outcome_idem [simp]: "set_outcome x (set_outcome x r) = set_outcome x r"
  by (simp add: set_outcome_def)

lemma calls_disconnect_tables [simp]:
  "cl_pending (calls_disconnect st) = []" "cl_cancelling (calls_disconnect st) = []"
  by (simp_all add: calls_disconnect_def on_calls_fold Let_def)

lemma calls_disconnect_settles:
  assumes "calls_inv st" "cl_call (calls_disconnect st) c = Some r"
  shows "rc_outcome r \<noteq> None \<and> (rc_closed r \<or> rc_terminal r)"
proof -
  let ?failed = "fold (call_fail FitzConnectionError True) (map snd (cl_pending st)) st"
  have f: "calls_inv ?failed" "map_of (cl_pending ?failed) = Map.empty"
    using fail_all_pending [OF assms(1), of "map snd (cl_pending st)"] by (force dest: map_of_SomeD)+
  obtain q where q: "cl_call ?failed c = Some q"
    "r = (if c \<in> set (map snd (cl_cancelling ?failed)) then set_outcome Connection_closed q else q)"
    using assms(2) by (auto simp: calls_disconnect_def on_calls_fold Let_def split: if_splits)
  have "map_of (cl_cancelling ?failed) (rc_key q) = Some c \<Longrightarrow> c \<in> set (map snd (cl_cancelling ?failed))"
    by (force dest: map_of_SomeD)
  then show "rc_outcome r \<noteq> None \<and> (rc_closed r \<or> rc_terminal r)"
    using calls_inv_ok [OF f(1) q(1)] f(2) q(2) by (auto simp: call_ok_def split: option.splits if_splits)
qed

lemma calls_inv_disconnect:
  assumes "calls_inv st"
  shows "calls_inv (calls_disconnect st)"
proof -
  let ?failed = "fold (call_fail FitzConnectionError True) (map snd (cl_pending st)) st"
  have f: "calls_inv ?failed" using fail_all_pending [OF assms, of "map snd (cl_pending st)"] by (force dest: map_of_SomeD)
  have same: "\<exists>q. cl_call ?failed c = Some q \<and> rc_key q = rc_key r \<and> rc_closed q = rc_closed r \<and> rc_queue q = rc_queue r"
    if "cl_call (calls_disconnect st) c = Some r" for c r
    using that by (auto simp: calls_disconnect_def on_calls_fold set_outcome_def Let_def split: if_splits)
  have "call_ok (calls_disconnect st) c r" if r: "cl_call (calls_disconnect st) c = Some r" for c r
  proof (rule call_ok_settled)
    show "list_all (case_rentry (\<lambda>_. True) (\<lambda>_. False) False) (rc_queue r)" if "\<not> rc_closed r"
    proof -
      obtain q where q: "cl_call ?failed c = Some q" "rc_closed q = rc_closed r" "rc_queue q = rc_queue r"
        using same [OF r] by blast
      show ?thesis using calls_inv_ok [OF f q(1)] q(2,3) that by (simp add: call_ok_def)
    qed
  qed (use calls_disconnect_settles [OF assms r] in simp_all)
  moreover have "c = d" if "cl_call (calls_disconnect st) c = Some r" "cl_call (calls_disconnect st) d = Some q" "rc_key r = rc_key q" for c r d q
    using same [OF that(1)] same [OF that(2)] that(3) calls_inv_key [OF f] by metis
  ultimately show ?thesis by (auto simp: calls_inv_def)
qed

lemma calls_inv_step: "call_step st st' \<Longrightarrow> calls_inv st \<Longrightarrow> calls_inv st'"
proof (induction rule: call_step.induct)
  case (lifecycle st data)
  then show ?case using calls_inv_settle by (auto simp: caller_lifecycle_def split: option.split)
next
  case (sent st key how)
  then show ?case using calls_inv_settle by (auto simp: cancel_sent_def split: option.split)
next
  case (interrupted c st e)
  then show ?case using calls_inv_cancel by (simp add: next_interrupted_def)
qed (auto intro: calls_inv_open calls_inv_opened calls_inv_open_failed calls_inv_response calls_inv_cancel
    calls_inv_settle calls_inv_expired calls_inv_next calls_inv_disconnect)

lemma call_reach_inv: "call_reach st \<Longrightarrow> calls_inv st"
  by (induction rule: call_reach.induct) (auto intro: calls_inv_start calls_inv_step)

section \<open>Properties\<close>

lemma call_fail_keeps:
  "cl_call st d = Some r \<Longrightarrow> \<exists>q. cl_call (call_fail e preserve c st) d = Some q \<and> rc_key q = rc_key r"
  by (cases "\<exists>r. cl_call st c = Some r \<and> \<not> rc_closed r")
    (auto simp: call_fail_result failed_record_def, auto simp: call_fail_def split: option.split)

lemma calls_disconnect_keeps:
  assumes "cl_call st d = Some r"
  shows "\<exists>q. cl_call (calls_disconnect st) d = Some q \<and> rc_key q = rc_key r"
proof -
  have "\<exists>q. cl_call (fold (call_fail e True) cs st) d = Some q \<and> rc_key q = rc_key r" for e cs
    using assms
  proof (induction cs arbitrary: st r)
    case (Cons c cs)
    then show ?case using call_fail_keeps [OF Cons.prems, of e True c] by fastforce
  qed simp
  from this [of FitzConnectionError "map snd (cl_pending st)"] show ?thesis
    by (force simp: calls_disconnect_def on_calls_fold Let_def)
qed

text \<open>
  C26. On every reachable state a call is pending and open, or closed with its cancellation under
  way, or over with its outcome settled; and a lost connection settles every call.
\<close>

lemma rpc_call_accounted:
  assumes "call_reach st" "cl_call st c = Some r"
  shows "(case (map_of (cl_pending st) (rc_key r), map_of (cl_cancelling st) (rc_key r)) of
      (Some d, None) \<Rightarrow> d = c \<and> \<not> rc_closed r \<and> \<not> rc_terminal r \<and> rc_outcome r = None
    | (None, Some d) \<Rightarrow> d = c \<and> rc_closed r \<and> rc_outcome r = None
    | (None, None) \<Rightarrow> (rc_closed r \<or> rc_terminal r) \<and> rc_outcome r \<noteq> None
    | _ \<Rightarrow> False) \<and>
    (\<exists>q. cl_call (calls_disconnect st) c = Some q \<and> rc_key q = rc_key r \<and> rc_outcome q \<noteq> None \<and>
      (rc_closed q \<or> rc_terminal q))"
proof (rule conjI)
  have inv: "calls_inv st" by (rule call_reach_inv [OF assms(1)])
  show "case (map_of (cl_pending st) (rc_key r), map_of (cl_cancelling st) (rc_key r)) of
      (Some d, None) \<Rightarrow> d = c \<and> \<not> rc_closed r \<and> \<not> rc_terminal r \<and> rc_outcome r = None
    | (None, Some d) \<Rightarrow> d = c \<and> rc_closed r \<and> rc_outcome r = None
    | (None, None) \<Rightarrow> (rc_closed r \<or> rc_terminal r) \<and> rc_outcome r \<noteq> None
    | _ \<Rightarrow> False"
    using calls_inv_ok [OF inv assms(2)] by (auto simp: call_ok_def split: option.splits)
  obtain q where q: "cl_call (calls_disconnect st) c = Some q" "rc_key q = rc_key r"
    using calls_disconnect_keeps [OF assms(2)] by blast
  show "\<exists>q. cl_call (calls_disconnect st) c = Some q \<and> rc_key q = rc_key r \<and> rc_outcome q \<noteq> None \<and>
      (rc_closed q \<or> rc_terminal q)"
    using q calls_disconnect_settles [OF inv q(1)] by blast
qed

definition open_run :: calls where
  "open_run = call_opened 0 (open_call 0 (replicate 16 1) (Some 30) 64 no_calls)"

lemma open_run:
  "call_reach open_run" "cl_call open_run 0 = Some (fresh_call (replicate 16 1) (Some 30) 64\<lparr>rc_watched := True\<rparr>)"
proof -
  have "call_step no_calls (open_call 0 (replicate 16 1) (Some 30) 64 no_calls)"
    by (rule call_step.opens) (simp_all add: no_calls_def key_unused_def)
  moreover have "call_step (open_call 0 (replicate 16 1) (Some 30) 64 no_calls) open_run"
    unfolding open_run_def by (rule call_step.opened) (simp add: open_call_def)
  ultimately show "call_reach open_run" by (meson call_reach.intros)
qed (simp add: open_run_def call_opened_def open_call_def)

lemma rpc_call_accounted_witness:
  "(\<exists>q. cl_call (calls_disconnect open_run) 0 = Some q \<and> rc_key q = replicate 16 1 \<and> rc_outcome q \<noteq> None \<and>
     (rc_closed q \<or> rc_terminal q)) \<and> map_of (cl_pending open_run) (replicate 16 1) = Some 0"
proof -
  have "map_of (cl_pending open_run) (replicate 16 1) = Some 0"
    by (simp add: open_run_def call_opened_def open_call_def update_conv')
  moreover have "rc_key (fresh_call (replicate 16 1) (Some 30) 64\<lparr>rc_watched := True\<rparr>) = replicate 16 1"
    by (simp add: fresh_call_def)
  ultimately show ?thesis using rpc_call_accounted [OF open_run] by simp
qed

end
