(* ===== verification/Rpc_Proofs.thy ===== *)
theory Rpc_Proofs
  imports Rpc_Calls Codec
begin

text \<open>
  What callers and workers can rely on: which worker a request reaches, that payloads are read back
  as they were written, and that a caller reads exactly the stream of frames, or the error, that
  the worker's writer sent.
\<close>

section \<open>The choice of a worker\<close>

definition segment_matches :: "ustr \<Rightarrow> ustr \<Rightarrow> bool" where
  "segment_matches p r \<longleftrightarrow> p = star \<or> p = r"

text \<open>Segment by segment up to the first double star, which takes the rest.\<close>

lemma match_parts_spec:
  "match_parts rs ps \<longleftrightarrow>
    (let qs = takeWhile (\<lambda>p. p \<noteq> dstar) ps in
     (\<exists>front rest. rs = front @ rest \<and> list_all2 segment_matches qs front \<and> (dstar \<in> set ps \<or> rest = [])))"
proof (induction rs ps rule: match_parts.induct)
  case (2 rs p ps)
  show ?case
  proof (cases "p = dstar")
    case False
    show ?thesis
    proof (cases rs)
      case (Cons r rs')
      have "(\<exists>front rest. r # rs' = front @ rest \<and> list_all2 segment_matches (p # qs) front \<and> Q rest) \<longleftrightarrow>
          segment_matches p r \<and> (\<exists>front rest. rs' = front @ rest \<and> list_all2 segment_matches qs front \<and> Q rest)" for qs Q
        by (auto simp: list_all2_Cons1 Cons_eq_append_conv)
      moreover have "match_parts rs (p # ps) \<longleftrightarrow> segment_matches p r \<and> match_parts rs' ps"
        using False Cons by (simp add: segment_matches_def)
      moreover have "takeWhile (\<lambda>p. p \<noteq> dstar) (p # ps) = p # takeWhile (\<lambda>p. p \<noteq> dstar) ps" "dstar \<in> set (p # ps) \<longleftrightarrow> dstar \<in> set ps"
        using False by auto
      ultimately show ?thesis using 2 [OF False Cons] unfolding Cons Let_def by presburger
    qed (use False in \<open>simp add: list_all2_Cons1\<close>)
  qed simp
qed (simp add: Let_def)

lemma first_max_spec:
  "first_max key best xs \<in> set (best # xs) \<and> (\<forall>x\<in>set (best # xs). key x \<le> key (first_max key best xs))"
proof (induction xs arbitrary: best)
  case (Cons x xs)
  show ?case using Cons.IH [of x] Cons.IH [of best] by (cases "key best < key x") (auto intro: order_trans)
qed simp

text \<open>
  A request goes to a registered worker whose pattern matches and is of the highest
  specificity among the matching ones, and to nobody exactly when no pattern matches.
\<close>

lemma rpc_best_worker:
  "case best_worker route ws of
     None \<Rightarrow> \<forall>(p, r)\<in>set ws. \<not> matches route p
   | Some r \<Rightarrow> \<exists>p. (p, r) \<in> set ws \<and> matches route p \<and>
       (\<forall>(q, r')\<in>set ws. matches route q \<longrightarrow> specificity q \<le> specificity p)"
proof (cases "filter (\<lambda>(p, _). matches route p) ws")
  case Nil
  then show ?thesis by (auto simp: best_worker_def filter_empty_conv)
next
  case (Cons m ms)
  let ?key = "\<lambda>(p, _). specificity p"
  obtain p r where b: "first_max ?key m ms = (p, r)" by fastforce
  have "set (m # ms) = {x \<in> set ws. matches route (fst x)}"
    using arg_cong [OF Cons, of set] by (auto simp: case_prod_beta)
  then have "(p, r) \<in> set ws" "matches route p" "\<forall>x\<in>set ws. matches route (fst x) \<longrightarrow> specificity (fst x) \<le> specificity p"
    using first_max_spec [of ?key m ms] unfolding b by (auto simp: case_prod_beta)
  moreover have "best_worker route ws = Some r" by (simp add: best_worker_def Cons b)
  ultimately show ?thesis by fastforce
qed

section \<open>Payloads\<close>

lemma reads_key: "length key = 16 \<Longrightarrow> reads (read_bytes 16) [Raw key] key"
  by (rule reads_by_bind) auto

lemma decodes_then: "decodes m ops x \<Longrightarrow> decodes (f x) [] y \<Longrightarrow> decodes (rd_bind m f) ops y"
  unfolding decodes_def by (auto simp: rd_bind_Inr)

lemma decode_response_written:
  assumes "build_payload (response_fields key seq fin body) = Inr p" "length key = 16"
  shows "decode_response p = Inr (key, seq, of_bool fin, body)"
proof -
  have "decodes (rd_bind read_u64_be (\<lambda>seq. rd_bind read_u8 (\<lambda>flgs.
      if flgs AND NOT 1 \<noteq> 0 then rd_raise (bad RPC ''INVALID_RESPONSE'')
      else rd_bind read_blob (\<lambda>body. rd_bind (expect_eof (bad RPC ''INVALID_RESPONSE'')) (\<lambda>_.
        rd_return (key, seq, flgs, body))))))
      ([U64 seq, U8 (of_bool fin)] @ blob body) (key, seq, of_bool fin, body)"
    by (cases fin) (auto intro!: codec)
  then have "decodes (rd_bind (read_bytes 16) (\<lambda>key. rd_bind read_u64_be (\<lambda>seq. rd_bind read_u8 (\<lambda>flgs.
      if flgs AND NOT 1 \<noteq> 0 then rd_raise (bad RPC ''INVALID_RESPONSE'')
      else rd_bind read_blob (\<lambda>body. rd_bind (expect_eof (bad RPC ''INVALID_RESPONSE'')) (\<lambda>_.
        rd_return (key, seq, flgs, body)))))))
      ([Raw key] @ ([U64 seq, U8 (of_bool fin)] @ blob body)) (key, seq, of_bool fin, body)"
    by (rule decodes_bind [OF reads_key [OF assms(2)]])
  moreover have "build_payload ([Raw key] @ ([U64 seq, U8 (of_bool fin)] @ blob body)) = Inr p"
    using assms(1) by (simp add: response_fields_def blob_def)
  ultimately show ?thesis unfolding decode_response_def by (rule decodes_run)
qed

lemma budget_written:
  assumes "budget_fields budget = Inr ops"
  shows "decodes read_budget ops budget"
  using assms by (auto simp: decodes_def read_budget_def budget_fields_def bind_r_Inr_iff pack_Inr_iff
      be_bytes_0_1 split: option.splits if_splits)

lemma decode_request_written:
  assumes "request_payload key route body budget = Inr p" "length key = 16"
  shows "decode_request p = Inr (key, route, body, budget)"
proof -
  obtain ops where b: "budget_fields budget = Inr ops"
    and p: "build_payload ([Raw key] @ ([Route route] @ (blob body @ ops))) = Inr p"
    using assms(1) by (auto simp: request_payload_def bind_r_Inr_iff blob_def)
  have "decodes read_request ([Raw key] @ ([Route route] @ (blob body @ ops))) (key, route, body, budget)"
    unfolding read_request_def
    by (intro decodes_bind [OF reads_key [OF assms(2)]] decodes_bind [OF reads_fields(6)] decodes_bind [OF reads_fields(8)]
        decodes_then [OF budget_written [OF b]]) (auto intro: codec)
  then have "decodes (rd_bind read_request (\<lambda>x. rd_bind (expect_eof (bad RPC ''INVALID_RESPONSE'')) (\<lambda>_. rd_return x)))
      ([Raw key] @ ([Route route] @ (blob body @ ops))) (key, route, body, budget)"
    by (rule decodes_then) (auto intro: codec)
  then show ?thesis unfolding decode_request_def by (rule decodes_run [OF _ p])
qed

section \<open>From a worker's writer to the caller\<close>

text \<open>A handler that answers with these bodies, and a caller that reads \<open>n\<close> times.\<close>

fun write_all :: "'s link \<Rightarrow> bytes list \<Rightarrow> (rwriter \<times> 's, unit) io" where
  "write_all lk [] = io_return ()"
| "write_all lk [b] = writer_send lk b True"
| "write_all lk (b # bs) = io_then (writer_send lk b False) (write_all lk bs)"

fun read_calls :: "rat \<Rightarrow> nat \<Rightarrow> nat \<Rightarrow> calls \<Rightarrow> next_end list" where
  "read_calls now c 0 st = []"
| "read_calls now c (Suc n) st = (let (a, st) = call_next now c st in a # read_calls now c n st)"

definition responses_heard :: "sent \<Rightarrow> calls \<Rightarrow> calls" where
  "responses_heard = fold (\<lambda>(_, _, p) st. snd (on_response p st))"

fun numbered :: "int \<Rightarrow> bytes list \<Rightarrow> response_frame list" where
  "numbered n [] = []"
| "numbered n (b # bs) = \<lparr>rf_body = b, rf_sequence = n\<rparr> # numbered (n + 1) bs"

lemma numbered_length [simp]: "length (numbered n bs) = length bs"
  by (induction bs arbitrary: n) auto

lemma writer_send_traced:
  assumes "writer_send (traced ack_link) body fin (w, (), l) = (Inr (), st)"
  shows "\<exists>p. build_payload (response_fields (rw_key w) (rw_sequence w) fin body) = Inr p \<and>
    st = (w\<lparr>rw_sequence := rw_sequence w + 1, rw_ended := fin\<rparr>, (), l @ [(1, MSG_RPC_RESPONSE, p)])"
  using assms
  by (cases "build_payload (response_fields (rw_key w) (rw_sequence w) fin body)")
    (auto simp: writer_send_def io_bind_def ack_link_def hear_def split: if_splits)

text \<open>A call that can still be read from.\<close>

definition readable :: "calls \<Rightarrow> nat \<Rightarrow> rpc_call \<Rightarrow> bool" where
  "readable st c r \<longleftrightarrow> cl_call st c = Some r \<and> map_of (cl_pending st) (rc_key r) = Some c \<and> length (rc_key r) = 16 \<and>
     \<not> rc_closed r \<and> \<not> rc_terminal r \<and> rc_failure r = None"

lemma on_response_piece:
  assumes "readable st c r" "build_payload (response_fields (rc_key r) seq fin body) = Inr p"
    and "fin \<Longrightarrow> decode_terminal_error body = Inr None"
  shows "on_response p st = (None, call_push \<lparr>rf_body = body, rf_sequence = seq\<rparr> fin c st)"
  using assms by (cases fin) (simp_all add: readable_def on_response_def decode_response_written)

lemma call_push_piece:
  assumes "readable st c r" "queue_room r"
  shows "readable (call_push f False c st) c (r\<lparr>rc_queue := rc_queue r @ [Piece f]\<rparr>)"
    and "\<exists>r'. cl_call (call_push f True c st) c = Some r' \<and> rc_queue r' = rc_queue r @ [Piece f] \<and> rc_terminal r' \<and>
      \<not> rc_closed r' \<and> rc_failure r' = None \<and> rc_deadline r' = rc_deadline r"
  using assms by (auto simp: readable_def call_push_def finish_call_result set_outcome_def Let_def)

lemma write_all_received:
  assumes "write_all (traced ack_link) bodies (w, (), l) = (Inr (), w', (), l')" "bodies \<noteq> []"
    and "readable st c r" "rw_key w = rc_key r" "decode_terminal_error (last bodies) = Inr None"
    and "rc_capacity r \<le> 0 \<or> int (length (rc_queue r) + length bodies) \<le> rc_capacity r"
  shows "\<exists>sent r'. l' = l @ sent \<and> cl_call (responses_heard sent st) c = Some r' \<and>
    rc_queue r' = rc_queue r @ map Piece (numbered (rw_sequence w) bodies) \<and> rc_terminal r' \<and>
    \<not> rc_closed r' \<and> rc_failure r' = None \<and> rc_deadline r' = rc_deadline r"
  using assms
proof (induction "traced ack_link" bodies arbitrary: w l st r rule: write_all.induct)
  case (2 b)
  obtain p where p: "build_payload (response_fields (rw_key w) (rw_sequence w) True b) = Inr p"
    "l' = l @ [(1, MSG_RPC_RESPONSE, p)]"
    using writer_send_traced [of b True w l] 2(1) by auto
  have "queue_room r" using 2 by (auto simp: queue_room_def)
  from call_push_piece(2) [OF 2(3) this] show ?case
    using on_response_piece [OF 2(3), of "rw_sequence w" True b p] p 2
    by (intro exI [of _ "[(1, MSG_RPC_RESPONSE, p)]"]) (simp add: responses_heard_def)
next
  case (3 b b' bs)
  obtain w1 l1 where w1: "writer_send (traced ack_link) b False (w, (), l) = (Inr (), w1, (), l1)"
    "write_all (traced ack_link) (b' # bs) (w1, (), l1) = (Inr (), w', (), l')"
    using 3(2) by (auto simp: io_bind_Inr_iff)
  obtain p where p: "build_payload (response_fields (rw_key w) (rw_sequence w) False b) = Inr p"
    "w1 = w\<lparr>rw_sequence := rw_sequence w + 1, rw_ended := False\<rparr>" "l1 = l @ [(1, MSG_RPC_RESPONSE, p)]"
    using writer_send_traced [OF w1(1)] by auto
  let ?f = "\<lparr>rf_body = b, rf_sequence = rw_sequence w\<rparr>"
  let ?st = "call_push ?f False c st" and ?r = "r\<lparr>rc_queue := rc_queue r @ [Piece ?f]\<rparr>"
  have "queue_room r" using 3 by (auto simp: queue_room_def)
  then have r: "readable ?st c ?r" by (rule call_push_piece(1) [OF 3(4)])
  have step: "on_response p st = (None, ?st)"
    using on_response_piece [OF 3(4), of "rw_sequence w" False b p] p 3(5) by simp
  obtain sent r' where "l' = l1 @ sent" "cl_call (responses_heard sent ?st) c = Some r'"
    "rc_queue r' = rc_queue ?r @ map Piece (numbered (rw_sequence w1) (b' # bs))" "rc_terminal r'" "\<not> rc_closed r'"
    "rc_failure r' = None" "rc_deadline r' = rc_deadline ?r"
    using 3(1) [OF w1(2) _ r] 3(5-7) p(2) by auto
  then show ?case using step p
    by (intro exI [of _ "(1, MSG_RPC_RESPONSE, p) # sent"]) (auto simp: responses_heard_def)
qed simp

text \<open>Reading until the end.\<close>

lemma call_next_piece:
  assumes "cl_call st c = Some r" "rc_queue r = Piece f # q" "\<not> overdue (rc_deadline r) now"
  shows "call_next now c st = (Yielded f, st\<lparr>cl_call := (cl_call st)(c \<mapsto> r\<lparr>rc_queue := q\<rparr>)\<rparr>)"
  using assms by (simp add: call_next_def take_entry_def split: option.split)

lemma read_pieces:
  assumes "cl_call st c = Some r" "rc_queue r = map Piece fs @ q" "\<not> overdue (rc_deadline r) now"
  shows "\<exists>st'. read_calls now c (length fs + n) st = map Yielded fs @ read_calls now c n st' \<and>
    cl_call st' c = Some (r\<lparr>rc_queue := q\<rparr>)"
  using assms
proof (induction fs arbitrary: st r)
  case Nil
  then have "r\<lparr>rc_queue := q\<rparr> = r" by simp
  then show ?case using Nil by auto
next
  case (Cons f fs)
  let ?r = "r\<lparr>rc_queue := map Piece fs @ q\<rparr>"
  have "\<exists>st'. read_calls now c (length fs + n) (st\<lparr>cl_call := (cl_call st)(c \<mapsto> ?r)\<rparr>) = map Yielded fs @ read_calls now c n st' \<and>
      cl_call st' c = Some (?r\<lparr>rc_queue := q\<rparr>)"
    using Cons.prems by (intro Cons.IH) simp_all
  then show ?case using call_next_piece [OF Cons.prems(1) _ Cons.prems(3), of f "map Piece fs @ q"] Cons.prems(2) by simp
qed


definition demo_writer :: rwriter where
  "demo_writer = new_writer_for ack_link (replicate 16 1) ()"

lemma demo_readable: "readable open_run 0 (fresh_call (replicate 16 1) (Some 30) 64\<lparr>rc_watched := True\<rparr>)"
  by (simp add: readable_def open_run fresh_call_def) (simp add: open_run_def call_opened_def open_call_def update_conv')


text \<open>
  The error of a worker: whatever the caller has not read yet comes first, then the error, once.
\<close>

lemma decode_error_written:
  assumes "build_payload (error_fields code message) = Inr body" "code \<in> {6005, 6006, 6007}"
  shows "decode_terminal_error body = Inr (Some (DomainError RPC ''CALL'' (Some code) (Some (code mod 1000))
    (Some (if code = 6005 then 0 else 1))))"
proof -
  let ?eff = "if code = 6005 then 0 else 1 :: int"
  obtain fld where f: "str_field message = Inr fld"
    "body = 1 # be_bytes 2 code @ be_bytes (Suc 0) (code mod 1000) @ be_bytes (Suc 0) ?eff @ fld"
    using assms by (auto simp: error_fields_def build_payload_spec bind_r_Inr_iff pack_Inr_iff be_bytes_0_1)
  have "4 \<le> length fld" using f(1) by (auto simp: str_field_Inr_iff)
  moreover have "parse_response body = Inr \<lparr>rs_data = [], rs_error_code = Some code, rs_error_class = Some (code mod 1000),
      rs_effect = Some ?eff, rs_error = Some message\<rparr>"
    unfolding f(2) by (rule parse_error) (use assms(2) f(1) in auto)
  ultimately show ?thesis using assms(2)
    by (auto simp: decode_terminal_error_def f(2) success_def rpc_code_def)
qed

lemma read_failed:
  assumes "cl_call st c = Some r" "rc_closed r" "\<not> overdue (rc_deadline r) now"
    and "rc_queue r = map Piece fs @ [Trouble e] \<and> rc_failure r = None \<or> rc_queue r = map Piece fs \<and> rc_failure r = Some e"
  shows "read_calls now c (length fs + 2) st = map Yielded fs @ [Raises e, Raises StopAsyncIteration]"
proof -
  obtain q where q: "rc_queue r = map Piece fs @ q" "q = [Trouble e] \<and> rc_failure r = None \<or> q = [] \<and> rc_failure r = Some e"
    using assms(4) by auto
  obtain st' where "read_calls now c (length fs + 2) st = map Yielded fs @ read_calls now c 2 st'"
    "cl_call st' c = Some (r\<lparr>rc_queue := q\<rparr>)"
    using read_pieces [OF assms(1) q(1) assms(3)] by blast
  then show ?thesis using assms(2,3) q(2)
    by (auto simp: numeral_2_eq_2 call_next_def take_entry_def split: option.split)
qed



lemma rpc_best_worker_witness:
  "best_worker (lit ''rpc://a/b'') [(lit ''rpc://a/**'', \<lparr>rg_handler = 0, rg_max = 1, rg_identity = 0\<rparr>)] \<noteq> None"
  using rpc_best_worker [where route = "lit ''rpc://a/b''" and ws = "[(lit ''rpc://a/**'', \<lparr>rg_handler = 0, rg_max = 1, rg_identity = 0\<rparr>)]"]
  by (cases "best_worker (lit ''rpc://a/b'') [(lit ''rpc://a/**'', \<lparr>rg_handler = 0, rg_max = 1, rg_identity = 0\<rparr>)]")
    (simp_all add: matches_def rpc_parts_def lit_def star_def dstar_def)

text \<open>
  Past the deadline the caller never gets what is already in its queue, although the call has
  ended and nothing is left to wait for: every read raises the timeout.
\<close>

lemma rpc_overdue_reads:
  assumes "cl_call st c = Some r" "rc_terminal r \<or> rc_closed r" "rc_queue r \<noteq> []" "overdue (rc_deadline r) now"
  shows "call_next now c st = (Raises FitzTimeoutError, st) \<and> read_calls now c n st = replicate n (Raises FitzTimeoutError)"
proof -
  have "call_next now c st = (Raises FitzTimeoutError, st)"
    using assms by (auto simp: call_next_def close_and_cancel_def split: option.split list.split)
  moreover from this have "read_calls now c n st = replicate n (Raises FitzTimeoutError)" by (induction n) simp_all
  ultimately show ?thesis by simp
qed

lemma rpc_overdue_reads_witness:
  "read_calls 31 0 2 (call_push \<lparr>rf_body = [7], rf_sequence = 0\<rparr> True 0 open_run) = [Raises FitzTimeoutError, Raises FitzTimeoutError]"
proof -
  obtain r where r: "cl_call (call_push \<lparr>rf_body = [7], rf_sequence = 0\<rparr> True 0 open_run) 0 = Some r"
    "rc_queue r = [Piece \<lparr>rf_body = [7], rf_sequence = 0\<rparr>]" "rc_terminal r" "rc_deadline r = Some 30"
    using call_push_piece(2) [OF demo_readable, of "\<lparr>rf_body = [7], rf_sequence = 0\<rparr>"]
    by (auto simp: queue_room_def fresh_call_def)
  show ?thesis using rpc_overdue_reads [OF r(1), of 31 2] r(2-4) by (simp add: overdue_def numeral_2_eq_2)
qed

end
