(* ===== verification/Rpc_Workers.thy ===== *)
theory Rpc_Workers
  imports Rpc
begin

text \<open>
  The invocations of an RPC worker: requests that arrive and are dispatched or refused, the slots
  of a registration's semaphore, the handler and the errors reported for it, cancellations by the
  broker and their acknowledgement, deadlines and lost connections. Each definition is the code
  between two awaits. An invocation is named by its index in \<open>sv_runs\<close>.
\<close>

section \<open>State\<close>

text \<open>
  \<open>_run_worker\<close> before it starts, at the semaphore, in the handler, sending an error under the
  semaphore, and over; \<open>Refused\<close> is the task that reports a locally saturated worker.
\<close>

datatype run_phase = Dispatched | Waiting_slot | Handling | Reporting int | Refused | Run_over

record invocation =
  in_key :: bytes
  in_worker :: nat
  in_deadline :: "rat option"
  in_timer :: bool
  in_cancelled :: bool
  in_requested :: bool
  in_started :: bool
  in_finished :: bool
  in_ended :: bool  \<comment> \<open>\<open>response.ended\<close>\<close>
  in_phase :: run_phase
  in_ack_tasks :: nat
  in_acked :: nat  \<comment> \<open>acknowledgements sent so far\<close>

record serving =
  sv_table :: workers
  sv_free :: "nat \<Rightarrow> int"  \<comment> \<open>the semaphores\<close>
  sv_max :: "nat \<Rightarrow> int"  \<comment> \<open>their widths\<close>
  sv_runs :: "invocation list"
  sv_active :: "(bytes \<times> nat) list"

definition no_serving :: serving where
  "no_serving = \<lparr>sv_table = [], sv_free = (\<lambda>_. 0), sv_max = (\<lambda>_. 0), sv_runs = [], sv_active = []\<rparr>"

definition on_run :: "nat \<Rightarrow> (invocation \<Rightarrow> invocation) \<Rightarrow> serving \<Rightarrow> serving" where
  "on_run n f st = (if n < length (sv_runs st) then st\<lparr>sv_runs := (sv_runs st)[n := f (sv_runs st ! n)]\<rparr> else st)"

definition is_active :: "nat \<Rightarrow> serving \<Rightarrow> bool" where
  "is_active n st \<longleftrightarrow> map_of (sv_active st) (in_key (sv_runs st ! n)) = Some n"

section \<open>Registrations\<close>

definition serve :: "ustr \<Rightarrow> registration \<Rightarrow> serving \<Rightarrow> serving" where
  "serve route r st = st\<lparr>sv_table := AList.update route r (sv_table st),
     sv_free := (sv_free st)(rg_identity r := rg_max r), sv_max := (sv_max st)(rg_identity r := rg_max r)\<rparr>"

definition unserve :: "ustr \<Rightarrow> serving \<Rightarrow> serving" where
  "unserve route st = st\<lparr>sv_table := AList.delete route (sv_table st)\<rparr>"

section \<open>Invocations\<close>

definition forget :: "nat \<Rightarrow> serving \<Rightarrow> serving" where
  "forget n st =
     on_run n (\<lambda>i. i\<lparr>in_timer := False\<rparr>)
       (if is_active n st then st\<lparr>sv_active := AList.delete (in_key (sv_runs st ! n)) (sv_active st)\<rparr> else st)"

text \<open>\<open>_acknowledge_invocation\<close>: the failure of its send is suppressed.\<close>

definition acknowledge :: "nat \<Rightarrow> serving \<Rightarrow> serving" where
  "acknowledge n st = on_run n (\<lambda>i. i\<lparr>in_acked := Suc (in_acked i)\<rparr>) (forget n st)"

definition new_invocation :: "bytes \<Rightarrow> nat \<Rightarrow> rat option \<Rightarrow> bool \<Rightarrow> invocation" where
  "new_invocation key w deadline taken =
     \<lparr>in_key = key, in_worker = w, in_deadline = deadline, in_timer = (deadline \<noteq> None \<and> taken), in_cancelled = False,
      in_requested = False, in_started = False, in_finished = False, in_ended = False,
      in_phase = (if taken then Dispatched else Refused), in_ack_tasks = 0, in_acked = 0\<rparr>"

text \<open>
  \<open>_on_request\<close>: what it raises and the state; \<open>taken\<close> is the answer of the dispatcher. A
  refused invocation is active only until \<open>_forget_invocation\<close> in the same call.
\<close>

definition on_request :: "bytes \<Rightarrow> rat \<Rightarrow> bool \<Rightarrow> serving \<Rightarrow> exn option \<times> serving" where
  "on_request data now taken st =
     (case decode_request data of
        Inl e \<Rightarrow> (Some e, st)
      | Inr (key, route, body, budget) \<Rightarrow>
          (case best_worker route (sv_table st) of
             None \<Rightarrow> (None, st)
           | Some r \<Rightarrow>
               let deadline = map_option (\<lambda>ms. now + of_int ms / 1000) budget;
                   n = length (sv_runs st)
               in (None, st\<lparr>sv_runs := sv_runs st @ [new_invocation key (rg_identity r) deadline taken],
                     sv_active := (if taken then AList.update key n (sv_active st) else AList.delete key (sv_active st))\<rparr>)))"

text \<open>The end of \<open>_run_worker\<close>: its \<open>finally\<close>.\<close>

definition run_finally :: "nat \<Rightarrow> serving \<Rightarrow> serving" where
  "run_finally n st =
     (let st = on_run n (\<lambda>i. i\<lparr>in_finished := True, in_phase := Run_over\<rparr>) st;
          i = sv_runs st ! n
      in if in_requested i \<or> in_ended i then acknowledge n st else st)"

definition release_run :: "nat \<Rightarrow> serving \<Rightarrow> serving" where
  "release_run n st =
     (let w = in_worker (sv_runs st ! n)
      in run_finally n (st\<lparr>sv_free := (sv_free st)(w := sv_free st w + 1)\<rparr>))"

definition run_begin :: "nat \<Rightarrow> serving \<Rightarrow> serving" where
  "run_begin n st =
     (if \<not> is_active n st then on_run n (\<lambda>i. i\<lparr>in_finished := True, in_phase := Run_over\<rparr>) st
      else on_run n (\<lambda>i. i\<lparr>in_phase := Waiting_slot\<rparr>) st)"

text \<open>The semaphore is acquired.\<close>

definition run_slot :: "rat \<Rightarrow> nat \<Rightarrow> serving \<Rightarrow> serving" where
  "run_slot now n st =
     (let i = sv_runs st ! n; w = in_worker i;
          st = st\<lparr>sv_free := (sv_free st)(w := sv_free st w - 1)\<rparr>
      in if \<not> is_active n st then release_run n st
         else if remaining_time_ms (in_deadline i) now = Some 0
         then (let st = on_run n (\<lambda>i. i\<lparr>in_cancelled := True\<rparr>) st
               in if in_requested i then release_run n st
                  else on_run n (\<lambda>i. i\<lparr>in_phase := Reporting 6007\<rparr>) st)
         else if in_cancelled i then release_run n st
         else on_run n (\<lambda>i. i\<lparr>in_started := True, in_phase := Handling\<rparr>) st)"

text \<open>The wait for the semaphore is cancelled.\<close>

definition slot_cancelled :: "nat \<Rightarrow> serving \<Rightarrow> serving" where
  "slot_cancelled n st = run_finally n st"

text \<open>The handler sends a response, and ends: with \<open>None\<close> or with what it raised.\<close>

definition handler_sent :: "bool \<Rightarrow> nat \<Rightarrow> serving \<Rightarrow> serving" where
  "handler_sent fin n st = on_run n (\<lambda>i. if in_ended i then i else i\<lparr>in_ended := fin\<rparr>) st"

definition handler_over :: "exn option \<Rightarrow> nat \<Rightarrow> serving \<Rightarrow> serving" where
  "handler_over how n st =
     (case how of
        None \<Rightarrow> release_run n st
      | Some e \<Rightarrow>
          if in_ended (sv_runs st ! n) then release_run n st
          else on_run n (\<lambda>i. i\<lparr>in_phase := Reporting (if e = CancelledError then 6007 else 6006)\<rparr>) st)"

text \<open>The error report was sent, or its send raised.\<close>

definition reported :: "bool \<Rightarrow> nat \<Rightarrow> serving \<Rightarrow> serving" where
  "reported ok n st = release_run n (if ok then on_run n (\<lambda>i. i\<lparr>in_ended := True\<rparr>) st else st)"

definition refusal_reported :: "bool \<Rightarrow> nat \<Rightarrow> serving \<Rightarrow> serving" where
  "refusal_reported ok n st =
     acknowledge n (on_run n (\<lambda>i. i\<lparr>in_ended := in_ended i \<or> ok, in_phase := Run_over\<rparr>) st)"

text \<open>\<open>_on_lifecycle\<close> for the worker's side.\<close>

definition worker_lifecycle :: "bytes \<Rightarrow> serving \<Rightarrow> serving" where
  "worker_lifecycle data st =
     (if length data \<noteq> 18 \<or> hd data \<noteq> 2 \<or> \<not> (1 \<le> data ! 17 \<and> data ! 17 \<le> 4) then st
      else case map_of (sv_active st) (seg 1 16 data) of
        None \<Rightarrow> st
      | Some n \<Rightarrow>
          on_run n (\<lambda>i. i\<lparr>in_requested := True, in_cancelled := True,
            in_ack_tasks := in_ack_tasks i + (if in_finished i \<or> \<not> in_started i then 1 else 0)\<rparr>) st)"

definition ack_task :: "nat \<Rightarrow> serving \<Rightarrow> serving" where
  "ack_task n st = acknowledge n (on_run n (\<lambda>i. i\<lparr>in_ack_tasks := in_ack_tasks i - 1\<rparr>) st)"

definition deadline_fires :: "nat \<Rightarrow> serving \<Rightarrow> serving" where
  "deadline_fires n st = on_run n (\<lambda>i. i\<lparr>in_cancelled := True, in_timer := False\<rparr>) st"

definition serving_disconnect :: "serving \<Rightarrow> serving" where
  "serving_disconnect st =
     (fold (\<lambda>n. on_run n (\<lambda>i. i\<lparr>in_cancelled := True, in_timer := False\<rparr>)) (map snd (sv_active st)) st)
       \<lparr>sv_active := []\<rparr>"

section \<open>Steps\<close>

abbreviation phase_of :: "nat \<Rightarrow> serving \<Rightarrow> run_phase option" where
  "phase_of n st \<equiv> (if n < length (sv_runs st) then Some (in_phase (sv_runs st ! n)) else None)"

text \<open>Every registration has an identity of its own and a width that \<open>register_worker\<close> accepts.\<close>

inductive serve_step :: "serving \<Rightarrow> serving \<Rightarrow> bool" where
  registers: "sv_max st (rg_identity r) = 0 \<Longrightarrow> 1 \<le> rg_max r \<Longrightarrow> rg_max r \<le> 1024 \<Longrightarrow> serve_step st (serve route r st)"
| unregisters: "serve_step st (unserve route st)"
| request: "serve_step st (snd (on_request data now taken st))"
| begins: "phase_of n st = Some Dispatched \<Longrightarrow> serve_step st (run_begin n st)"
| slot: "phase_of n st = Some Waiting_slot \<Longrightarrow> 0 < sv_free st (in_worker (sv_runs st ! n)) \<Longrightarrow> serve_step st (run_slot now n st)"
| slot_lost: "phase_of n st = Some Waiting_slot \<Longrightarrow> serve_step st (slot_cancelled n st)"
| sends: "phase_of n st = Some Handling \<Longrightarrow> serve_step st (handler_sent fin n st)"
| over: "phase_of n st = Some Handling \<Longrightarrow> serve_step st (handler_over how n st)"
| report: "phase_of n st = Some (Reporting code) \<Longrightarrow> serve_step st (reported ok n st)"
| refusal: "phase_of n st = Some Refused \<Longrightarrow> serve_step st (refusal_reported ok n st)"
| lifecycle: "serve_step st (worker_lifecycle data st)"
| acks: "n < length (sv_runs st) \<Longrightarrow> 0 < in_ack_tasks (sv_runs st ! n) \<Longrightarrow> serve_step st (ack_task n st)"
| fires: "n < length (sv_runs st) \<Longrightarrow> in_timer (sv_runs st ! n) \<Longrightarrow> serve_step st (deadline_fires n st)"
| lost: "serve_step st (serving_disconnect st)"

inductive serve_reach :: "serving \<Rightarrow> bool" where
  start: "serve_reach no_serving"
| step: "serve_reach st \<Longrightarrow> serve_step st st' \<Longrightarrow> serve_reach st'"

section \<open>The invariant\<close>

definition in_slot :: "run_phase \<Rightarrow> bool" where
  "in_slot p \<longleftrightarrow> (case p of Handling \<Rightarrow> True | Reporting _ \<Rightarrow> True | _ \<Rightarrow> False)"

lemma in_slot_simps [simp]:
  "in_slot Handling" "in_slot (Reporting c)" "\<not> in_slot Dispatched" "\<not> in_slot Waiting_slot" "\<not> in_slot Refused"
  "\<not> in_slot Run_over"
  by (simp_all add: in_slot_def)

definition holders :: "nat \<Rightarrow> invocation list \<Rightarrow> int" where
  "holders w runs = int (length (filter (\<lambda>i. in_worker i = w \<and> in_slot (in_phase i)) runs))"

lemma length_filter_update:
  "n < length xs \<Longrightarrow> int (length (filter P (xs[n := y]))) = int (length (filter P xs)) - of_bool (P (xs ! n)) + of_bool (P y)"
proof (induction xs arbitrary: n)
  case (Cons a xs)
  then show ?case using Cons.IH [of "n - 1"] by (cases n) simp_all
qed simp

lemma holders_update:
  assumes "n < length runs" "in_worker i = in_worker (runs ! n)"
  shows "holders w (runs[n := i]) = holders w runs +
    (if w = in_worker i then of_bool (in_slot (in_phase i)) - of_bool (in_slot (in_phase (runs ! n))) else 0)"
  using assms by (simp add: holders_def length_filter_update)

definition run_ok :: "bool \<Rightarrow> invocation \<Rightarrow> bool" where
  "run_ok listed i \<longleftrightarrow>
     (in_phase i = Handling \<longrightarrow> in_started i \<and> \<not> in_finished i \<and> in_acked i = 0 \<and> in_ack_tasks i = 0) \<and>
     (in_phase i \<in> {Dispatched, Waiting_slot, Refused} \<longrightarrow> \<not> in_started i \<and> \<not> in_finished i) \<and>
     (0 < in_acked i \<longrightarrow> \<not> listed) \<and> (0 < in_ack_tasks i \<longrightarrow> in_cancelled i) \<and>
     (in_phase i = Run_over \<and> listed \<longrightarrow> in_finished i \<and> (0 < in_ack_tasks i \<or> \<not> in_requested i \<and> \<not> in_ended i)) \<and>
     (in_phase i = Refused \<longrightarrow> \<not> listed)"

definition serve_inv :: "serving \<Rightarrow> bool" where
  "serve_inv st \<longleftrightarrow>
     (\<forall>k n. map_of (sv_active st) k = Some n \<longrightarrow> n < length (sv_runs st) \<and> in_key (sv_runs st ! n) = k) \<and>
     (\<forall>w. sv_free st w + holders w (sv_runs st) = sv_max st w \<and> 0 \<le> sv_free st w \<and> sv_max st w \<le> 1024) \<and>
     (\<forall>n<length (sv_runs st). run_ok (is_active n st) (sv_runs st ! n))"

lemma serve_inv_start: "serve_inv no_serving"
  by (simp add: serve_inv_def no_serving_def holders_def)

lemma serve_inv_run: "serve_inv st \<Longrightarrow> n < length (sv_runs st) \<Longrightarrow> run_ok (is_active n st) (sv_runs st ! n)"
  by (simp add: serve_inv_def)

text \<open>A step that changes one invocation, its slot and its entry in the table.\<close>

lemma serve_inv_change:
  assumes inv: "serve_inv st" and n: "n < length (sv_runs st)"
    and runs: "sv_runs st' = (sv_runs st)[n := i]" and max: "sv_max st' = sv_max st"
    and same: "in_key i = in_key (sv_runs st ! n)" "in_worker i = in_worker (sv_runs st ! n)"
    and active: "sv_active st' = sv_active st \<or>
      is_active n st \<and> sv_active st' = AList.delete (in_key (sv_runs st ! n)) (sv_active st)"
    and free: "sv_free st' = (sv_free st)(in_worker i := sv_free st (in_worker i) +
        of_bool (in_slot (in_phase (sv_runs st ! n))) - of_bool (in_slot (in_phase i)))"
      "0 \<le> sv_free st' (in_worker i)"
    and ok: "run_ok (is_active n st') i"
  shows "serve_inv st'"
proof -
  have old: "map_of (sv_active st) k = Some m \<Longrightarrow> m < length (sv_runs st) \<and> in_key (sv_runs st ! m) = k" for k m
    using inv by (simp add: serve_inv_def)
  have "map_of (sv_active st') k = Some m \<Longrightarrow> map_of (sv_active st) k = Some m" for k m
    using active by (auto simp: delete_conv' split: if_splits)
  then have 1: "m < length (sv_runs st') \<and> in_key (sv_runs st' ! m) = k" if "map_of (sv_active st') k = Some m" for k m
    using old [of k m] that same(1) n by (cases "m = n") (auto simp: runs)
  have 2: "sv_free st' w + holders w (sv_runs st') = sv_max st' w \<and> 0 \<le> sv_free st' w \<and> sv_max st' w \<le> 1024" for w
  proof -
    have "sv_free st w + holders w (sv_runs st) = sv_max st w \<and> 0 \<le> sv_free st w \<and> sv_max st w \<le> 1024"
      using inv unfolding serve_inv_def by blast
    then show ?thesis using free(2) by (cases "w = in_worker i") (simp_all add: runs holders_update n same(2) max free(1))
  qed
  have 3: "run_ok (is_active m st') (sv_runs st' ! m)" if "m < length (sv_runs st')" for m
  proof (cases "m = n")
    case False
    have "is_active m st' = is_active m st"
      using False active by (auto simp: is_active_def runs delete_conv' split: if_splits)
    then show ?thesis using serve_inv_run [OF inv, of m] that False by (simp add: runs)
  qed (use ok n in \<open>simp add: runs\<close>)
  show ?thesis unfolding serve_inv_def using 1 2 3 by blast
qed

lemma on_run_rest [simp]:
  "sv_free (on_run n f st) = sv_free st" "sv_max (on_run n f st) = sv_max st" "sv_active (on_run n f st) = sv_active st"
  "sv_table (on_run n f st) = sv_table st" "length (sv_runs (on_run n f st)) = length (sv_runs st)"
  by (simp_all add: on_run_def)

lemma on_run_runs [simp]: "n < length (sv_runs st) \<Longrightarrow> sv_runs (on_run n f st) = (sv_runs st)[n := f (sv_runs st ! n)]"
  by (simp add: on_run_def)

lemma is_active_cong:
  "sv_active st' = sv_active st \<Longrightarrow> in_key (sv_runs st' ! n) = in_key (sv_runs st ! n) \<Longrightarrow> is_active n st' = is_active n st"
  by (simp add: is_active_def)

definition dropped :: "nat \<Rightarrow> serving \<Rightarrow> (bytes \<times> nat) list" where
  "dropped n st = (if is_active n st then AList.delete (in_key (sv_runs st ! n)) (sv_active st) else sv_active st)"

lemma acknowledge_result:
  assumes "n < length (sv_runs st)"
  shows "sv_runs (acknowledge n st) = (sv_runs st)[n := (sv_runs st ! n)\<lparr>in_timer := False, in_acked := Suc (in_acked (sv_runs st ! n))\<rparr>]"
    "sv_active (acknowledge n st) = dropped n st" "sv_free (acknowledge n st) = sv_free st"
    "sv_max (acknowledge n st) = sv_max st" "\<not> is_active n (acknowledge n st)"
proof -
  show "sv_runs (acknowledge n st) = (sv_runs st)[n := (sv_runs st ! n)\<lparr>in_timer := False, in_acked := Suc (in_acked (sv_runs st ! n))\<rparr>]"
    "sv_active (acknowledge n st) = dropped n st" "sv_free (acknowledge n st) = sv_free st"
    "sv_max (acknowledge n st) = sv_max st"
    using assms by (simp_all add: acknowledge_def forget_def dropped_def)
  then show "\<not> is_active n (acknowledge n st)"
    using assms by (simp add: is_active_def dropped_def delete_conv')
qed

text \<open>The end of a run, from a state \<open>st0\<close> in the middle of a step that began in \<open>st\<close>.\<close>

lemma run_finally_inv:
  assumes inv: "serve_inv st" and n: "n < length (sv_runs st)"
    and runs: "sv_runs st0 = (sv_runs st)[n := i]" and rest: "sv_max st0 = sv_max st" "sv_active st0 = sv_active st"
    and same: "in_key i = in_key (sv_runs st ! n)" "in_worker i = in_worker (sv_runs st ! n)"
      "in_ack_tasks i = in_ack_tasks (sv_runs st ! n)" "in_acked i = in_acked (sv_runs st ! n)"
      "in_cancelled (sv_runs st ! n) \<Longrightarrow> in_cancelled i"
    and free: "sv_free st0 = (sv_free st)(in_worker i := sv_free st (in_worker i) + of_bool (in_slot (in_phase (sv_runs st ! n))))"
  shows "serve_inv (run_finally n st0)"
proof -
  let ?i = "i\<lparr>in_finished := True, in_phase := Run_over\<rparr>"
  let ?st = "on_run n (\<lambda>i. i\<lparr>in_finished := True, in_phase := Run_over\<rparr>) st0"
  have n0: "n < length (sv_runs st0)" using n runs by simp
  have old: "run_ok (is_active n st) (sv_runs st ! n)" by (rule serve_inv_run [OF inv n])
  have active: "is_active n ?st = is_active n st"
    by (rule is_active_cong) (use n n0 in \<open>simp_all add: rest runs same\<close>)
  have nonneg: "0 \<le> sv_free st (in_worker i)" using inv by (simp add: serve_inv_def)
  show ?thesis
  proof (cases "in_requested i \<or> in_ended i")
    case True
    let ?i' = "?i\<lparr>in_timer := False, in_acked := Suc (in_acked i)\<rparr>"
    have "run_finally n st0 = acknowledge n ?st"
      using True n0 runs n by (simp add: run_finally_def Let_def)
    moreover have "serve_inv (acknowledge n ?st)"
    proof (rule serve_inv_change [OF inv n, where i = ?i'])
      show "sv_active (acknowledge n ?st) = sv_active st \<or>
          is_active n st \<and> sv_active (acknowledge n ?st) = AList.delete (in_key (sv_runs st ! n)) (sv_active st)"
        using n n0 active by (simp add: acknowledge_result dropped_def rest runs same)
      show "run_ok (is_active n (acknowledge n ?st)) ?i'"
        using n0 old same by (simp add: acknowledge_result run_ok_def)
    qed (use n n0 nonneg in \<open>simp_all add: acknowledge_result runs rest same free\<close>)
    ultimately show ?thesis by simp
  next
    case False
    then have "run_finally n st0 = ?st" using n0 runs n by (simp add: run_finally_def Let_def)
    moreover have "serve_inv ?st"
    proof (rule serve_inv_change [OF inv n, where i = ?i])
      show "run_ok (is_active n ?st) ?i" using old same False by (simp add: run_ok_def active)
    qed (use n n0 nonneg in \<open>simp_all add: runs rest same free\<close>)
    ultimately show ?thesis by simp
  qed
qed

text \<open>A step that changes only the record, without entering or leaving a slot.\<close>

lemma serve_inv_record:
  assumes "serve_inv st" "n < length (sv_runs st)"
    and "in_key (f (sv_runs st ! n)) = in_key (sv_runs st ! n)" "in_worker (f (sv_runs st ! n)) = in_worker (sv_runs st ! n)"
    and "in_slot (in_phase (f (sv_runs st ! n))) = in_slot (in_phase (sv_runs st ! n))"
    and "run_ok (is_active n st) (f (sv_runs st ! n))"
  shows "serve_inv (on_run n f st)"
proof (rule serve_inv_change [OF assms(1,2), where i = "f (sv_runs st ! n)"])
  have "is_active n (on_run n f st) = is_active n st"
    by (rule is_active_cong) (use assms in simp_all)
  then show "run_ok (is_active n (on_run n f st)) (f (sv_runs st ! n))" using assms by simp
  show "0 \<le> sv_free (on_run n f st) (in_worker (f (sv_runs st ! n)))" using assms(1) by (simp add: serve_inv_def)
qed (use assms in simp_all)

lemma phase_of_Some: "phase_of n st = Some p \<longleftrightarrow> n < length (sv_runs st) \<and> in_phase (sv_runs st ! n) = p"
  by auto

lemma release_run_inv:
  assumes "serve_inv st" "n < length (sv_runs st)"
    and "sv_runs st0 = (sv_runs st)[n := i]" "sv_max st0 = sv_max st" "sv_active st0 = sv_active st"
    and "in_key i = in_key (sv_runs st ! n)" "in_worker i = in_worker (sv_runs st ! n)"
      "in_ack_tasks i = in_ack_tasks (sv_runs st ! n)" "in_acked i = in_acked (sv_runs st ! n)"
      "in_cancelled (sv_runs st ! n) \<Longrightarrow> in_cancelled i"
    and "sv_free st0 = (sv_free st)(in_worker i := sv_free st (in_worker i) + of_bool (in_slot (in_phase (sv_runs st ! n))) - 1)"
  shows "serve_inv (release_run n st0)"
  unfolding release_run_def Let_def
  by (rule run_finally_inv [OF assms(1-2), where i = i]) (use assms(2-) in simp_all)

lemma serve_inv_slot:
  assumes inv: "serve_inv st" and n: "n < length (sv_runs st)" "in_phase (sv_runs st ! n) = Waiting_slot"
    and free: "0 < sv_free st (in_worker (sv_runs st ! n))"
  shows "serve_inv (run_slot now n st)"
proof -
  let ?i = "sv_runs st ! n" and ?st = "st\<lparr>sv_free := (sv_free st)(in_worker (sv_runs st ! n) := sv_free st (in_worker (sv_runs st ! n)) - 1)\<rparr>"
  have ok: "run_ok (is_active n st) ?i" by (rule serve_inv_run [OF inv n(1)])
  have active: "is_active n (on_run n f ?st) = is_active n st" if "in_key (f ?i) = in_key ?i" for f
    by (rule is_active_cong) (use n that in simp_all)
  have here: "is_active n ?st = is_active n st" by (rule is_active_cong) simp_all
  have leave: "serve_inv (release_run n (on_run n f ?st))"
    if "f ?i = ?i \<or> f ?i = ?i\<lparr>in_cancelled := True\<rparr>" for f
    by (rule release_run_inv [OF inv n(1), where i = "f ?i"]) (use n that in auto)
  have "on_run n (\<lambda>i. i) ?st = ?st" by (simp add: on_run_def)
  then have leave0: "serve_inv (release_run n ?st)" using leave [of "\<lambda>i. i"] by simp
  have enter: "serve_inv (on_run n f ?st)"
    if "in_key (f ?i) = in_key ?i" "in_worker (f ?i) = in_worker ?i" "in_slot (in_phase (f ?i))" "run_ok (is_active n st) (f ?i)" for f
  proof (rule serve_inv_change [OF inv n(1), where i = "f ?i"])
    show "run_ok (is_active n (on_run n f ?st)) (f ?i)" using that active by simp
  qed (use n that free in simp_all)
  have twice: "on_run n f (on_run n g ?st) = on_run n (f \<circ> g) ?st" for f g using n by (simp add: on_run_def)
  consider "\<not> is_active n st" | "is_active n st" "remaining_time_ms (in_deadline ?i) now = Some 0" "in_requested ?i"
    | "is_active n st" "remaining_time_ms (in_deadline ?i) now = Some 0" "\<not> in_requested ?i"
    | "is_active n st" "remaining_time_ms (in_deadline ?i) now \<noteq> Some 0" "in_cancelled ?i"
    | "is_active n st" "remaining_time_ms (in_deadline ?i) now \<noteq> Some 0" "\<not> in_cancelled ?i" by blast
  then show ?thesis
  proof cases
    case 2
    then show ?thesis using leave by (simp add: run_slot_def here Let_def)
  next
    case 3
    have "serve_inv (on_run n ((\<lambda>i. i\<lparr>in_phase := Reporting 6007\<rparr>) \<circ> (\<lambda>i. i\<lparr>in_cancelled := True\<rparr>)) ?st)"
      by (rule enter) (use ok n(2) in \<open>simp_all add: run_ok_def\<close>)
    then show ?thesis using 3 by (simp add: run_slot_def here Let_def twice)
  next
    case 5
    have "serve_inv (on_run n (\<lambda>i. i\<lparr>in_started := True, in_phase := Handling\<rparr>) ?st)"
      by (rule enter) (use ok n(2) 5 in \<open>simp_all add: run_ok_def\<close>)
    then show ?thesis using 5 by (simp add: run_slot_def here Let_def)
  qed (use leave0 here in \<open>simp_all add: run_slot_def Let_def\<close>)
qed

lemma run_ok_less: "run_ok listed i \<Longrightarrow> (listed' \<Longrightarrow> listed) \<Longrightarrow> run_ok listed' i"
  unfolding run_ok_def by blast

lemma new_invocation_simps [simp]:
  "in_key (new_invocation k w d b) = k" "in_worker (new_invocation k w d b) = w"
  "\<not> in_started (new_invocation k w d b)" "\<not> in_finished (new_invocation k w d b)"
  "in_acked (new_invocation k w d b) = 0" "in_ack_tasks (new_invocation k w d b) = 0"
  "in_phase (new_invocation k w d b) = (if b then Dispatched else Refused)"
  by (simp_all add: new_invocation_def)

lemma serve_inv_request:
  assumes inv: "serve_inv st"
  shows "serve_inv (snd (on_request data now taken st))"
proof -
  have "serve_inv (st\<lparr>sv_runs := sv_runs st @ [new_invocation key w deadline taken],
      sv_active := (if taken then AList.update key (length (sv_runs st)) (sv_active st) else AList.delete key (sv_active st))\<rparr>)"
    (is "serve_inv ?st") for key w deadline
  proof -
    have old: "map_of (sv_active st) k = Some m \<Longrightarrow> m < length (sv_runs st) \<and> in_key (sv_runs st ! m) = k" for k m
      using inv by (simp add: serve_inv_def)
    have "m < length (sv_runs ?st) \<and> in_key (sv_runs ?st ! m) = k" if "map_of (sv_active ?st) k = Some m" for k m
      using that old [of k m] by (auto simp: update_conv' delete_conv' nth_append split: if_splits)
    moreover have "holders v (sv_runs ?st) = holders v (sv_runs st)" for v
      by (simp add: holders_def)
    moreover have "run_ok (is_active m ?st) (sv_runs ?st ! m)" if "m < length (sv_runs ?st)" for m
    proof (cases "m = length (sv_runs st)")
      case True
      then show ?thesis by (cases taken) (simp_all add: run_ok_def is_active_def delete_conv')
    next
      case False
      then have m: "m < length (sv_runs st)" using that by simp
      then have "is_active m ?st \<Longrightarrow> is_active m st"
        by (auto simp: is_active_def update_conv' delete_conv' nth_append split: if_splits)
      then have "run_ok (is_active m ?st) (sv_runs st ! m)" using run_ok_less [OF serve_inv_run [OF inv m]] by blast
      then show ?thesis using m by (simp add: nth_append)
    qed
    ultimately show ?thesis using inv unfolding serve_inv_def by simp
  qed
  then show ?thesis using inv
    by (auto simp: on_request_def Let_def split: sum.split option.split prod.split)
qed

lemma acknowledge_inv:
  assumes inv: "serve_inv st" and n: "n < length (sv_runs st)"
    and i: "in_key (f (sv_runs st ! n)) = in_key (sv_runs st ! n)" "in_worker (f (sv_runs st ! n)) = in_worker (sv_runs st ! n)"
    and out: "in_slot (in_phase (f (sv_runs st ! n))) = in_slot (in_phase (sv_runs st ! n))"
    and ok: "run_ok False ((f (sv_runs st ! n))\<lparr>in_timer := False, in_acked := Suc (in_acked (f (sv_runs st ! n)))\<rparr>)"
  shows "serve_inv (acknowledge n (on_run n f st))"
proof (rule serve_inv_change [OF inv n, where i = "(f (sv_runs st ! n))\<lparr>in_timer := False, in_acked := Suc (in_acked (f (sv_runs st ! n)))\<rparr>"])
  have "is_active n (on_run n f st) = is_active n st" by (rule is_active_cong) (use n i in simp_all)
  then show "sv_active (acknowledge n (on_run n f st)) = sv_active st \<or>
      is_active n st \<and> sv_active (acknowledge n (on_run n f st)) = AList.delete (in_key (sv_runs st ! n)) (sv_active st)"
    using n i by (simp add: acknowledge_result dropped_def)
  show "0 \<le> sv_free (acknowledge n (on_run n f st))
      (in_worker ((f (sv_runs st ! n))\<lparr>in_timer := False, in_acked := Suc (in_acked (f (sv_runs st ! n)))\<rparr>))"
    using inv n by (simp add: acknowledge_result serve_inv_def)
qed (use n i out ok in \<open>simp_all add: acknowledge_result\<close>)

lemma serve_inv_table: "serve_inv (st\<lparr>sv_table := t\<rparr>) = serve_inv st"
  by (simp add: serve_inv_def is_active_def)

lemma serve_inv_serve:
  assumes inv: "serve_inv st" and r: "sv_max st (rg_identity r) = 0" "1 \<le> rg_max r" "rg_max r \<le> 1024"
  shows "serve_inv (serve route r st)"
proof -
  have w: "sv_free st w + holders w (sv_runs st) = sv_max st w \<and> 0 \<le> sv_free st w \<and> sv_max st w \<le> 1024" for w
    using inv unfolding serve_inv_def by blast
  moreover have "0 \<le> holders w (sv_runs st)" for w by (simp add: holders_def)
  ultimately have "holders (rg_identity r) (sv_runs st) = 0" using r(1) by (smt (verit))
  then show ?thesis using inv w r by (simp add: serve_def serve_inv_def is_active_def)
qed

lemma serve_inv_disconnect:
  assumes inv: "serve_inv st"
  shows "serve_inv (serving_disconnect st)"
proof -
  let ?f = "\<lambda>i. i\<lparr>in_cancelled := True, in_timer := False\<rparr>"
  have keep: "serve_inv (fold (\<lambda>n. on_run n ?f) ns st)" for ns
    using inv
  proof (induction ns arbitrary: st)
    case (Cons n ns)
    have "serve_inv (on_run n ?f st)"
    proof (cases "n < length (sv_runs st)")
      case True
      then show ?thesis using serve_inv_run [OF Cons.prems True]
        by (intro serve_inv_record [OF Cons.prems True]) (simp_all add: run_ok_def)
    qed (simp add: on_run_def Cons.prems)
    then show ?case using Cons.IH by simp
  qed simp
  have "serve_inv (s\<lparr>sv_active := []\<rparr>)" if "serve_inv s" for s
    using that by (simp add: serve_inv_def is_active_def run_ok_def)
  then show ?thesis using keep by (simp add: serving_disconnect_def)
qed

lemma serve_inv_step: "serve_step st st' \<Longrightarrow> serve_inv st \<Longrightarrow> serve_inv st'"
proof (induction rule: serve_step.induct)
  case (registers st r route)
  then show ?case by (intro serve_inv_serve)
next
  case (begins n st)
  then show ?case using serve_inv_run [of st n]
    by (auto simp: phase_of_Some run_begin_def run_ok_def intro!: serve_inv_record)
next
  case (slot n st now)
  then show ?case by (intro serve_inv_slot) (simp_all add: phase_of_Some)
next
  case (slot_lost n st)
  then have "n < length (sv_runs st)" "in_phase (sv_runs st ! n) = Waiting_slot" by (simp_all add: phase_of_Some)
  then show ?case using slot_lost(2) unfolding slot_cancelled_def
    by (intro run_finally_inv [where st = st and i = "sv_runs st ! n"]) simp_all
next
  case (sends n st fin)
  then show ?case using serve_inv_run [of st n]
    by (auto simp: phase_of_Some handler_sent_def run_ok_def intro!: serve_inv_record)
next
  case (over n st how)
  then have n: "n < length (sv_runs st)" "in_phase (sv_runs st ! n) = Handling" by (simp_all add: phase_of_Some)
  then have "serve_inv (release_run n st)"
    using over(2) by (intro release_run_inv [where st = st and i = "sv_runs st ! n"]) simp_all
  then show ?case using over serve_inv_run [of st n]
    by (auto simp: phase_of_Some handler_over_def run_ok_def intro!: serve_inv_record split: option.split)
next
  case (report n st code ok)
  then have "n < length (sv_runs st)" "in_phase (sv_runs st ! n) = Reporting code" by (simp_all add: phase_of_Some)
  then show ?case using report(2) unfolding reported_def
    by (intro release_run_inv [where st = st and i = "if ok then (sv_runs st ! n)\<lparr>in_ended := True\<rparr> else sv_runs st ! n"]) auto
next
  case (refusal n st ok)
  then show ?case using serve_inv_run [of st n] unfolding phase_of_Some refusal_reported_def
    by (intro acknowledge_inv) (auto simp: run_ok_def)
next
  case (lifecycle st data)
  have "n < length (sv_runs st) \<and> in_key (sv_runs st ! n) = k" if "map_of (sv_active st) k = Some n" for k n
    using lifecycle that by (simp add: serve_inv_def)
  then show ?case using lifecycle serve_inv_run [of st]
    by (auto simp: worker_lifecycle_def run_ok_def intro!: serve_inv_record split: option.split)
next
  case (acks n st)
  then show ?case using serve_inv_run [of st n] unfolding ack_task_def
    by (intro acknowledge_inv) (auto simp: run_ok_def)
next
  case (fires n st)
  then show ?case using serve_inv_run [of st n] unfolding deadline_fires_def
    by (intro serve_inv_record) (auto simp: run_ok_def)
qed (simp_all add: unserve_def serve_inv_table serve_inv_request serve_inv_disconnect)

lemma serve_reach_inv: "serve_reach st \<Longrightarrow> serve_inv st"
  by (induction rule: serve_reach.induct) (auto intro: serve_inv_start serve_inv_step)

end
