(* ===== verification/Rpc_Worker_Proofs.thy ===== *)
theory Rpc_Worker_Proofs
  imports Rpc_Workers Rpc_Proofs
begin

text \<open>
  What holds on every reachable state of an RPC worker: the width of the semaphores and the order
  of handlers and acknowledgements; and a run in which one cancellation is acknowledged twice.
\<close>

section \<open>A run with two requests\<close>

definition demo_registration :: registration where
  "demo_registration = \<lparr>rg_handler = 0, rg_max = 1, rg_identity = 0\<rparr>"

definition demo_request :: "8 word \<Rightarrow> bytes" where
  "demo_request x = (case request_payload (replicate 16 x) (lit ''rpc://a'') [] None of Inr p \<Rightarrow> p | Inl _ \<Rightarrow> [])"

lemma demo_request: "decode_request (demo_request x) = Inr (replicate 16 x, lit ''rpc://a'', [], None)"
proof -
  have "\<exists>p. request_payload (replicate 16 x) (lit ''rpc://a'') [] None = Inr p"
    by (simp add: request_payload_def budget_fields_def build_payload_spec pack_def str_field_ascii lit_def)
  then obtain p where p: "request_payload (replicate 16 x) (lit ''rpc://a'') [] None = Inr p" by blast
  then have "demo_request x = p" by (simp add: demo_request_def)
  then show ?thesis using decode_request_written [OF p] by simp
qed

lemma demo_accepted:
  assumes "sv_table st = [(lit ''rpc://a'', demo_registration)]"
  shows "snd (on_request (demo_request x) now True st) =
    st\<lparr>sv_runs := sv_runs st @ [new_invocation (replicate 16 x) 0 None True],
       sv_active := AList.update (replicate 16 x) (length (sv_runs st)) (sv_active st)\<rparr>"
proof -
  have "best_worker (lit ''rpc://a'') [(lit ''rpc://a'', demo_registration)] = Some demo_registration"
    by (simp add: best_worker_def matches_def rpc_parts_def lit_def star_def dstar_def)
  then show ?thesis by (simp add: on_request_def demo_request assms demo_registration_def)
qed

text \<open>The first request holds the only slot, the second one waits for it.\<close>

definition serving_with :: "int \<Rightarrow> invocation list \<Rightarrow> (bytes \<times> nat) list \<Rightarrow> serving" where
  "serving_with free runs act = \<lparr>sv_table = [(lit ''rpc://a'', demo_registration)], sv_free = (\<lambda>_. 0)(0 := free),
     sv_max = (\<lambda>_. 0)(0 := 1), sv_runs = runs, sv_active = act\<rparr>"

abbreviation first_run :: invocation where
  "first_run \<equiv> (new_invocation (replicate 16 0) 0 None True)\<lparr>in_started := True, in_phase := Handling\<rparr>"

abbreviation second_run :: invocation where
  "second_run \<equiv> (new_invocation (replicate 16 1) 0 None True)\<lparr>in_phase := Waiting_slot\<rparr>"

definition busy_run :: serving where
  "busy_run = serving_with 0 [first_run, second_run] [(replicate 16 0, 0), (replicate 16 1, 1)]"

lemma busy_run: "serve_reach busy_run"
proof -
  have "serve_step no_serving (serve (lit ''rpc://a'') demo_registration no_serving)"
    by (rule serve_step.registers) (simp_all add: no_serving_def demo_registration_def)
  moreover have "serve (lit ''rpc://a'') demo_registration no_serving = serving_with 1 [] []"
    by (simp add: serve_def no_serving_def serving_with_def demo_registration_def)
  ultimately have s1: "serve_reach (serving_with 1 [] [])" by (metis serve_reach.intros)
  have s2: "serve_reach (serving_with 1 [new_invocation (replicate 16 0) 0 None True] [(replicate 16 0, 0)])"
    using serve_reach.step [OF s1 serve_step.request [of _ "demo_request 0" 0 True]]
    by (simp add: demo_accepted serving_with_def)
  have s3: "serve_reach (serving_with 1 [(new_invocation (replicate 16 0) 0 None True)\<lparr>in_phase := Waiting_slot\<rparr>] [(replicate 16 0, 0)])"
    using serve_reach.step [OF s2 serve_step.begins [of 0]]
    by (simp add: serving_with_def run_begin_def is_active_def on_run_def new_invocation_def)
  have s4: "serve_reach (serving_with 0 [first_run] [(replicate 16 0, 0)])"
    using serve_reach.step [OF s3 serve_step.slot [of 0 _ 0]]
    by (simp add: serving_with_def run_slot_def is_active_def on_run_def remaining_time_ms_def Let_def new_invocation_def)
  have s5: "serve_reach (serving_with 0 [first_run, new_invocation (replicate 16 1) 0 None True] [(replicate 16 0, 0), (replicate 16 1, 1)])"
    using serve_reach.step [OF s4 serve_step.request [of _ "demo_request 1" 0 True]]
    by (simp add: demo_accepted serving_with_def)
  show ?thesis
    using serve_reach.step [OF s5 serve_step.begins [of 1]]
    by (simp add: busy_run_def serving_with_def run_begin_def is_active_def on_run_def new_invocation_def)
qed

section \<open>Properties\<close>

definition handlers :: "nat \<Rightarrow> serving \<Rightarrow> nat" where
  "handlers w st = length (filter (\<lambda>i. in_worker i = w \<and> in_phase i = Handling) (sv_runs st))"

text \<open>
  C30. On every reachable state of a worker the handlers of a registration that run are at most its
  max_concurrency, and its semaphore counts the runs that hold a slot exactly.
\<close>

lemma rpc_worker_bounded:
  assumes "serve_reach st"
  shows "int (handlers w st) \<le> sv_max st w \<and> sv_max st w \<le> 1024 \<and>
    sv_free st w = sv_max st w - int (length (filter (\<lambda>i. in_worker i = w \<and> in_slot (in_phase i)) (sv_runs st)))"
proof -
  have "length (filter (\<lambda>i. in_worker i = w \<and> in_phase i = Handling) xs) \<le>
      length (filter (\<lambda>i. in_worker i = w \<and> in_slot (in_phase i)) xs)" for xs
    by (induction xs) auto
  then have "int (handlers w st) \<le> holders w (sv_runs st)" by (simp add: handlers_def holders_def)
  moreover have "sv_free st w + holders w (sv_runs st) = sv_max st w \<and> 0 \<le> sv_free st w \<and> sv_max st w \<le> 1024"
    using serve_reach_inv [OF assms] unfolding serve_inv_def by blast
  ultimately show ?thesis by (auto simp: holders_def)
qed

text \<open>
  C31. The broker gets the acknowledgement of a cancelled invocation only when its handler does not
  run, and an invocation that is over and was cancelled or answered is removed from the table
  or about to be acknowledged.
\<close>

lemma rpc_acknowledged_after:
  assumes "serve_reach st" "n < length (sv_runs st)"
  shows "(in_phase (sv_runs st ! n) = Handling \<longrightarrow> in_acked (sv_runs st ! n) = 0 \<and> in_ack_tasks (sv_runs st ! n) = 0) \<and>
    (0 < in_acked (sv_runs st ! n) \<longrightarrow> \<not> is_active n st) \<and>
    (is_active n st \<and> in_phase (sv_runs st ! n) = Run_over \<longrightarrow>
      0 < in_ack_tasks (sv_runs st ! n) \<or> \<not> in_requested (sv_runs st ! n) \<and> \<not> in_ended (sv_runs st ! n))"
  using serve_inv_run [OF serve_reach_inv [OF assms(1)] assms(2)] by (auto simp: run_ok_def)

lemma rpc_worker_bounded_witness:
  "handlers 0 busy_run = 1 \<and> int (handlers 0 busy_run) \<le> sv_max busy_run 0 \<and> sv_free busy_run 0 = 0"
  using rpc_worker_bounded [OF busy_run, of 0] by (simp add: busy_run_def serving_with_def handlers_def)

lemma rpc_acknowledged_after_witness:
  "in_phase (sv_runs busy_run ! 0) = Handling \<and> in_acked (sv_runs busy_run ! 0) = 0 \<and> \<not> 0 < in_ack_tasks (sv_runs busy_run ! 0)"
  using rpc_acknowledged_after [OF busy_run, of 0] by (simp add: busy_run_def serving_with_def)

text \<open>
  An invocation that is cancelled while it waits for a slot can be acknowledged twice.
\<close>

lemma rpc_acknowledged_twice:
  "\<exists>st n. serve_reach st \<and> n < length (sv_runs st) \<and> \<not> in_started (sv_runs st ! n) \<and> in_acked (sv_runs st ! n) = 2"
proof -
  let ?c = "second_run\<lparr>in_requested := True, in_cancelled := True\<rparr>"
  have "worker_lifecycle (2 # replicate 16 1 @ [1]) busy_run =
      serving_with 0 [first_run, ?c\<lparr>in_ack_tasks := 1\<rparr>] [(replicate 16 0, 0), (replicate 16 1, 1)]"
    by (simp add: worker_lifecycle_def busy_run_def serving_with_def seg_def on_run_def new_invocation_def nth_append)
  then have s1: "serve_reach (serving_with 0 [first_run, ?c\<lparr>in_ack_tasks := 1\<rparr>] [(replicate 16 0, 0), (replicate 16 1, 1)])"
    using serve_reach.step [OF busy_run serve_step.lifecycle] by metis
  have s2: "serve_reach (serving_with 0 [first_run, ?c\<lparr>in_acked := 1\<rparr>] [(replicate 16 0, 0)])"
    using serve_reach.step [OF s1 serve_step.acks [of 1]]
    by (simp add: serving_with_def ack_task_def acknowledge_def forget_def is_active_def on_run_def new_invocation_def)
  have s3: "serve_reach (serving_with 1 [first_run\<lparr>in_finished := True, in_phase := Run_over\<rparr>, ?c\<lparr>in_acked := 1\<rparr>] [(replicate 16 0, 0)])"
    using serve_reach.step [OF s2 serve_step.over [of 0 _ None]]
    by (simp add: serving_with_def handler_over_def release_run_def run_finally_def on_run_def new_invocation_def)
  let ?s = "serving_with 1 [first_run\<lparr>in_finished := True, in_phase := Run_over\<rparr>,
      ?c\<lparr>in_acked := 2, in_finished := True, in_phase := Run_over\<rparr>] [(replicate 16 0, 0)]"
  have "serve_reach ?s"
    using serve_reach.step [OF s3 serve_step.slot [of 1 _ 0]]
    by (simp add: serving_with_def run_slot_def release_run_def run_finally_def acknowledge_def forget_def is_active_def
        on_run_def new_invocation_def numeral_2_eq_2)
  moreover have "1 < length (sv_runs ?s)" "\<not> in_started (sv_runs ?s ! 1)" "in_acked (sv_runs ?s ! 1) = 2"
    by (simp_all add: serving_with_def new_invocation_def)
  ultimately show ?thesis by blast
qed

end
