(* ===== verification/Upkeep.thy ===== *)
theory Upkeep
  imports Lifecycle
begin

text \<open>
  What keeps a connection useful over time: the registration of its listeners, the restoration of
  the registrations after a reconnect, and the heartbeat beside the life cycle of \<open>Connection\<close>.
\<close>

section \<open>Listeners\<close>

type_synonym reg_key = "ustr \<times> ustr"

definition UNKNOWN :: ustr where
  "UNKNOWN = lit ''unknown''"

text \<open>\<open>ident\<close> is \<open>str(id(listener))\<close>; the second result is what \<open>unregister\<close> pops.\<close>

definition on_reconnect :: "reg_key \<Rightarrow> ustr \<Rightarrow> 'l \<Rightarrow> (reg_key \<times> 'l) list \<Rightarrow> (reg_key \<times> 'l) list \<times> reg_key" where
  "on_reconnect key ident listener table =
     (let key = (if key = (UNKNOWN, UNKNOWN) then (UNKNOWN, ident) else key)
      in (AList.update key listener table, key))"

definition off_reconnect :: "reg_key \<Rightarrow> (reg_key \<times> 'l) list \<Rightarrow> (reg_key \<times> 'l) list" where
  "off_reconnect key table = AList.delete key table"

definition on_disconnect :: "nat \<Rightarrow> conn \<Rightarrow> conn" where
  "on_disconnect l c = c\<lparr>c_disconnect_listeners := List.insert l (c_disconnect_listeners c)\<rparr>"

definition off_disconnect :: "nat \<Rightarrow> conn \<Rightarrow> conn" where
  "off_disconnect l c = c\<lparr>c_disconnect_listeners := removeAll l (c_disconnect_listeners c)\<rparr>"

definition on_close :: "nat \<Rightarrow> conn \<Rightarrow> conn" where
  "on_close l c = c\<lparr>c_close_listeners := List.insert l (c_close_listeners c)\<rparr>"

definition off_close :: "nat \<Rightarrow> conn \<Rightarrow> conn" where
  "off_close l c = c\<lparr>c_close_listeners := removeAll l (c_close_listeners c)\<rparr>"

section \<open>Restoration\<close>

text \<open>
  \<open>_restore_registrations\<close> over a copy of the table: what it raises, the reported failures and the
  state the listeners leave.
\<close>

fun restore_registrations ::
  "('l \<Rightarrow> 's \<Rightarrow> exn option \<times> 's) \<Rightarrow> (reg_key \<times> 'l) list \<Rightarrow> 's \<Rightarrow> exn option \<times> (reg_key \<times> exn) list \<times> 's" where
  "restore_registrations run [] s = (None, [], s)"
| "restore_registrations run ((key, l) # ls) s =
     (case run l s of
        (None, s) \<Rightarrow> restore_registrations run ls s
      | (Some e, s) \<Rightarrow>
          if e = CancelledError then (Some e, [], s)
          else let (r, reports, s) = restore_registrations run ls s in (r, (key, e) # reports, s))"

text \<open>What the listeners answer one after the other.\<close>

fun listener_answers :: "('l \<Rightarrow> 's \<Rightarrow> exn option \<times> 's) \<Rightarrow> (reg_key \<times> 'l) list \<Rightarrow> 's \<Rightarrow> (reg_key \<times> exn option) list \<times> 's" where
  "listener_answers run [] s = ([], s)"
| "listener_answers run ((key, l) # ls) s =
     (let (e, s) = run l s; (as, s) = listener_answers run ls s in ((key, e) # as, s))"

lemma restore_registrations_complete:
  assumes "\<forall>(key, e)\<in>set (fst (listener_answers run ls s)). e \<noteq> Some CancelledError"
  shows "restore_registrations run ls s =
    (None, [(key, e). (key, Some e) \<leftarrow> fst (listener_answers run ls s)], snd (listener_answers run ls s))"
  using assms
proof (induction ls arbitrary: s)
  case (Cons x ls)
  obtain key l where x: "x = (key, l)" by fastforce
  obtain e s' where l: "run l s = (e, s')" by fastforce
  then show ?case using Cons x by (cases e) (auto simp: split_beta)
qed simp

section \<open>The heartbeat\<close>

text \<open>
  A connection with its \<open>_last_activity\<close> and whether the task of the present heartbeat runs; a new
  heartbeat cancels the task before it.
\<close>

record upkeep =
  up_conn :: conn
  up_last :: rat
  up_beat :: bool

definition new_upkeep :: "config \<Rightarrow> rat \<Rightarrow> upkeep" where
  "new_upkeep g now = \<lparr>up_conn = new_conn g, up_last = now, up_beat = False\<rparr>"

abbreviation beat_policy :: "upkeep \<Rightarrow> heartbeat_policy" where
  "beat_policy u \<equiv> heartbeat (c_config (up_conn u))"

text \<open>The wait for the end of the cancelled task is not a step of its own.\<close>

definition start_heartbeat :: "upkeep \<Rightarrow> upkeep" where
  "start_heartbeat u = (if hb_enabled (beat_policy u) then u\<lparr>up_beat := True\<rparr> else u)"

text \<open>The test of the loop.\<close>

definition beat_top :: "upkeep \<Rightarrow> upkeep" where
  "beat_top u = (if \<not> c_closed (up_conn u) \<and> is_connected (up_conn u) then u else u\<lparr>up_beat := False\<rparr>)"

text \<open>
  One pass after its sleep: \<open>probe\<close> is how \<open>transport.heartbeat\<close> ended and \<open>later\<close> the time then.
\<close>

definition beat_pass :: "rat \<Rightarrow> exn option \<Rightarrow> rat \<Rightarrow> (nat \<Rightarrow> exn option) \<Rightarrow> upkeep \<Rightarrow> upkeep" where
  "beat_pass now probe later listeners u =
     (if now - up_last u < finite_value (hb_interval (beat_policy u)) then beat_top u
      else if c_transport (up_conn u) = None then u\<lparr>up_beat := False\<rparr>
      else case probe of
        None \<Rightarrow> beat_top (u\<lparr>up_last := later\<rparr>)
      | Some e \<Rightarrow>
          if e = CancelledError then u\<lparr>up_beat := False\<rparr>
          else u\<lparr>up_conn := connection_lost listeners (up_conn u), up_beat := False\<rparr>)"

text \<open>A step of the connection; one that authenticates starts the heartbeat.\<close>

definition beat_session :: "conn \<Rightarrow> upkeep \<Rightarrow> upkeep" where
  "beat_session c u =
     (let u' = u\<lparr>up_conn := c\<rparr>
      in if c_state c = AUTHENTICATED \<and> c_state (up_conn u) \<noteq> AUTHENTICATED then start_heartbeat u' else u')"

text \<open>Cancellations of the task come from \<open>start_heartbeat\<close> and from closing only.\<close>

inductive upkeep_step :: "upkeep \<Rightarrow> upkeep \<Rightarrow> bool" where
  session: "conn_step (up_conn u) c \<Longrightarrow> upkeep_step u (beat_session c u)"
| activity: "upkeep_step u (u\<lparr>up_last := now\<rparr>)"
| beat: "up_beat u \<Longrightarrow> probe \<noteq> Some CancelledError \<or> c_closed (up_conn u) \<Longrightarrow>
    upkeep_step u (beat_pass now probe later listeners u)"

inductive upkeep_reach :: "config \<Rightarrow> upkeep \<Rightarrow> bool" for g where
  start: "upkeep_reach g (new_upkeep g now)"
| step: "upkeep_reach g u \<Longrightarrow> upkeep_step u u' \<Longrightarrow> upkeep_reach g u'"

text \<open>A pass is no new behaviour of the connection.\<close>

lemma beat_pass_conn:
  "up_conn (beat_pass now probe later listeners u) = up_conn u \<or>
   up_conn (beat_pass now probe later listeners u) = connection_lost listeners (up_conn u)"
  by (simp add: beat_pass_def beat_top_def split: option.split)

lemma upkeep_conn_reach: "upkeep_reach g u \<Longrightarrow> conn_reach g (up_conn u)"
proof (induction rule: upkeep_reach.induct)
  case (step u u')
  from step.hyps(2) have "up_conn u' = up_conn u \<or> conn_step (up_conn u) (up_conn u')"
  proof (induction rule: upkeep_step.induct)
    case (beat u probe now later listeners)
    then show ?case using beat_pass_conn [of now probe later listeners u] conn_step.lost by metis
  qed (simp_all add: beat_session_def start_heartbeat_def Let_def)
  then show ?case using step.IH conn_reach.step by metis
qed (simp add: new_upkeep_def conn_reach.start)

definition beat_watched :: "upkeep \<Rightarrow> bool" where
  "beat_watched u \<longleftrightarrow> (hb_enabled (beat_policy u) \<and> c_state (up_conn u) = AUTHENTICATED \<longrightarrow> up_beat u)"

lemma connection_lost_down:
  assumes "c_state c \<notin> {DISCONNECTED, RECONNECTING, CLOSED}" "\<not> c_closed c"
  shows "c_state (connection_lost listeners c) = DISCONNECTED"
  using assms by (simp add: connection_lost_def Let_def listener_simps set_state_def emit_def)

lemma beat_watched_step:
  assumes "upkeep_step u u'" "beat_watched u" "conn_inv g (up_conn u)" "conn_inv g (up_conn u')"
  shows "beat_watched u'"
  using assms
proof (induction rule: upkeep_step.induct)
  case (session u c)
  have "c_config c = c_config (up_conn u)" using session(3,4)
    by (simp add: conn_inv_def beat_session_def start_heartbeat_def Let_def split: if_splits)
  then show ?case using session(2) by (simp add: beat_watched_def beat_session_def start_heartbeat_def Let_def)
next
  case (beat u probe now later listeners)
  have auth: "c_state (up_conn u) = AUTHENTICATED \<Longrightarrow> \<not> c_closed (up_conn u) \<and> c_transport (up_conn u) \<noteq> None"
    using beat(4) by (auto simp: conn_inv_def)
  have "c_state (connection_lost listeners (up_conn u)) \<noteq> AUTHENTICATED"
    using connection_lost_down [of "up_conn u" listeners] auth
    by (cases "c_state (up_conn u) = AUTHENTICATED") (auto simp: connection_lost_def Let_def listener_simps set_state_def emit_def)
  then show ?case using beat(1-3) auth
    by (auto simp: beat_watched_def beat_pass_def beat_top_def is_connected_def split: option.split)
qed (simp add: beat_watched_def)

lemma upkeep_watched:
  assumes "upkeep_reach g u" "check_config g = None"
  shows "beat_watched u"
  using assms(1)
proof (induction rule: upkeep_reach.induct)
  case (start now)
  then show ?case by (simp add: beat_watched_def new_upkeep_def new_conn_def)
next
  case (step u u')
  have "conn_inv g (up_conn u)" "conn_inv g (up_conn u')"
    using upkeep_conn_reach step.hyps upkeep_reach.step conn_inv_reach assms(2) by metis+
  then show ?case using beat_watched_step [OF step.hyps(2) step.IH] by blast
qed

section \<open>Properties\<close>

text \<open>
  C21. On every reachable state an authenticated connection with an enabled heartbeat has its
  heartbeat task, and a pass of it that finds no activity for an interval and whose probe
  fails disconnects and, when reconnecting is enabled, starts the reconnect loop.
\<close>

lemma silent_connection_is_lost:
  assumes "upkeep_reach g u" "check_config g = None" "hb_enabled (heartbeat g)" "c_state (up_conn u) = AUTHENTICATED"
  shows "up_beat u \<and>
    (finite_value (hb_interval (heartbeat g)) \<le> now - up_last u \<and> e \<noteq> CancelledError \<and>
       (\<forall>l. listeners l \<noteq> Some CancelledError) \<longrightarrow>
      upkeep_step u (beat_pass now (Some e) later listeners u) \<and>
      c_state (up_conn (beat_pass now (Some e) later listeners u)) = DISCONNECTED \<and>
      (rc_enabled (reconnect g) \<longrightarrow> c_loop (up_conn (beat_pass now (Some e) later listeners u)) \<noteq> None))"
proof -
  have inv: "conn_inv g (up_conn u)" by (rule conn_inv_reach [OF upkeep_conn_reach [OF assms(1)] assms(2)])
  then have g: "c_config (up_conn u) = g" "\<not> c_closed (up_conn u)" "c_transport (up_conn u) \<noteq> None" "c_ever_authenticated (up_conn u)"
    using assms(4) by (auto simp: conn_inv_def)
  have beat: "up_beat u" using upkeep_watched [OF assms(1,2)] assms(3,4) g(1) by (simp add: beat_watched_def)
  have step: "upkeep_step u (beat_pass now (Some e) later listeners u)" if "e \<noteq> CancelledError"
    by (rule upkeep_step.beat) (use beat that in simp_all)
  have pass: "up_conn (beat_pass now (Some e) later listeners u) = connection_lost listeners (up_conn u)"
    if "finite_value (hb_interval (heartbeat g)) \<le> now - up_last u" "e \<noteq> CancelledError"
    using that g by (auto simp: beat_pass_def)
  have "c_loop (connection_lost listeners (up_conn u)) \<noteq> None"
    if "\<forall>l. listeners l \<noteq> Some CancelledError" "rc_enabled (reconnect g)"
    using that g assms(4) by (simp add: connection_lost_def Let_def listener_simps set_state_def emit_def)
  then show ?thesis using beat step pass connection_lost_down [of "up_conn u" listeners] assms(4) g(2) by simp
qed

lemma upkeep_any:
  assumes "conn_reach g c"
  shows "\<exists>u. upkeep_reach g u \<and> up_conn u = c \<and> up_last u = 0"
  using assms
proof (induction rule: conn_reach.induct)
  case start
  show ?case using upkeep_reach.start [of g 0] by (intro exI [of _ "new_upkeep g 0"]) (simp add: new_upkeep_def)
next
  case (step c c')
  then obtain u where u: "upkeep_reach g u" "up_conn u = c" "up_last u = 0" by blast
  then have "upkeep_reach g (beat_session c' u)" using step.hyps(2) upkeep_step.session upkeep_reach.step by metis
  then show ?case using u by (intro exI [of _ "beat_session c' u"]) (simp add: beat_session_def start_heartbeat_def Let_def)
qed

lemma silent_connection_is_lost_witness:
  "\<exists>u. upkeep_reach demo_config u \<and> up_beat u \<and>
     c_state (up_conn (beat_pass 10 (Some FitzTransportError) 10 (\<lambda>_. None) u)) = DISCONNECTED"
proof -
  obtain u where u: "upkeep_reach demo_config u" "up_conn u = run_up" "up_last u = 0"
    using upkeep_any [OF run_up(1)] by blast
  have "hb_enabled (heartbeat demo_config)" "finite_value (hb_interval (heartbeat demo_config)) = 10"
    by (simp_all add: demo_config_def default_config_def)
  then show ?thesis
    using silent_connection_is_lost [OF u(1) demo_config_ok, of 10 FitzTransportError "\<lambda>_. None" 10] u
      run_up(2) [unfolded is_connected_def]
    by (intro exI [of _ u]) simp
qed

end
