(* ===== verification/Client.thy ===== *)
theory Client
  imports Upkeep Notice Kv Queue Stream Schedule Lease_Acquire Rpc_Calls Rpc_Workers
begin

text \<open>
  \<open>client.py\<close> and the constructors of the seven domain clients: how a client wires its members to
  one connection, and what the connection's pushes, losses, reconnects and closing do to all of
  them. Bound methods that are registered as handlers are named by a datatype; the tables of the
  connection hold these names, and \<open>installed\<close> turns them into the functions the multiplexer calls.
  Disconnect and close listeners are the numbers of the members that registered them. The reconnect
  listener of a lease observer is \<open>Lease_Observer.handle_reconnect\<close>; the clients here have no observer.
\<close>

section \<open>Options\<close>

record client_args =
  ca_url :: ustr
  ca_transport :: transport_type
  ca_reconnect :: "reconnect_policy option"
  ca_limits :: "limits option"
  ca_request_timeout :: pyfloat
  ca_settle_timeout :: pyfloat
  ca_max_frame_size :: int
  ca_retry :: "retry_policy option"
  ca_heartbeat :: "heartbeat_policy option"
  ca_service_name :: "ustr option"

text \<open>The signature's defaults, and the configuration; an absent policy is a default one.\<close>

definition plain_args :: "ustr \<Rightarrow> client_args" where
  "plain_args u = \<lparr>ca_url = u, ca_transport = AUTO, ca_reconnect = None, ca_limits = None,
     ca_request_timeout = Num 30, ca_settle_timeout = Num 1, ca_max_frame_size = 1048576,
     ca_retry = None, ca_heartbeat = None, ca_service_name = None\<rparr>"

definition client_config :: "client_args \<Rightarrow> config" where
  "client_config a =
     (let d = default_config (ca_url a) in
      d\<lparr>transport := ca_transport a, request_timeout := ca_request_timeout a,
        auth_settle_timeout := ca_settle_timeout a, max_frame_size := ca_max_frame_size a,
        reconnect := (case ca_reconnect a of None \<Rightarrow> reconnect d | Some p \<Rightarrow> p),
        retry := (case ca_retry a of None \<Rightarrow> retry d | Some p \<Rightarrow> p),
        heartbeat := (case ca_heartbeat a of None \<Rightarrow> heartbeat d | Some p \<Rightarrow> p),
        limits := (case ca_limits a of None \<Rightarrow> limits d | Some l \<Rightarrow> l),
        service_name := ca_service_name a\<rparr>)"

text \<open>The arguments the transport factory passes on: \<open>int\<close> refuses an infinity and NaN.\<close>

definition transport_args :: "config \<Rightarrow> exn + transport_type \<times> int \<times> int" where
  "transport_args g =
     (case request_timeout g of
        Num t \<Rightarrow> Inr (resolve_transport (url g) (transport g), py_int (t * 1000), max_frame_size g)
      | NaN \<Rightarrow> Inl PyValueError
      | _ \<Rightarrow> Inl OverflowError)"

section \<open>State\<close>

datatype member =
  KV_client | Queue_client | RPC_client | Lease_client | Notice_client | Stream_client | Schedule_client

datatype handler =
    Kv_changed | Queue_available | Stream_committed | Schedule_fired | Noticed | Lease_changed
  | Lease_granted | Rpc_requested | Rpc_responded | Rpc_informed

datatype shape = Request_shape | Response_shape

record client =
  f_conn :: conn
  f_closed :: bool
  f_handlers :: "(int \<times> handler) list"
  f_classifiers :: "(int \<times> shape) list"
  f_reconnect :: "(reg_key \<times> member) list"
  f_reports :: "(string \<times> ustr \<times> exn) list"
  f_kv :: "kv_note registry"
  f_queue :: "availability registry"
  f_stream :: "commit_note registry"
  f_schedule :: "sched_note registry"
  f_lease :: "ustr registry"
  f_acquire :: acq_sys
  f_notice :: notices
  f_calls :: calls
  f_serving :: serving

definition member_list :: "member list" where
  "member_list = [KV_client, Queue_client, RPC_client, Lease_client, Notice_client, Stream_client, Schedule_client]"

fun member_no :: "member \<Rightarrow> nat" where
  "member_no KV_client = 0" | "member_no Queue_client = 1" | "member_no RPC_client = 2"
| "member_no Lease_client = 3" | "member_no Notice_client = 4" | "member_no Stream_client = 5"
| "member_no Schedule_client = 6"

definition member_at :: "nat \<Rightarrow> member option" where
  "member_at n = (if n < length member_list then Some (member_list ! n) else None)"

lemma member_at [simp]: "member_at (member_no m) = Some m"
  by (cases m) (simp_all add: member_at_def member_list_def)

section \<open>Construction\<close>

definition handle_push :: "int \<Rightarrow> handler \<Rightarrow> client \<Rightarrow> client" where
  "handle_push t h f = f\<lparr>f_handlers := AList.update t h (f_handlers f)\<rparr>"

definition classify_push :: "int \<Rightarrow> shape \<Rightarrow> client \<Rightarrow> client" where
  "classify_push t s f = f\<lparr>f_classifiers := AList.update t s (f_classifiers f)\<rparr>"

definition hear_reconnect :: "string \<Rightarrow> string \<Rightarrow> member \<Rightarrow> client \<Rightarrow> client" where
  "hear_reconnect dmn registration m f =
     f\<lparr>f_reconnect := fst (on_reconnect (lit dmn, lit registration) [] m (f_reconnect f))\<rparr>"

definition hear_disconnect :: "member \<Rightarrow> client \<Rightarrow> client" where
  "hear_disconnect m f = f\<lparr>f_conn := on_disconnect (member_no m) (f_conn f)\<rparr>"

definition hear_close :: "member \<Rightarrow> client \<Rightarrow> client" where
  "hear_close m f = f\<lparr>f_conn := on_close (member_no m) (f_conn f)\<rparr>"

definition buffer_size :: "client \<Rightarrow> nat" where
  "buffer_size f = nat (subscription_buffer_size (limits (c_config (f_conn f))))"

definition join_kv :: "client \<Rightarrow> client" where
  "join_kv f = hear_close KV_client (hear_reconnect ''kv'' ''mutations'' KV_client
     (handle_push MSG_KV_NOTIFY Kv_changed (f\<lparr>f_kv := new_registry (buffer_size f)\<rparr>)))"

definition join_queue :: "client \<Rightarrow> client" where
  "join_queue f = hear_close Queue_client (hear_reconnect ''queue'' ''availability'' Queue_client
     (handle_push MSG_QUEUE_AVAILABILITY_NOTIFY Queue_available (f\<lparr>f_queue := new_registry (buffer_size f)\<rparr>)))"

definition join_rpc :: "client \<Rightarrow> client" where
  "join_rpc f =
     (let f = f\<lparr>f_calls := no_calls, f_serving := no_serving\<rparr>;
          f = classify_push MSG_RPC_RESPONSE Response_shape (classify_push MSG_RPC_REQUEST Request_shape f);
          f = handle_push MSG_RPC_RESPONSE Rpc_responded (handle_push MSG_RPC_REQUEST Rpc_requested f)
      in hear_reconnect ''rpc'' ''workers'' RPC_client (hear_disconnect RPC_client
           (handle_push MSG_RPC_LIFECYCLE Rpc_informed f)))"

definition join_lease :: "client \<Rightarrow> client" where
  "join_lease f =
     (let f = f\<lparr>f_acquire := new_acq, f_lease := new_registry (buffer_size f)\<rparr>;
          f = handle_push MSG_LEASE_NOTIFY Lease_changed (handle_push MSG_LEASE_ACQUIRE Lease_granted f)
      in hear_close Lease_client (hear_reconnect ''lease'' ''changes'' Lease_client
           (hear_disconnect Lease_client f)))"

definition join_notice :: "client \<Rightarrow> client" where
  "join_notice f = hear_close Notice_client (hear_reconnect ''notice'' ''subscriptions'' Notice_client
     (handle_push MSG_NOTICE_NOTIFY Noticed (f\<lparr>f_notice := new_registry (buffer_size f)\<rparr>)))"

definition join_stream :: "client \<Rightarrow> client" where
  "join_stream f = hear_close Stream_client (hear_reconnect ''stream'' ''commits'' Stream_client
     (handle_push MSG_STREAM_NOTIFY Stream_committed (f\<lparr>f_stream := new_registry (buffer_size f)\<rparr>)))"

definition join_schedule :: "client \<Rightarrow> client" where
  "join_schedule f = hear_close Schedule_client (hear_reconnect ''schedule'' ''notifications'' Schedule_client
     (handle_push MSG_SCHEDULE_NOTIFY Schedule_fired (f\<lparr>f_schedule := new_registry (buffer_size f)\<rparr>)))"

text \<open>A connection without members; what the members' fields hold before they join is not read.\<close>

definition bare_client :: "config \<Rightarrow> client" where
  "bare_client g = \<lparr>f_conn = new_conn g, f_closed = False, f_handlers = [], f_classifiers = [],
     f_reconnect = [], f_reports = [], f_kv = new_registry 0, f_queue = new_registry 0,
     f_stream = new_registry 0, f_schedule = new_registry 0, f_lease = new_registry 0,
     f_acquire = new_acq, f_notice = new_registry 0, f_calls = no_calls, f_serving = no_serving\<rparr>"

definition new_client :: "config \<Rightarrow> client" where
  "new_client g =
     join_schedule (join_stream (join_notice (join_lease (join_rpc (join_queue (join_kv (bare_client g)))))))"

definition make_client :: "client_args \<Rightarrow> exn + client" where
  "make_client a =
     (let g = client_config a in
      case check_config g of Some e \<Rightarrow> Inl e | None \<Rightarrow> Inr (new_client g))"

section \<open>Pushes\<close>

text \<open>What handlers take from outside: \<open>json.loads\<close>, the clock, the answer of the dispatcher.\<close>

record outside =
  en_json :: "bytes \<Rightarrow> exn + json"
  en_now :: rat
  en_taken :: bool

fun run_handler :: "outside \<Rightarrow> handler \<Rightarrow> bytes \<Rightarrow> client \<Rightarrow> exn option \<times> client" where
  "run_handler en Kv_changed b f = (let (e, r) = kv_notify b (f_kv f) in (e, f\<lparr>f_kv := r\<rparr>))"
| "run_handler en Queue_available b f = (let (e, r) = queue_notify b (f_queue f) in (e, f\<lparr>f_queue := r\<rparr>))"
| "run_handler en Stream_committed b f =
     (let (e, r) = stream_notify (en_json en) b (f_stream f) in (e, f\<lparr>f_stream := r\<rparr>))"
| "run_handler en Schedule_fired b f = (let (e, r) = sched_notify b (f_schedule f) in (e, f\<lparr>f_schedule := r\<rparr>))"
| "run_handler en Noticed b f = (let (e, r) = notice_notify b (f_notice f) in (e, f\<lparr>f_notice := r\<rparr>))"
| "run_handler en Lease_changed b f = (let (e, r) = lease_notify b (f_lease f) in (e, f\<lparr>f_lease := r\<rparr>))"
| "run_handler en Lease_granted b f = (None, f\<lparr>f_acquire := queued_reply b (f_acquire f)\<rparr>)"
| "run_handler en Rpc_requested b f =
     (let (e, s) = on_request b (en_now en) (en_taken en) (f_serving f) in (e, f\<lparr>f_serving := s\<rparr>))"
| "run_handler en Rpc_responded b f = (let (e, s) = on_response b (f_calls f) in (e, f\<lparr>f_calls := s\<rparr>))"
| "run_handler en Rpc_informed b f =
     (None, f\<lparr>f_serving := worker_lifecycle b (f_serving f), f_calls := caller_lifecycle b (f_calls f)\<rparr>)"

fun shape_test :: "shape \<Rightarrow> bytes \<Rightarrow> bool" where
  "shape_test Request_shape b = looks_like_request b"
| "shape_test Response_shape b = looks_like_response b"

text \<open>The multiplexer with the registered methods, and the connection with it.\<close>

definition installed :: "outside \<Rightarrow> client \<Rightarrow> mux" where
  "installed en f = (c_mux (f_conn f))
     \<lparr>m_handlers := (\<lambda>t. map_option (\<lambda>h b. fst (run_handler en h b f)) (map_of (f_handlers f) t)),
      m_classifiers := (\<lambda>t. map_option (\<lambda>s b. Inr (shape_test s b)) (map_of (f_classifiers f) t))\<rparr>"

text \<open>The effects of the handlers that the multiplexer called.\<close>

fun run_handled :: "outside \<Rightarrow> (int \<times> bytes) list \<Rightarrow> client \<Rightarrow> client" where
  "run_handled en [] f = f"
| "run_handled en ((t, b) # ps) f =
     run_handled en ps (case map_of (f_handlers f) t of None \<Rightarrow> f | Some h \<Rightarrow> snd (run_handler en h b f))"

section \<open>Listeners\<close>

text \<open>Only the RPC and the lease client listen for disconnects, and the RPC client not for the end.\<close>

fun member_disconnect :: "member \<Rightarrow> client \<Rightarrow> client" where
  "member_disconnect RPC_client f =
     f\<lparr>f_calls := calls_disconnect (f_calls f), f_serving := serving_disconnect (f_serving f)\<rparr>"
| "member_disconnect Lease_client f = f\<lparr>f_acquire := acq_disconnect (f_acquire f)\<rparr>"
| "member_disconnect m f = f"

fun member_close :: "member \<Rightarrow> client \<Rightarrow> client" where
  "member_close KV_client f = f\<lparr>f_kv := terminate None (f_kv f)\<rparr>"
| "member_close Queue_client f = f\<lparr>f_queue := terminate None (f_queue f)\<rparr>"
| "member_close Stream_client f = f\<lparr>f_stream := terminate None (f_stream f)\<rparr>"
| "member_close Schedule_client f = f\<lparr>f_schedule := terminate None (f_schedule f)\<rparr>"
| "member_close Lease_client f = f\<lparr>f_lease := terminate None (f_lease f)\<rparr>"
| "member_close Notice_client f = f\<lparr>f_notice := notice_terminate (f_notice f)\<rparr>"
| "member_close RPC_client f = f"

definition perform :: "call \<Rightarrow> client \<Rightarrow> client" where
  "perform c f =
     (case c of
        On_disconnect n \<Rightarrow> (case member_at n of None \<Rightarrow> f | Some m \<Rightarrow> member_disconnect m f)
      | On_close n \<Rightarrow> (case member_at n of None \<Rightarrow> f | Some m \<Rightarrow> member_close m f)
      | On_goaway _ _ _ \<Rightarrow> f)"

text \<open>The connection did something: its calls of listeners reach the members.\<close>

definition absorb :: "conn \<Rightarrow> client \<Rightarrow> client" where
  "absorb c f = fold perform (drop (length (c_calls (f_conn f))) (c_calls c)) (f\<lparr>f_conn := c\<rparr>)"

definition client_lost :: "(nat \<Rightarrow> exn option) \<Rightarrow> client \<Rightarrow> client" where
  "client_lost hears f = absorb (connection_lost hears (f_conn f)) f"

text \<open>One turn of the receive loop with a message.\<close>

definition client_frame :: "outside \<Rightarrow> (nat \<Rightarrow> exn option) \<Rightarrow> bytes \<Rightarrow> client \<Rightarrow> client" where
  "client_frame en hears data f =
     (let m = installed en f;
          (e, c) = dispatch_transport_frame data ((f_conn f)\<lparr>c_mux := m\<rparr>);
          f = run_handled en (drop (length (m_handled m)) (m_handled (c_mux c))) (absorb c f)
      in case e of None \<Rightarrow> f | Some e \<Rightarrow> absorb (receive_failed e hears (f_conn f)) f)"

section \<open>The client's own methods\<close>

definition client_choice :: "client \<Rightarrow> choice" where
  "client_choice f = (if f_closed f then Refuse FitzConnectionError else connect_choice (f_conn f))"

definition client_aclose :: "(nat \<Rightarrow> exn option) \<Rightarrow> client \<Rightarrow> exn option \<times> client" where
  "client_aclose hears f =
     (let f = f\<lparr>f_closed := True\<rparr>; (e, c) = close_connection hears (f_conn f) in (e, absorb c f))"

section \<open>Restoration\<close>

text \<open>
  What a member does after a reconnect. The broker is a link without a state: during one
  restoration no frame is sent twice, so its answer may be a function of the frame.
\<close>

definition report_all :: "string \<Rightarrow> (ustr \<times> exn) list \<Rightarrow> client \<Rightarrow> client" where
  "report_all dmn errs f = f\<lparr>f_reports := f_reports f @ map (Pair dmn) errs\<rparr>"

definition restore_member ::
  "string \<Rightarrow> (ustr \<Rightarrow> (unit, int) io) \<Rightarrow> 'a registry \<Rightarrow> exn option \<times> (ustr \<times> exn) list \<times> 'a registry" where
  "restore_member dmn wire r = restore dmn (\<lambda>reg. fst (wire reg ())) r"

fun member_restore :: "unit link \<Rightarrow> member \<Rightarrow> client \<Rightarrow> exn option \<times> client" where
  "member_restore lk KV_client f =
     (let (e, errs, r) = restore_member ''kv'' (kv_subscribe_wire lk) (f_kv f)
      in (e, report_all ''kv'' errs (f\<lparr>f_kv := r\<rparr>)))"
| "member_restore lk Queue_client f =
     (let (e, errs, r) = restore_member ''queue'' (queue_subscribe_wire lk) (f_queue f)
      in (e, report_all ''queue'' errs (f\<lparr>f_queue := r\<rparr>)))"
| "member_restore lk Stream_client f =
     (let (e, errs, r) = restore_member ''stream'' (stream_subscribe_wire lk) (f_stream f)
      in (e, report_all ''stream'' errs (f\<lparr>f_stream := r\<rparr>)))"
| "member_restore lk Schedule_client f =
     (let (e, errs, r) = restore_member ''schedule'' (sched_subscribe_wire lk) (f_schedule f)
      in (e, report_all ''schedule'' errs (f\<lparr>f_schedule := r\<rparr>)))"
| "member_restore lk Lease_client f =
     (let (e, errs, r) = restore_member ''lease'' (lease_subscribe_wire lk) (f_lease f)
      in (e, report_all ''lease'' errs (f\<lparr>f_lease := r\<rparr>)))"
| "member_restore lk Notice_client f =
     (let ((e, errs), r, _) = notice_restore lk (f_notice f, ())
      in (e, report_all ''notice'' errs (f\<lparr>f_notice := r\<rparr>)))"
| "member_restore lk RPC_client f =
     (let ws = sv_table (f_serving f); ((e, ws', errs), _) = restore_workers lk ws ws [] ()
      in (e, report_all ''rpc'' errs (f\<lparr>f_serving := (f_serving f)\<lparr>sv_table := ws'\<rparr>\<rparr>)))"

definition client_restore :: "unit link \<Rightarrow> client \<Rightarrow> exn option \<times> (reg_key \<times> exn) list \<times> client" where
  "client_restore lk f = restore_registrations (member_restore lk) (f_reconnect f) f"

section \<open>Steps\<close>

text \<open>What a domain client and the consumers do to a registry; the broker hands out unused ids.\<close>

inductive reg_step :: "'a registry \<Rightarrow> 'a registry \<Rightarrow> bool" where
  subscribes: "(\<And>sid e. reply = Replied sid \<or> reply = CancelledReplied sid e \<Longrightarrow> by_id r sid = None) \<Longrightarrow>
    reg_step r (snd (subscribe reg reply r))"
| closes: "reg_step r (consumer_aclose reg c failed r)"
| publishes: "reg_step r (publish sid x r)"
| fails: "reg_step r (fail_registration reg e r)"
| ends: "reg_step r (terminate e r)"
| restores: "map_of (by_registration r) reg = Some w \<Longrightarrow>
    (\<And>sid. a = Inr sid \<Longrightarrow> by_id r sid = None \<or> by_id r sid = Some reg) \<Longrightarrow> reg_step r (restore_one d reg w a r)"
| consumes: "reg_step r (r\<lparr>subs := st\<rparr>)"

definition notice_moves :: "notices \<Rightarrow> notices \<Rightarrow> bool" where
  "notice_moves r r' \<longleftrightarrow> (\<exists>lk :: unit link. notice_step lk r r')"

text \<open>The members never take their listeners back.\<close>

definition all_heard :: "conn \<Rightarrow> bool" where
  "all_heard c \<longleftrightarrow> {2, 3} \<subseteq> set (c_disconnect_listeners c) \<and> {0, 1, 3, 4, 5, 6} \<subseteq> set (c_close_listeners c)"

text \<open>
  A step of the connection that calls no handler, a turn of the receive loop, \<open>aclose\<close>, and the
  members' own operations. Restoring a registration is among the latter.
\<close>

inductive client_step :: "client \<Rightarrow> client \<Rightarrow> bool" where
  session: "conn_step ((f_conn f)\<lparr>c_mux := installed en f\<rparr>) c \<Longrightarrow> all_heard c \<Longrightarrow>
    m_handled (c_mux c) = m_handled (c_mux (f_conn f)) \<Longrightarrow> client_step f (absorb c f)"
| frame: "c_transport (f_conn f) \<noteq> None \<Longrightarrow> c_receive (f_conn f) = Some r \<Longrightarrow> r \<notin> set (c_receive_done (f_conn f)) \<Longrightarrow>
    \<not> c_closed (f_conn f) \<Longrightarrow> client_step f (client_frame en hears data f)"
| shuts: "client_step f (snd (client_aclose hears f))"
| kv: "reg_step (f_kv f) r \<Longrightarrow> client_step f (f\<lparr>f_kv := r\<rparr>)"
| queue: "reg_step (f_queue f) r \<Longrightarrow> client_step f (f\<lparr>f_queue := r\<rparr>)"
| stream: "reg_step (f_stream f) r \<Longrightarrow> client_step f (f\<lparr>f_stream := r\<rparr>)"
| schedule: "reg_step (f_schedule f) r \<Longrightarrow> client_step f (f\<lparr>f_schedule := r\<rparr>)"
| lease: "reg_step (f_lease f) r \<Longrightarrow> client_step f (f\<lparr>f_lease := r\<rparr>)"
| notice: "notice_moves (f_notice f) r \<Longrightarrow> client_step f (f\<lparr>f_notice := r\<rparr>)"
| acquire: "acq_step True (f_acquire f) s \<Longrightarrow> client_step f (f\<lparr>f_acquire := s\<rparr>)"
| calls: "call_step (f_calls f) s \<Longrightarrow> client_step f (f\<lparr>f_calls := s\<rparr>)"
| serving: "serve_step (f_serving f) s \<Longrightarrow> client_step f (f\<lparr>f_serving := s\<rparr>)"

inductive client_reach :: "config \<Rightarrow> client \<Rightarrow> bool" for g where
  start: "client_reach g (new_client g)"
| step: "client_reach g f \<Longrightarrow> client_step f f' \<Longrightarrow> client_reach g f'"

section \<open>The wiring\<close>

definition wired :: "client \<Rightarrow> bool" where
  "wired f \<longleftrightarrow>
     f_handlers f = [(111, Kv_changed), (209, Queue_available), (302, Rpc_requested), (303, Rpc_responded),
       (305, Rpc_informed), (400, Lease_granted), (409, Lease_changed), (504, Noticed),
       (609, Stream_committed), (705, Schedule_fired)] \<and>
     f_classifiers f = [(302, Request_shape), (303, Response_shape)] \<and>
     map snd (f_reconnect f) = member_list \<and> distinct (map fst (f_reconnect f)) \<and>
     all_heard (f_conn f)"

lemma join_simps:
  "f_conn (handle_push t h f) = f_conn f" "f_conn (classify_push t s f) = f_conn f"
  "f_conn (hear_reconnect d r m f) = f_conn f" "f_conn (hear_disconnect m f) = on_disconnect (member_no m) (f_conn f)"
  "f_conn (hear_close m f) = on_close (member_no m) (f_conn f)"
  "c_config (on_disconnect n c) = c_config c" "c_config (on_close n c) = c_config c"
  by (simp_all add: handle_push_def classify_push_def hear_reconnect_def hear_disconnect_def hear_close_def
      on_disconnect_def on_close_def)

lemmas join_defs = join_kv_def join_queue_def join_rpc_def join_lease_def join_notice_def join_stream_def
  join_schedule_def handle_push_def classify_push_def hear_reconnect_def hear_disconnect_def hear_close_def

lemma new_client_fields:
  "f_kv (new_client g) = new_registry (nat (subscription_buffer_size (limits g)))"
  "f_queue (new_client g) = new_registry (nat (subscription_buffer_size (limits g)))"
  "f_stream (new_client g) = new_registry (nat (subscription_buffer_size (limits g)))"
  "f_schedule (new_client g) = new_registry (nat (subscription_buffer_size (limits g)))"
  "f_lease (new_client g) = new_registry (nat (subscription_buffer_size (limits g)))"
  "f_notice (new_client g) = new_registry (nat (subscription_buffer_size (limits g)))"
  "f_calls (new_client g) = no_calls" "f_serving (new_client g) = no_serving" "f_acquire (new_client g) = new_acq"
  "\<not> f_closed (new_client g)" "f_reports (new_client g) = []"
  "f_conn (new_client g) = (new_conn g)\<lparr>c_disconnect_listeners := [3, 2], c_close_listeners := [6, 5, 4, 3, 1, 0]\<rparr>"
  by (simp_all add: new_client_def bare_client_def join_defs buffer_size_def on_disconnect_def on_close_def
      new_conn_def Let_def)

lemma new_client_wired: "wired (new_client g)"
proof -
  have "f_handlers (new_client g) = [(111, Kv_changed), (209, Queue_available), (302, Rpc_requested), (303, Rpc_responded),
       (305, Rpc_informed), (400, Lease_granted), (409, Lease_changed), (504, Noticed),
       (609, Stream_committed), (705, Schedule_fired)]"
    "f_classifiers (new_client g) = [(302, Request_shape), (303, Response_shape)]"
    by (simp_all add: new_client_def bare_client_def join_defs Let_def)
  moreover have "map snd (f_reconnect (new_client g)) = member_list \<and> distinct (map fst (f_reconnect (new_client g)))"
    by (simp add: new_client_def bare_client_def join_defs Let_def on_reconnect_def UNKNOWN_def lit_def member_list_def)
  ultimately show ?thesis by (simp add: wired_def all_heard_def new_client_fields(12))
qed

end
