(* ===== verification/Client_Proofs.thy ===== *)
theory Client_Proofs
  imports Client
begin

text \<open>
  What the wiring guarantees: every member only ever sees steps of its own component, a push
  reaches the member that registered for its type and nobody else, a lost connection and the end
  reach all of them.
\<close>

section \<open>Members move by their own steps\<close>

definition follows :: "client \<Rightarrow> client \<Rightarrow> bool" where
  "follows f f' \<longleftrightarrow>
     f_handlers f' = f_handlers f \<and> f_classifiers f' = f_classifiers f \<and> f_reconnect f' = f_reconnect f \<and>
     reg_step\<^sup>*\<^sup>* (f_kv f) (f_kv f') \<and> reg_step\<^sup>*\<^sup>* (f_queue f) (f_queue f') \<and>
     reg_step\<^sup>*\<^sup>* (f_stream f) (f_stream f') \<and> reg_step\<^sup>*\<^sup>* (f_schedule f) (f_schedule f') \<and>
     reg_step\<^sup>*\<^sup>* (f_lease f) (f_lease f') \<and> notice_moves\<^sup>*\<^sup>* (f_notice f) (f_notice f') \<and>
     (acq_step True)\<^sup>*\<^sup>* (f_acquire f) (f_acquire f') \<and> call_step\<^sup>*\<^sup>* (f_calls f) (f_calls f') \<and>
     serve_step\<^sup>*\<^sup>* (f_serving f) (f_serving f')"

lemma follows_refl [simp]: "follows f f"
  by (simp add: follows_def)

lemma follows_trans: "follows f f' \<Longrightarrow> follows f' f'' \<Longrightarrow> follows f f''"
  unfolding follows_def by (metis rtranclp_trans)

lemma follows_conn [simp]:
  "follows f (f'\<lparr>f_conn := c\<rparr>) = follows f f'" "follows f (f'\<lparr>f_closed := b\<rparr>) = follows f f'"
  by (simp_all add: follows_def)

lemma registry_notify_moves: "reg_step\<^sup>*\<^sup>* r (snd (registry_notify decode b r))"
  by (auto simp: registry_notify_def intro: reg_step.publishes split: sum.split)

lemma follows_handler: "follows f (snd (run_handler en h b f))"
proof (cases h)
  case Noticed
  have "notice_moves (f_notice f) (snd (notice_notify b (f_notice f)))"
    unfolding notice_moves_def using notice_step.arrived by blast
  then show ?thesis using Noticed by (simp add: follows_def split_beta)
next
  case Rpc_requested
  then show ?thesis
    using serve_step.request [of "f_serving f" b "en_now en" "en_taken en"] by (simp add: follows_def split_beta r_into_rtranclp)
next
  case Rpc_responded
  then show ?thesis using call_step.response [of "f_calls f" b] by (simp add: follows_def split_beta r_into_rtranclp)
next
  case Rpc_informed
  then show ?thesis using call_step.lifecycle [of "f_calls f" b] serve_step.lifecycle [of "f_serving f" b]
    by (simp add: follows_def r_into_rtranclp)
next
  case Lease_granted
  then show ?thesis using acq_step.push [of True "f_acquire f" b] by (simp add: follows_def r_into_rtranclp)
qed (use registry_notify_moves in \<open>simp_all add: follows_def split_beta kv_notify_def queue_notify_def
      stream_notify_def sched_notify_def lease_notify_def\<close>)

lemma follows_handled: "follows f (run_handled en ps f)"
proof (induction ps arbitrary: f)
  case (Cons p ps)
  obtain t b where p: "p = (t, b)" by (cases p)
  show ?case
  proof (cases "map_of (f_handlers f) t")
    case (Some h)
    then show ?thesis using follows_trans [OF follows_handler Cons.IH] by (simp add: p)
  qed (simp add: p Cons.IH)
qed simp

lemma follows_perform: "follows f (perform c f)"
proof -
  have 1: "follows f (member_disconnect m f)" for m
    using call_step.lost [of "f_calls f"] serve_step.lost [of "f_serving f"] acq_step.lost [of True "f_acquire f"]
    by (cases m) (simp_all add: follows_def r_into_rtranclp)
  have "notice_moves (f_notice f) (notice_terminate (f_notice f))"
    unfolding notice_moves_def using notice_step.terminated by blast
  then have 2: "follows f (member_close m f)" for m
    by (cases m) (simp_all add: follows_def r_into_rtranclp reg_step.ends)
  show ?thesis using 1 2 by (auto simp: perform_def split: call.split option.split)
qed

lemma follows_performs: "follows f (fold perform cs f)"
proof (induction cs arbitrary: f)
  case (Cons c cs)
  from follows_trans [OF follows_perform Cons.IH] show ?case by simp
qed simp

lemma follows_absorb: "follows f (absorb c f)"
  using follows_performs [of "f\<lparr>f_conn := c\<rparr>"] by (simp add: absorb_def follows_def)

section \<open>The connection of a client\<close>

lemma member_conn [simp]:
  "f_conn (member_disconnect m f) = f_conn f" "f_conn (member_close m f) = f_conn f"
  by (cases m; simp)+

lemma perform_conn [simp]: "f_conn (perform c f) = f_conn f" "f_closed (perform c f) = f_closed f"
proof -
  have "f_closed (member_disconnect m f) = f_closed f" "f_closed (member_close m f) = f_closed f" for m
    by (cases m; simp)+
  then show "f_conn (perform c f) = f_conn f" "f_closed (perform c f) = f_closed f"
    by (simp_all add: perform_def split: call.split option.split)
qed

lemma performs_conn [simp]: "f_conn (fold perform cs f) = f_conn f" "f_closed (fold perform cs f) = f_closed f"
  by (induction cs arbitrary: f) simp_all

lemma absorb_conn [simp]: "f_conn (absorb c f) = c" "f_closed (absorb c f) = f_closed f"
  by (simp_all add: absorb_def)

lemma run_handler_conn [simp]: "f_conn (snd (run_handler en h b f)) = f_conn f"
  by (cases h) (simp_all add: split_beta)

lemma run_handled_conn [simp]: "f_conn (run_handled en ps f) = f_conn f"
proof (induction ps arbitrary: f)
  case (Cons p ps)
  then show ?case by (cases p) (simp split: option.split)
qed simp

lemma client_frame_conn:
  "f_conn (client_frame en hears data f) =
     (case dispatch_transport_frame data ((f_conn f)\<lparr>c_mux := installed en f\<rparr>) of
        (None, c) \<Rightarrow> c | (Some e, c) \<Rightarrow> receive_failed e hears c)"
  by (simp add: client_frame_def Let_def split: prod.split option.split)

lemma follows_frame: "follows f (client_frame en hears data f)"
  using follows_trans [OF follows_absorb follows_handled]
    follows_trans [OF follows_trans [OF follows_absorb follows_handled] follows_absorb]
  by (simp add: client_frame_def Let_def split: prod.split option.split)

lemma follows_aclose: "follows f (snd (client_aclose hears f))"
  using follows_absorb [of "f\<lparr>f_closed := True\<rparr>"]
  by (simp add: client_aclose_def Let_def split_beta follows_def)

lemma client_aclose_conn: "f_conn (snd (client_aclose hears f)) = snd (close_connection hears (f_conn f))"
  by (simp add: client_aclose_def Let_def split_beta)

lemma client_step_follows: "client_step f f' \<Longrightarrow> follows f f'"
proof (induction rule: client_step.induct)
  case (session f en c)
  then show ?case by (simp add: follows_absorb)
qed (use follows_frame follows_aclose in \<open>simp_all add: follows_def r_into_rtranclp\<close>)

text \<open>Installing the handlers is traffic.\<close>

lemma installed_session [simp]:
  "m_version (installed en f) = m_version (c_mux (f_conn f))"
  "m_connected (installed en f) = m_connected (c_mux (f_conn f))"
  "m_handled (installed en f) = m_handled (c_mux (f_conn f))"
  "m_lanes (installed en f) = m_lanes (c_mux (f_conn f))"
  "m_reported (installed en f) = m_reported (c_mux (f_conn f))"
  by (simp_all add: installed_def)

lemma install_step: "conn_step (f_conn f) ((f_conn f)\<lparr>c_mux := installed en f\<rparr>)"
  using conn_step.traffic [of "installed en f" "f_conn f" "c_gate (f_conn f)"] by simp

lemma frame_conn_steps:
  assumes "c_transport (f_conn f) \<noteq> None" "c_receive (f_conn f) = Some r" "r \<notin> set (c_receive_done (f_conn f))"
    "\<not> c_closed (f_conn f)"
  shows "conn_step\<^sup>*\<^sup>* (f_conn f) (f_conn (client_frame en hears data f))"
proof -
  let ?c = "(f_conn f)\<lparr>c_mux := installed en f\<rparr>"
  obtain e c where d: "dispatch_transport_frame data ?c = (e, c)" by fastforce
  have "conn_step ?c (f_conn (client_frame en hears data f))"
  proof (cases e)
    case None
    then show ?thesis using d conn_step.frame [of ?c r data c] assms by (simp add: client_frame_conn)
  next
    case (Some x)
    then show ?thesis using d conn_step.bad_frame [of ?c r data x c hears] assms by (simp add: client_frame_conn)
  qed
  then show ?thesis using install_step by (meson converse_rtranclp_into_rtranclp r_into_rtranclp)
qed

lemma client_step_conn: "client_step f f' \<Longrightarrow> conn_step\<^sup>*\<^sup>* (f_conn f) (f_conn f')"
proof (induction rule: client_step.induct)
  case (session f en c)
  then show ?case using install_step by (metis absorb_conn(1) converse_rtranclp_into_rtranclp r_into_rtranclp)
next
  case (frame f r en hears data)
  then show ?case by (rule frame_conn_steps)
next
  case (shuts f hears)
  then show ?case using conn_step.closing by (simp add: client_aclose_conn r_into_rtranclp)
qed simp_all

lemma conn_reach_steps: "conn_step\<^sup>*\<^sup>* c c' \<Longrightarrow> conn_reach g c \<Longrightarrow> conn_reach g c'"
  by (induction rule: rtranclp_induct) (auto intro: conn_reach.step)

section \<open>The listeners stay\<close>

lemma set_state_listeners [simp]:
  "c_disconnect_listeners (set_state s ev c) = c_disconnect_listeners c"
  "c_close_listeners (set_state s ev c) = c_close_listeners c"
  "c_disconnect_listeners (settle_auth x c) = c_disconnect_listeners c"
  "c_close_listeners (settle_auth x c) = c_close_listeners c"
  by (simp_all add: set_state_def emit_def settle_auth_def)

lemma dispatch_listeners:
  "dispatch_transport_frame data c = (e, c') \<Longrightarrow>
   c_disconnect_listeners c' = c_disconnect_listeners c \<and> c_close_listeners c' = c_close_listeners c"
  by (auto simp: dispatch_transport_frame_def handle_hello_def handle_goaway_def set_max_frame_size_def Let_def split_beta
      split: if_splits sum.splits list.splits prod.splits)

lemma lost_listeners [simp]:
  "c_disconnect_listeners (connection_lost hears c) = c_disconnect_listeners c"
  "c_close_listeners (connection_lost hears c) = c_close_listeners c"
  by (simp_all add: connection_lost_def Let_def listener_simps)

lemma receive_failed_listeners [simp]:
  "c_disconnect_listeners (receive_failed e hears c) = c_disconnect_listeners c"
  "c_close_listeners (receive_failed e hears c) = c_close_listeners c"
  by (simp_all add: receive_failed_def Let_def)

lemma close_listeners [simp]:
  "c_disconnect_listeners (snd (close_connection hears c)) = c_disconnect_listeners c"
  "c_close_listeners (snd (close_connection hears c)) = c_close_listeners c"
  by (simp_all add: close_connection_def Let_def listener_simps)

lemma all_heard_cong:
  "c_disconnect_listeners c' = c_disconnect_listeners c \<Longrightarrow> c_close_listeners c' = c_close_listeners c \<Longrightarrow>
   all_heard c' = all_heard c"
  by (simp add: all_heard_def)

lemma frame_heard: "all_heard (f_conn (client_frame en hears data f)) = all_heard (f_conn f)"
proof -
  obtain e c where d: "dispatch_transport_frame data ((f_conn f)\<lparr>c_mux := installed en f\<rparr>) = (e, c)" by fastforce
  from dispatch_listeners [OF this] show ?thesis
    by (intro all_heard_cong) (simp_all add: client_frame_conn d split: option.split)
qed

lemma client_step_wired: "client_step f f' \<Longrightarrow> wired f \<Longrightarrow> wired f'"
proof -
  assume s: "client_step f f'" and w: "wired f"
  from s w have "all_heard (f_conn f')"
  proof (induction rule: client_step.induct)
    case (frame f r en hears data)
    then show ?case by (simp add: frame_heard wired_def)
  next
    case (shuts f hears)
    then show ?case by (simp add: client_aclose_conn wired_def all_heard_def)
  qed (simp_all add: wired_def)
  then show "wired f'" using w client_step_follows [OF s] by (simp add: wired_def follows_def)
qed

section \<open>Composition\<close>

lemma reg_step_inv: "reg_step r r' \<Longrightarrow> reg_inv r \<Longrightarrow> reg_inv r'"
proof (induction rule: reg_step.induct)
  case (subscribes reply r reg)
  then show ?case using reg_inv_subscribe by metis
next
  case (restores r reg w a d)
  then show ?case using reg_inv_restore_one by metis
qed (simp_all add: reg_inv_aclose reg_inv_publish reg_inv_fail reg_inv_terminate reg_inv_subs)

lemma reg_steps_inv: "reg_step\<^sup>*\<^sup>* (new_registry n) r \<Longrightarrow> reg_inv r"
  by (induction rule: rtranclp_induct) (auto intro: reg_inv_new reg_step_inv)

lemma notice_moves_inv: "notice_moves\<^sup>*\<^sup>* (new_registry n) r \<Longrightarrow> reg_inv r"
  by (induction rule: rtranclp_induct) (auto simp: notice_moves_def intro: reg_inv_new notice_step_inv)

lemma client_reach_follows:
  assumes "client_reach g f"
  shows "wired f \<and> conn_step\<^sup>*\<^sup>* (f_conn (new_client g)) (f_conn f) \<and> follows (new_client g) f"
  using assms
proof (induction rule: client_reach.induct)
  case start
  show ?case by (simp add: new_client_wired)
next
  case (step f f')
  then show ?case
    by (meson client_step_wired client_step_conn client_step_follows follows_trans rtranclp_trans)
qed

lemma new_client_conn: "conn_reach g (f_conn (new_client g))"
proof -
  have "conn_reach g ((new_conn g)\<lparr>c_disconnect_listeners := [3, 2]\<rparr>)"
    by (rule conn_reach.step [OF conn_reach.start conn_step.listen_disconnect])
  from conn_reach.step [OF this conn_step.listen_close] show ?thesis by (simp add: new_client_fields(12))
qed

lemma reach_by_steps:
  "call_step\<^sup>*\<^sup>* no_calls st \<Longrightarrow> call_reach st" "serve_step\<^sup>*\<^sup>* no_serving sv \<Longrightarrow> serve_reach sv"
  "(acq_step True)\<^sup>*\<^sup>* new_acq aq \<Longrightarrow> acq_reach aq"
proof -
  show "call_step\<^sup>*\<^sup>* no_calls st \<Longrightarrow> call_reach st"
    by (induction rule: rtranclp_induct) (auto intro: call_reach.intros)
  show "serve_step\<^sup>*\<^sup>* no_serving sv \<Longrightarrow> serve_reach sv"
    by (induction rule: rtranclp_induct) (auto intro: serve_reach.intros)
  show "(acq_step True)\<^sup>*\<^sup>* new_acq aq \<Longrightarrow> acq_reach aq"
    by (induction rule: rtranclp_induct) (auto intro: acq_reach.intros)
qed

lemma client_parts:
  assumes "client_reach g f"
  shows "wired f" "conn_reach g (f_conn f)" "call_reach (f_calls f)" "serve_reach (f_serving f)"
    "acq_reach (f_acquire f)" "reg_inv (f_kv f)" "reg_inv (f_queue f)" "reg_inv (f_stream f)"
    "reg_inv (f_schedule f)" "reg_inv (f_lease f)" "reg_inv (f_notice f)"
  using client_reach_follows [OF assms] reg_steps_inv notice_moves_inv
    conn_reach_steps [OF _ new_client_conn] reach_by_steps
  by (auto simp: follows_def new_client_fields(1-9))

section \<open>A client connects\<close>

text \<open>What the life cycle leaves alone while nobody is told anything.\<close>

definition same_side :: "conn \<Rightarrow> conn \<Rightarrow> bool" where
  "same_side c c' \<longleftrightarrow>
     c_disconnect_listeners c' = c_disconnect_listeners c \<and> c_close_listeners c' = c_close_listeners c \<and>
     c_calls c' = c_calls c \<and> m_handlers (c_mux c') = m_handlers (c_mux c) \<and>
     m_classifiers (c_mux c') = m_classifiers (c_mux c) \<and> m_handled (c_mux c') = m_handled (c_mux c) \<and>
     m_lanes (c_mux c') = m_lanes (c_mux c)"

lemma same_side_set_state [simp]: "same_side c (set_state s ev c') = same_side c c'"
  by (simp add: same_side_def set_state_def emit_def)

lemma same_side_trans: "same_side c c' \<Longrightarrow> same_side c' c'' \<Longrightarrow> same_side c c''"
  by (simp add: same_side_def)

lemma handler_other_conn [simp]: "fst (run_handler en h b (f\<lparr>f_conn := c\<rparr>)) = fst (run_handler en h b f)"
  by (cases h) (simp_all add: split_beta)

definition equipped :: "outside \<Rightarrow> client \<Rightarrow> conn" where
  "equipped en f = (f_conn f)\<lparr>c_mux := installed en f\<rparr>"

lemma equipped_again: "same_side (equipped en f) c \<Longrightarrow> equipped en (f\<lparr>f_conn := c\<rparr>) = c"
  by (simp add: equipped_def installed_def same_side_def)

lemma equipped_side: "c_disconnect_listeners (equipped en f) = c_disconnect_listeners (f_conn f)"
  "c_close_listeners (equipped en f) = c_close_listeners (f_conn f)" "c_calls (equipped en f) = c_calls (f_conn f)"
  "m_handled (c_mux (equipped en f)) = m_handled (c_mux (f_conn f))"
  by (simp_all add: equipped_def)

lemma client_session:
  assumes "same_side (equipped en f) c" "conn_step c c'" "same_side c c'" "all_heard (f_conn f)"
  shows "client_step (f\<lparr>f_conn := c\<rparr>) (f\<lparr>f_conn := c'\<rparr>)"
proof -
  let ?f = "f\<lparr>f_conn := c\<rparr>"
  have "conn_step ((f_conn ?f)\<lparr>c_mux := installed en ?f\<rparr>) c'"
    using equipped_again [OF assms(1)] assms(2) by (simp add: equipped_def)
  moreover have "all_heard c'" using assms(1,3,4) by (simp add: all_heard_def same_side_def equipped_side)
  ultimately have "client_step ?f (absorb c' ?f)"
    using assms(1,3) by (intro client_step.session) (simp_all add: same_side_def)
  moreover have "absorb c' ?f = f\<lparr>f_conn := c'\<rparr>" using assms(1,3) by (simp add: absorb_def same_side_def)
  ultimately show ?thesis by simp
qed

lemma parse_encoded:
  assumes "encode_frame t body fl i = Inr data"
  shows "parse_frames data = Inr [\<lparr>message_type = t, flags = fl, correlation_id = i, payload = body\<rparr>]"
proof -
  let ?f = "\<lparr>message_type = t, flags = fl, correlation_id = i, payload = body\<rparr>"
  have frame: "frame_ok ?f" "data = frame_bytes ?f"
    using assms by (auto simp: encode_frame_eq Let_def split: if_splits)
  then have "data \<noteq> []" by (auto simp: frame_bytes_def)
  then show ?thesis using frame by (simp add: parse_frames_def decode_frame_bytes)
qed

lemma hello_side:
  assumes "encode_frame MSG_HELLO body EXTENSIONS_PRESENT 0 = Inr data" "int (length data) \<le> c_max_message c"
    and d: "dispatch_transport_frame data c = (e, c')"
  shows "same_side c c'"
proof (cases "decode_payload body MSG_HELLO EXTENSIONS_PRESENT")
  case (Inl x)
  then have "c' = c" using d assms(2) parse_encoded [OF assms(1)] by (simp add: dispatch_transport_frame_def)
  then show ?thesis by (simp add: same_side_def)
next
  case (Inr x)
  then obtain f ids where "handle_hello f ids c = (e, c')"
    using d assms(2) parse_encoded [OF assms(1)] by (cases x) (simp add: dispatch_transport_frame_def)
  then show ?thesis
    by (auto simp: handle_hello_def set_max_frame_size_def Let_def split_beta same_side_def settle_auth_def
        set_capabilities_def split: if_splits sum.splits)
qed

lemma dial_up_sides:
  assumes ready: "ready_to_dial c" and g: "check_config (c_config c) = None"
  obtains c1 c2 c3 where "conn_step c c1" "conn_step c1 c2" "conn_step c2 c3" "conn_step c3 (dial_up c)"
    "same_side c c1" "same_side c1 c2" "same_side c2 c3" "same_side c3 (dial_up c)"
proof -
  let ?c1 = "snd (open_begin False c)"
  let ?c2 = "dialed_up c"
  note d = dialed_up_state [OF ready]
  have len: "int (length hello_data) \<le> c_max_message ?c2"
    using ready d(8) by (simp add: ready_to_dial_def hello_data_def hello_body_def hello_core_def hello_caps_def)
  obtain c3 where c3: "dispatch_transport_frame hello_data ?c2 = (None, c3)"
    and e: "c_auth c3 = Some Auth_ok" "c_attempt c3 = c_attempt ?c2" "c_transport c3 = c_transport ?c2"
      "c_receive c3 = c_receive ?c2" "c_receive_done c3 = c_receive_done ?c2" "c_closed c3 = c_closed ?c2"
      "c_state c3 = c_state ?c2"
    using dispatch_hello [OF hello_data_encoded(1-3), of ?c2] d len g by auto
  have open_: "\<not> c_closed c" "connect_choice c = Start_connect"
    using ready by (auto simp: ready_to_dial_def connect_choice_start)
  obtain a where a: "c_attempt ?c1 = Some a" "at_phase a = Dialing"
    using open_ by (simp add: open_begin_def set_state_def emit_def Let_def)
  have fresh: "Suc (c_fresh c) \<notin> set (c_receive_done ?c2)" using ready d by (simp add: ready_to_dial_def)
  have eq: "dial_up c = open_authenticated quiet (the (c_attempt c3)) c3" by (simp add: dial_up_def c3)
  show thesis
  proof (rule that)
    show "conn_step c ?c1" by (rule conn_step.start [OF open_(2)])
    show "conn_step ?c1 ?c2" using conn_step.dialed [OF a] a by (simp add: dialed_up_def)
    show "conn_step ?c2 c3" by (rule conn_step.frame [OF _ d(3) fresh d(5) c3]) (simp add: d)
    show "conn_step c3 (dial_up c)" unfolding eq using e d by (intro conn_step.authenticated) simp_all
    show "same_side c ?c1" using open_ by (simp add: open_begin_def Let_def) (simp add: same_side_def)
    show "same_side ?c1 ?c2" by (simp add: dialed_up_def open_dialed_def Let_def same_side_def set_state_def emit_def)
    show "same_side ?c2 c3" by (rule hello_side [OF hello_data_encoded(3) len c3])
    show "same_side c3 (dial_up c)"
      unfolding eq using e d fresh
      by (simp add: open_authenticated_def open_finish_def assert_transport_owner_def Let_def same_side_def
          set_state_def emit_def set_connected_def)
  qed
qed

lemma dial_up_side:
  assumes "ready_to_dial c" "check_config (c_config c) = None"
  shows "same_side c (dial_up c)"
  using dial_up_sides [OF assms] same_side_trans by metis

lemma client_dials:
  assumes reach: "client_reach g f" and ready: "ready_to_dial (equipped en f)" and g: "check_config g = None"
  shows "client_reach g (f\<lparr>f_conn := dial_up (equipped en f)\<rparr>)"
proof -
  have w: "all_heard (f_conn f)" using client_parts(1) [OF reach] by (simp add: wired_def)
  have "c_config (equipped en f) = g"
    using conn_inv_basic(1) [OF conn_inv_reach [OF client_parts(2) [OF reach] g]] by (simp add: equipped_def)
  then obtain c1 c2 c3 where s: "conn_step (equipped en f) c1" "conn_step c1 c2" "conn_step c2 c3"
    "conn_step c3 (dial_up (equipped en f))" and t: "same_side (equipped en f) c1" "same_side c1 c2"
    "same_side c2 c3" "same_side c3 (dial_up (equipped en f))"
    using dial_up_sides [OF ready] g by metis
  have "all_heard c1" "m_handled (c_mux c1) = m_handled (c_mux (f_conn f))" "absorb c1 f = f\<lparr>f_conn := c1\<rparr>"
    using t(1) w by (simp_all add: same_side_def all_heard_def equipped_side absorb_def)
  then have "client_step f (f\<lparr>f_conn := c1\<rparr>)"
    using client_step.session [where f = f and en = en and c = c1] s(1) by (simp add: equipped_def)
  moreover have "client_step (f\<lparr>f_conn := c1\<rparr>) (f\<lparr>f_conn := c2\<rparr>)" by (rule client_session [OF t(1) s(2) t(2) w])
  moreover have "client_step (f\<lparr>f_conn := c2\<rparr>) (f\<lparr>f_conn := c3\<rparr>)"
    by (rule client_session [OF same_side_trans [OF t(1,2)] s(3) t(3) w])
  moreover have "client_step (f\<lparr>f_conn := c3\<rparr>) (f\<lparr>f_conn := dial_up (equipped en f)\<rparr>)"
    by (rule client_session [OF same_side_trans [OF same_side_trans [OF t(1,2)] t(3)] s(4) t(4) w])
  ultimately show ?thesis using reach by (meson client_reach.step)
qed

section \<open>What the listeners do together\<close>

lemma member_at_eq:
  "member_at n = (if n = 0 then Some KV_client else if n = 1 then Some Queue_client else if n = 2 then Some RPC_client
     else if n = 3 then Some Lease_client else if n = 4 then Some Notice_client else if n = 5 then Some Stream_client
     else if n = 6 then Some Schedule_client else None)"
proof (cases "n < 7")
  case True
  then consider "n = 0" | "n = 1" | "n = 2" | "n = 3" | "n = 4" | "n = 5" | "n = 6" by linarith
  then show ?thesis by cases (simp_all add: member_at_def member_list_def)
qed (simp add: member_at_def member_list_def)

lemma calls_disconnect_twice [simp]: "calls_disconnect (calls_disconnect st) = calls_disconnect st"
  by (simp add: calls_disconnect_def [of "calls_disconnect st"])

lemma serving_disconnect_twice [simp]: "serving_disconnect (serving_disconnect st) = serving_disconnect st"
  by (simp add: serving_disconnect_def)

lemma acq_disconnect_twice [simp]: "acq_disconnect (acq_disconnect s) = acq_disconnect s"
  by (simp add: acq_disconnect_def)

lemma terminate_twice [simp]: "terminate e (terminate e r) = terminate e r"
  by (simp add: terminate_def Let_def tell_all_def)

lemma perform_disconnects:
  "fold perform (map On_disconnect ls) f =
     f\<lparr>f_calls := if 2 \<in> set ls then calls_disconnect (f_calls f) else f_calls f,
       f_serving := if 2 \<in> set ls then serving_disconnect (f_serving f) else f_serving f,
       f_acquire := if 3 \<in> set ls then acq_disconnect (f_acquire f) else f_acquire f\<rparr>"
  by (induction ls arbitrary: f) (simp_all add: perform_def member_at_eq)

lemma perform_closes:
  "fold perform (map On_close ls) f =
     f\<lparr>f_kv := if 0 \<in> set ls then terminate None (f_kv f) else f_kv f,
       f_queue := if 1 \<in> set ls then terminate None (f_queue f) else f_queue f,
       f_lease := if 3 \<in> set ls then terminate None (f_lease f) else f_lease f,
       f_notice := if 4 \<in> set ls then terminate None (f_notice f) else f_notice f,
       f_stream := if 5 \<in> set ls then terminate None (f_stream f) else f_stream f,
       f_schedule := if 6 \<in> set ls then terminate None (f_schedule f) else f_schedule f\<rparr>"
  by (induction ls arbitrary: f) (simp_all add: perform_def member_at_eq notice_terminate_registry)

definition interrupted_members :: "client \<Rightarrow> client" where
  "interrupted_members f = f\<lparr>f_calls := calls_disconnect (f_calls f),
     f_serving := serving_disconnect (f_serving f), f_acquire := acq_disconnect (f_acquire f)\<rparr>"

definition ended_members :: "client \<Rightarrow> client" where
  "ended_members f = f\<lparr>f_kv := terminate None (f_kv f), f_queue := terminate None (f_queue f),
     f_lease := terminate None (f_lease f), f_notice := terminate None (f_notice f),
     f_stream := terminate None (f_stream f), f_schedule := terminate None (f_schedule f)\<rparr>"

lemma heard_all: "\<forall>l. hears l \<noteq> Some CancelledError \<Longrightarrow> heard hears ls = ls"
  by (induction ls) simp_all

lemma lost_calls:
  assumes "c_state c \<notin> {DISCONNECTED, RECONNECTING, CLOSED}" "\<forall>l. hears l \<noteq> Some CancelledError"
  shows "c_calls (connection_lost hears c) = c_calls c @ map On_disconnect (c_disconnect_listeners c)"
  using assms by (simp add: connection_lost_def Let_def listener_simps heard_all set_state_def emit_def)

lemma client_lost_eq:
  assumes "all_heard (f_conn f)" "c_state (f_conn f) \<notin> {DISCONNECTED, RECONNECTING, CLOSED}"
    "\<forall>l. hears l \<noteq> Some CancelledError"
  shows "client_lost hears f = interrupted_members (f\<lparr>f_conn := connection_lost hears (f_conn f)\<rparr>)"
  using assms(1) by (simp add: client_lost_def absorb_def lost_calls [OF assms(2,3)] perform_disconnects
      all_heard_def interrupted_members_def)

lemma close_calls:
  assumes "\<not> c_closed c" "\<not> c_close_notified c" "\<forall>l. hears l \<noteq> Some CancelledError"
  shows "fst (close_connection hears c) = None"
    "c_calls (snd (close_connection hears c)) =
       c_calls c @ map On_disconnect (c_disconnect_listeners c) @ map On_close (c_close_listeners c)"
    "c_state (snd (close_connection hears c)) = CLOSED" "c_closed (snd (close_connection hears c))"
  using assms by (simp_all add: close_connection_def Let_def listener_simps heard_all set_state_def emit_def)

lemma client_aclose_eq:
  assumes "all_heard (f_conn f)" "\<not> c_closed (f_conn f)" "\<not> c_close_notified (f_conn f)"
    "\<forall>l. hears l \<noteq> Some CancelledError"
  shows "client_aclose hears f = (None, ended_members (interrupted_members
    (f\<lparr>f_closed := True, f_conn := snd (close_connection hears (f_conn f))\<rparr>)))"
  using assms(1) close_calls [OF assms(2-4)]
  by (simp add: client_aclose_def Let_def split_beta absorb_def perform_disconnects perform_closes all_heard_def
      interrupted_members_def ended_members_def)

section \<open>What remains of the members\<close>

lemma serving_disconnect_cancels:
  assumes "map_of (sv_active st) k = Some n" "n < length (sv_runs st)"
  shows "in_cancelled (sv_runs (serving_disconnect st) ! n)" "sv_active (serving_disconnect st) = []"
proof -
  let ?f = "\<lambda>i. i\<lparr>in_cancelled := True, in_timer := False\<rparr>"
  have keep: "in_cancelled (sv_runs (fold (\<lambda>n. on_run n ?f) ns st) ! n)"
    if "in_cancelled (sv_runs st ! n)" for ns and st :: serving
    using that
  proof (induction ns arbitrary: st)
    case (Cons m ns)
    have "in_cancelled (sv_runs (on_run m ?f st) ! n)"
      using Cons.prems by (cases "m < length (sv_runs st)"; cases "m = n") (auto simp: on_run_def nth_list_update)
    then show ?case using Cons.IH by simp
  qed simp
  have "in_cancelled (sv_runs (fold (\<lambda>n. on_run n ?f) ns st) ! n)"
    if "n \<in> set ns" "n < length (sv_runs st)" for ns and st :: serving
    using that
  proof (induction ns arbitrary: st)
    case (Cons m ns)
    then show ?case using keep [of "on_run m ?f st" ns] by (cases "m = n") simp_all
  qed simp
  moreover have "n \<in> set (map snd (sv_active st))" using assms(1) by (force dest: map_of_SomeD)
  ultimately show "in_cancelled (sv_runs (serving_disconnect st) ! n)"
    using assms(2) by (simp add: serving_disconnect_def)
  show "sv_active (serving_disconnect st) = []" by (simp add: serving_disconnect_def)
qed

lemma acq_disconnect_settles:
  assumes "acq_inv s" "aq_phase (acq_disconnect s) n = Queued"
  shows "aq_futs (acq_disconnect s) n \<noteq> Unset"
  using acq_inv_future [OF acq_inv_step [OF acq_step.lost assms(1)], of True n] assms(2)
  by (simp add: future_ok_def) (simp add: acq_disconnect_def)

definition finished_registry :: "'a registry \<Rightarrow> 'a registry \<Rightarrow> bool" where
  "finished_registry r r' \<longleftrightarrow> by_registration r' = [] \<and> by_id r' = Map.empty \<and>
     (\<forall>(reg, w)\<in>set (by_registration r). \<forall>c\<in>set (consumers (wires r w)). s_closed (subs r' c))"

lemma terminate_finishes: "finished_registry r (terminate None r)"
  by (auto simp: finished_registry_def terminate_def Let_def tell_all_store sub_finish_idem)
    (auto simp: sub_finish_def)

section \<open>Restoration\<close>

text \<open>\<open>notice.py\<close> restores its tables as the shared registry does; only what consumers are told differs.\<close>

lemma flush_loop_tables:
  "fst (flush_loop cap sid cs ps retained st) = fst (flush_loop cap sid cs ps retained st')"
proof (induction ps arbitrary: retained st st')
  case (Cons p ps)
  then show ?case by (cases p) (simp add: Cons.IH)
qed simp

definition same_tables :: "'a registry \<Rightarrow> 'a registry \<Rightarrow> bool" where
  "same_tables r q \<longleftrightarrow> by_registration q = by_registration r \<and> by_id q = by_id r \<and> wires q = wires r \<and>
     pending q = pending r \<and> r_capacity q = r_capacity r \<and> cleanups q = cleanups r \<and> next_ref q = next_ref r"

lemma flush_pending_tables: "same_tables r q \<Longrightarrow> same_tables (flush_pending w r) (flush_pending w q)"
  using flush_loop_tables [of "r_capacity r" "sub_id (wires r w)" "consumers (wires r w)" "pending r" "[]" "subs r" "subs q"]
  by (simp add: same_tables_def) (simp add: flush_pending_def Let_def split_beta)

lemma renew_one_tables:
  assumes "same_tables r q" "map_of (by_registration r) pat = Some w"
  shows "same_tables (renew_one pat w a r) (restore_one d pat w a q)"
proof (cases a)
  case (Inl e)
  then show ?thesis using assms by (simp add: same_tables_def renew_one_def restore_one_def fail_registration_def Let_def)
next
  case (Inr sid)
  then show ?thesis unfolding renew_one_def restore_one_def Let_def using assms(1)
    by (simp, intro flush_pending_tables) (simp add: same_tables_def)
qed

lemma renew_one_registrations:
  "map_of (by_registration (renew_one pat w a r)) g =
     (if g = pat \<and> (\<exists>e. a = Inl e) then None else map_of (by_registration r) g)"
  by (auto simp: renew_one_def Let_def delete_conv' split: sum.split)

lemma renew_loop_tables:
  assumes "same_tables r q" "distinct (map fst ps)" "\<forall>(pat, w)\<in>set ps. map_of (by_registration r) pat = Some w"
  shows "case renew_loop lk ps (r, ()) of ((stop, errs), r', _) \<Rightarrow>
    case restore_loop d ps (\<lambda>pat. fst (notice_subscribe_wire lk pat ())) q of (stop', errs', q') \<Rightarrow>
      stop' = stop \<and> same_tables r' q'"
  using assms
proof (induction ps arbitrary: r q)
  case (Cons p ps)
  obtain pat w where p: "p = (pat, w)" by (cases p)
  obtain a where a: "notice_subscribe_wire lk pat () = (a, ())" by (cases "notice_subscribe_wire lk pat ()") simp
  show ?case
  proof (cases "a = Inl CancelledError")
    case True
    then show ?thesis using a p Cons.prems(1) by simp
  next
    case False
    have "map_of (by_registration r) pat = Some w" using Cons.prems(3) p by simp
    note one = renew_one_tables [OF Cons.prems(1) this, of a d]
    have "\<forall>(g, v)\<in>set ps. map_of (by_registration (renew_one pat w a r)) g = Some v"
      using Cons.prems(2,3) p by (force simp: renew_one_registrations)
    note IH = Cons.IH [OF one _ this]
    have loop: "renew_loop lk (p # ps) (r, ()) =
        (let ((stop, errs), st) = renew_loop lk ps (renew_one pat w a r, ())
         in ((stop, (case a of Inl e \<Rightarrow> (pat, e) # errs | Inr _ \<Rightarrow> errs)), st))"
      using False a p by (auto split: sum.split exn.split)
    show ?thesis using IH Cons.prems(2) False a p unfolding loop by (auto simp: split_beta Let_def)
  qed
qed simp

text \<open>The table of workers keeps those that the broker accepts again.\<close>

definition worker_refused :: "unit link \<Rightarrow> ustr \<times> registration \<Rightarrow> bool" where
  "worker_refused lk x \<longleftrightarrow> (\<exists>e. fst (rpc_subscribe lk (fst x) (rg_max (snd x)) ()) = Inl e)"

lemma restore_workers_result:
  assumes "distinct (map fst ws)" "distinct (map fst todo)" "set todo \<subseteq> set ws"
    "\<forall>(route, r)\<in>set todo. fst (rpc_subscribe lk route (rg_max r) ()) \<noteq> Inl CancelledError"
  shows "\<exists>errs. restore_workers lk todo ws reports () =
    ((None, filter (\<lambda>x. x \<in> set todo \<longrightarrow> \<not> worker_refused lk x) ws, errs), ())"
  using assms
proof (induction todo arbitrary: ws reports)
  case (Cons x todo)
  obtain route r where x: "x = (route, r)" by (cases x)
  have look: "map_of ws route = Some r" using Cons.prems(1,3) x by simp
  obtain a where a: "rpc_subscribe lk route (rg_max r) () = (a, ())" by (cases "rpc_subscribe lk route (rg_max r) ()") simp
  have other: "y = x" if "y \<in> set ws" "fst y = route" for y
    using map_of_is_SomeI [OF Cons.prems(1), of "fst y" "snd y"] that look x by (cases y) simp
  have out: "route \<notin> fst ` set todo" using Cons.prems(2) x by simp
  show ?case
  proof (cases a)
    case (Inr u)
    have "\<not> worker_refused lk x" using a Inr x by (simp add: worker_refused_def)
    then have "filter (\<lambda>y. y \<in> set (x # todo) \<longrightarrow> \<not> worker_refused lk y) ws =
        filter (\<lambda>y. y \<in> set todo \<longrightarrow> \<not> worker_refused lk y) ws"
      by (intro filter_cong) auto
    then show ?thesis using Cons.IH [of ws reports] Cons.prems a Inr look x by simp
  next
    case (Inl e)
    let ?ws = "AList.delete route ws"
    have del: "?ws = filter (\<lambda>y. fst y \<noteq> route) ws" by (auto simp: AList.delete_eq intro: filter_cong)
    have "set todo \<subseteq> set ?ws" using Cons.prems(3) out by (force simp: del)
    moreover have "distinct (map fst ?ws)" using Cons.prems(1) by (simp add: distinct_delete)
    ultimately obtain errs where rest: "restore_workers lk todo ?ws (reports @ [(route, e)]) () =
        ((None, filter (\<lambda>y. y \<in> set todo \<longrightarrow> \<not> worker_refused lk y) ?ws, errs), ())"
      using Cons.IH [of ?ws "reports @ [(route, e)]"] Cons.prems(2,4) by auto
    have "e \<noteq> CancelledError" using Cons.prems(4) x a Inl by simp
    moreover have "filter (\<lambda>y. y \<in> set todo \<longrightarrow> \<not> worker_refused lk y) ?ws =
        filter (\<lambda>y. y \<in> set (x # todo) \<longrightarrow> \<not> worker_refused lk y) ws"
    proof -
      have "worker_refused lk x" using a Inl x by (simp add: worker_refused_def)
      moreover have "fst y = route \<longleftrightarrow> y = x" if "y \<in> set ws" for y using other [OF that] x by auto
      ultimately show ?thesis using out x unfolding del filter_filter by (intro filter_cong) auto
    qed
    ultimately show ?thesis using rest a Inl look x by simp
  qed
qed simp

lemma serving_table_distinct:
  assumes "serve_reach st"
  shows "distinct (map fst (sv_table st))"
  using assms
proof (induction rule: serve_reach.induct)
  case start
  show ?case by (simp add: no_serving_def)
next
  case (step st st')
  have keep: "sv_table (forget n s) = sv_table s" "sv_table (acknowledge n s) = sv_table s"
    "sv_table (run_finally n s) = sv_table s" "sv_table (release_run n s) = sv_table s" for n s
    by (simp_all add: forget_def acknowledge_def run_finally_def release_run_def Let_def)
  have fold_keep: "sv_table (fold (\<lambda>n. on_run n h) ns s) = sv_table s" for h ns s
    by (induction ns arbitrary: s) simp_all
  from step.hyps(2) have "sv_table st' = sv_table st \<or>
      (\<exists>route r. sv_table st' = AList.update route r (sv_table st)) \<or> (\<exists>route. sv_table st' = AList.delete route (sv_table st))"
  proof (induction rule: serve_step.induct)
    case (request st data now taken)
    then show ?case by (simp add: on_request_def Let_def split: sum.split option.split prod.split)
  next
    case (lifecycle st data)
    then show ?case by (simp add: worker_lifecycle_def split: option.split)
  qed (auto simp: serve_def unserve_def keep fold_keep run_begin_def run_slot_def slot_cancelled_def handler_sent_def
      handler_over_def reported_def refusal_reported_def ack_task_def deadline_fires_def serving_disconnect_def Let_def
      split: option.split)
  then show ?case using step.IH by (auto simp: distinct_update distinct_delete)
qed

end
