(* ===== verification/Client_Properties.thy ===== *)
theory Client_Properties
  imports Client_Proofs
begin

text \<open>The client as a whole: its properties, and the runs that show their hypotheses can hold.\<close>

section \<open>A client that is connected\<close>

definition plain_outside :: outside where
  "plain_outside = \<lparr>en_json = (\<lambda>_. Inl PyValueError), en_now = 0, en_taken = True\<rparr>"

definition client_up :: "config \<Rightarrow> client" where
  "client_up g = (new_client g)\<lparr>f_conn := dial_up (equipped plain_outside (new_client g))\<rparr>"

lemma fresh_ready:
  assumes "53 \<le> min (max_frame_size g) 1048576"
  shows "ready_to_dial (equipped plain_outside (new_client g))"
  using assms by (simp add: ready_to_dial_def connect_choice_start equipped_def new_client_fields(12) new_conn_def new_mux_def)

lemma client_up:
  assumes g: "check_config g = None" and size: "53 \<le> min (max_frame_size g) 1048576"
  shows "client_reach g (client_up g)" "is_connected (f_conn (client_up g))" "\<not> c_closed (f_conn (client_up g))"
    "\<not> c_close_notified (f_conn (client_up g))" "m_lanes (c_mux (f_conn (client_up g))) = []"
    "c_max_message (f_conn (client_up g)) = min 4096 (min (max_frame_size g) 1048576)"
    "c_fresh (f_conn (client_up g)) = 2" "c_receive (f_conn (client_up g)) = Some 1"
    "c_receive_done (f_conn (client_up g)) = []" "c_loop (f_conn (client_up g)) = None"
    "c_attempt (f_conn (client_up g)) = None" "c_config (f_conn (client_up g)) = g"
proof -
  note ready = fresh_ready [OF size]
  show r: "client_reach g (client_up g)"
    unfolding client_up_def by (rule client_dials [OF client_reach.start ready g])
  have reach: "conn_reach g (equipped plain_outside (new_client g))"
    using conn_reach.step [OF new_client_conn install_step] by (simp add: equipped_def)
  have cfg: "c_config (equipped plain_outside (new_client g)) = g"
    by (simp add: equipped_def new_client_fields(12) new_conn_def)
  note up = dial_up [OF reach g ready cfg]
  show "is_connected (f_conn (client_up g))" "\<not> c_closed (f_conn (client_up g))"
    "\<not> c_close_notified (f_conn (client_up g))"
    "c_max_message (f_conn (client_up g)) = min 4096 (min (max_frame_size g) 1048576)"
    "c_fresh (f_conn (client_up g)) = 2" "c_receive (f_conn (client_up g)) = Some 1"
    "c_receive_done (f_conn (client_up g)) = []" "c_loop (f_conn (client_up g)) = None"
    "c_attempt (f_conn (client_up g)) = None" "c_config (f_conn (client_up g)) = g"
    using up by (simp_all add: client_up_def equipped_def new_client_fields(12) new_conn_def)
  show "m_lanes (c_mux (f_conn (client_up g))) = []"
    using dial_up_side [OF ready] g cfg
    by (simp add: client_up_def same_side_def equipped_def new_client_fields(12) new_conn_def new_mux_def)
qed

definition live_client :: client where
  "live_client = client_up demo_config"

lemma live_client: "client_reach demo_config live_client" "is_connected (f_conn live_client)"
  "\<not> c_closed (f_conn live_client)" "\<not> c_close_notified (f_conn live_client)" "c_max_message (f_conn live_client) = 4096"
  "m_lanes (c_mux (f_conn live_client)) = []"
proof -
  have size: "53 \<le> min (max_frame_size demo_config) 1048576" by (simp add: demo_config_def default_config_def)
  have limit: "min 4096 (min (max_frame_size demo_config) 1048576) = 4096" by (simp add: demo_config_def default_config_def)
  show "client_reach demo_config live_client" "is_connected (f_conn live_client)"
    "\<not> c_closed (f_conn live_client)" "\<not> c_close_notified (f_conn live_client)" "c_max_message (f_conn live_client) = 4096"
    "m_lanes (c_mux (f_conn live_client)) = []"
    unfolding live_client_def using client_up(1-6) [OF demo_config_ok size] limit by simp_all
qed

lemma live_client_members:
  "f_kv live_client = new_registry 1024" "f_calls live_client = no_calls" "f_serving live_client = no_serving"
  "f_acquire live_client = new_acq" "f_lease live_client = new_registry 1024"
  by (simp_all add: live_client_def client_up_def new_client_fields demo_config_def default_config_def default_limits_def)

section \<open>Composition\<close>



section \<open>Pushes\<close>

fun owner_of :: "handler \<Rightarrow> member" where
  "owner_of Kv_changed = KV_client" | "owner_of Queue_available = Queue_client"
| "owner_of Stream_committed = Stream_client" | "owner_of Schedule_fired = Schedule_client"
| "owner_of Noticed = Notice_client" | "owner_of Lease_changed = Lease_client"
| "owner_of Lease_granted = Lease_client" | "owner_of Rpc_requested = RPC_client"
| "owner_of Rpc_responded = RPC_client" | "owner_of Rpc_informed = RPC_client"

text \<open>Two clients agree on what a member keeps.\<close>

fun same_member :: "member \<Rightarrow> client \<Rightarrow> client \<Rightarrow> bool" where
  "same_member KV_client f f' = (f_kv f' = f_kv f)"
| "same_member Queue_client f f' = (f_queue f' = f_queue f)"
| "same_member Stream_client f f' = (f_stream f' = f_stream f)"
| "same_member Schedule_client f f' = (f_schedule f' = f_schedule f)"
| "same_member Notice_client f f' = (f_notice f' = f_notice f)"
| "same_member Lease_client f f' = (f_lease f' = f_lease f \<and> f_acquire f' = f_acquire f)"
| "same_member RPC_client f f' = (f_calls f' = f_calls f \<and> f_serving f' = f_serving f)"

lemma handler_other_members: "m \<noteq> owner_of h \<Longrightarrow> same_member m f (snd (run_handler en h b f))"
  by (cases h; cases m) (simp_all add: split_beta)

lemma handler_conn_pair:
  "run_handler en h b f = (e, f') \<Longrightarrow> run_handler en h b (f\<lparr>f_conn := c\<rparr>) = (e, f'\<lparr>f_conn := c\<rparr>)"
  by (cases h) (auto simp: split_beta)

text \<open>The multiplexer after a handler was called.\<close>

definition after_push :: "int \<Rightarrow> bytes \<Rightarrow> exn option \<Rightarrow> mux \<Rightarrow> mux" where
  "after_push t body e m = m\<lparr>m_handled := m_handled m @ [(t, body)],
     m_reported := m_reported m @ (case e of None \<Rightarrow> [] | Some x \<Rightarrow> [x])\<rparr>"

lemma mux_dispatch_installed:
  assumes "m_lanes (c_mux (f_conn f)) = []"
  shows "mux_dispatch t body (installed en f) =
    (case map_of (f_handlers f) t of
       None \<Rightarrow> installed en f
     | Some h \<Rightarrow> after_push t body (fst (run_handler en h body f)) (installed en f))"
proof -
  have push: "dispatch_push t body (installed en f) =
    (case map_of (f_handlers f) t of
       None \<Rightarrow> installed en f
     | Some h \<Rightarrow> after_push t body (fst (run_handler en h body f)) (installed en f))"
    by (simp add: dispatch_push_def installed_def after_push_def report_error_def Let_def split: option.split)
  have lane: "dispatch_lane t body (installed en f) = dispatch_push t body (installed en f)"
    using assms by (simp add: dispatch_lane_def)
  have "m_classifiers (installed en f) t = map_option (\<lambda>s b. Inr (shape_test s b)) (map_of (f_classifiers f) t)"
    by (simp add: installed_def)
  then show ?thesis using push lane by (auto simp: mux_dispatch_def split: option.split bool.split)
qed

text \<open>
  C9. A push reaches the handler that a constructor registered for its type and changes only the
  state of the domain client that owns this handler; a push of another type changes no domain
  client.
\<close>

lemma client_push_routed:
  assumes lanes: "m_lanes (c_mux (f_conn f)) = []"
    and frame: "encode_frame t body 0 0 = Inr data" "int (length data) \<le> c_max_message (f_conn f)"
      "t \<notin> {MSG_HELLO, MSG_CONNECT_REJECTED, MSG_GOAWAY}"
  shows "case map_of (f_handlers f) t of
      None \<Rightarrow> client_frame en hears data f = f\<lparr>f_conn := equipped en f\<rparr>
    | Some h \<Rightarrow> (case run_handler en h body f of (e, f') \<Rightarrow>
        client_frame en hears data f =
          f'\<lparr>f_conn := (equipped en f)\<lparr>c_mux := after_push t body e (installed en f)\<rparr>\<rparr> \<and>
        (\<forall>m. m \<noteq> owner_of h \<longrightarrow> same_member m f f'))"
proof -
  let ?c = "(f_conn f)\<lparr>c_mux := installed en f\<rparr>"
  have d: "dispatch_transport_frame data ?c =
      (None, ?c\<lparr>c_mux := mux_dispatch t body (installed en f)\<rparr>)"
    using frame parse_encoded [OF frame(1)] by (simp add: dispatch_transport_frame_def)
  show ?thesis
  proof (cases "map_of (f_handlers f) t")
    case None
    then show ?thesis using d mux_dispatch_installed [OF lanes, of t body en]
      by (simp add: client_frame_def Let_def absorb_def equipped_def)
  next
    case (Some h)
    obtain e f' where run: "run_handler en h body f = (e, f')" by fastforce
    note other = handler_conn_pair [OF run]
    have "same_member m f f'" if "m \<noteq> owner_of h" for m
      using handler_other_members [OF that, of f en body] run by simp
    then show ?thesis using Some run other d mux_dispatch_installed [OF lanes, of t body en]
      by (simp add: client_frame_def Let_def absorb_def equipped_def after_push_def)
  qed
qed

lemma client_push_routed_witness:
  "let f = live_client\<lparr>f_acquire := two_callers\<rparr>;
       f' = client_frame plain_outside quiet (frame_bytes \<lparr>message_type = 400, flags = 0, correlation_id = 0, payload = [7]\<rparr>) f
   in aq_futs (f_acquire f') 0 = Reply [7] \<and> f_kv f' = f_kv f \<and> f_calls f' = f_calls f"
proof -
  let ?f = "live_client\<lparr>f_acquire := two_callers\<rparr>"
  let ?data = "frame_bytes \<lparr>message_type = 400, flags = 0, correlation_id = 0, payload = [7]\<rparr>"
  have e: "encode_frame 400 [7] 0 0 = Inr ?data" by (simp add: encode_frame_eq frame_ok_def)
  have len: "int (length ?data) \<le> c_max_message (f_conn ?f)" by (simp add: live_client(5) frame_bytes_def)
  have h: "map_of (f_handlers ?f) 400 = Some Lease_granted"
    using client_parts(1) [OF live_client(1)] by (simp add: wired_def)
  have "aq_futs (queued_reply [7] two_callers) 0 = Reply [7]"
    by (simp add: two_callers_def aq_enter_def aq_take_def new_acq_def queued_reply_def)
  then show ?thesis
    using client_push_routed [of ?f, OF _ e len, of plain_outside quiet] live_client(6) h by (simp add: Let_def)
qed

section \<open>A lost connection\<close>

text \<open>
  C2. When the connection of a reachable client is lost, no open RPC call is left without an
  outcome, every active invocation is cancelled, no queued acquisition waits on, and
  registries and workers are kept for the restoration.
\<close>

lemma client_lost_settles:
  assumes "client_reach g f" "c_state (f_conn f) \<notin> {DISCONNECTED, RECONNECTING, CLOSED}"
    "\<forall>l. hears l \<noteq> Some CancelledError"
  shows "let f' = client_lost hears f in
    (\<forall>c r. cl_call (f_calls f') c = Some r \<longrightarrow> rc_outcome r \<noteq> None \<and> (rc_closed r \<or> rc_terminal r)) \<and>
    (\<forall>c r. cl_call (f_calls f) c = Some r \<longrightarrow> (\<exists>q. cl_call (f_calls f') c = Some q \<and> rc_key q = rc_key r)) \<and>
    (\<forall>k n. map_of (sv_active (f_serving f)) k = Some n \<longrightarrow> in_cancelled (sv_runs (f_serving f') ! n)) \<and>
    sv_active (f_serving f') = [] \<and> sv_table (f_serving f') = sv_table (f_serving f) \<and>
    (\<forall>n. aq_phase (f_acquire f') n = Queued \<longrightarrow> aq_futs (f_acquire f') n \<noteq> Unset) \<and>
    (\<forall>m\<in>{KV_client, Queue_client, Stream_client, Schedule_client, Notice_client}. same_member m f f') \<and>
    f_lease f' = f_lease f"
proof -
  have w: "all_heard (f_conn f)" using client_parts(1) [OF assms(1)] by (simp add: wired_def)
  note lost = client_lost_eq [OF w assms(2,3)]
  have calls: "calls_inv (f_calls f)" by (rule call_reach_inv [OF client_parts(3) [OF assms(1)]])
  have serving: "serve_inv (f_serving f)" by (rule serve_reach_inv [OF client_parts(4) [OF assms(1)]])
  have acq: "acq_inv (f_acquire f)" by (rule acq_reach_inv [OF client_parts(5) [OF assms(1)]])
  have run: "n < length (sv_runs (f_serving f))" if "map_of (sv_active (f_serving f)) k = Some n" for k n
    using serving that by (simp add: serve_inv_def)
  have table: "sv_table (serving_disconnect st) = sv_table st" for st
  proof -
    have "sv_table (fold (\<lambda>n. on_run n h) ns st) = sv_table st" for h ns
      by (induction ns arbitrary: st) simp_all
    then show ?thesis by (simp add: serving_disconnect_def)
  qed
  have active: "sv_active (serving_disconnect st) = []" for st by (simp add: serving_disconnect_def)
  show ?thesis
    using calls_disconnect_settles [OF calls] calls_disconnect_keeps [of "f_calls f"] acq_disconnect_settles [OF acq]
      serving_disconnect_cancels(1) [OF _ run]
    by (auto simp: lost interrupted_members_def table active Let_def)
qed

text \<open>A connected client with an open call.\<close>

definition calling_client :: client where
  "calling_client = live_client\<lparr>f_calls := open_run\<rparr>"

lemma calling_client: "client_reach demo_config calling_client"
proof -
  have s: "call_step no_calls (open_call 0 (replicate 16 1) (Some 30) 64 no_calls)"
    by (rule call_step.opens) (simp_all add: no_calls_def key_unused_def)
  have t: "call_step (open_call 0 (replicate 16 1) (Some 30) 64 no_calls) open_run"
    unfolding open_run_def by (rule call_step.opened) (simp add: open_call_def)
  let ?f = "live_client\<lparr>f_calls := open_call 0 (replicate 16 1) (Some 30) 64 no_calls\<rparr>"
  have "client_reach demo_config ?f"
    using client_reach.step [OF live_client(1) client_step.calls] s live_client_members(2) by metis
  moreover have "client_step ?f (?f\<lparr>f_calls := open_run\<rparr>)" using client_step.calls [of ?f open_run] t by simp
  ultimately show ?thesis using client_reach.step unfolding calling_client_def by fastforce
qed

lemma client_lost_settles_witness:
  "\<exists>q. cl_call (f_calls (client_lost quiet calling_client)) 0 = Some q \<and> rc_outcome q \<noteq> None"
proof -
  have "c_state (f_conn calling_client) \<notin> {DISCONNECTED, RECONNECTING, CLOSED}"
    using live_client(2) by (simp add: calling_client_def is_connected_def)
  note lost = client_lost_settles [OF calling_client this, of quiet, simplified Let_def]
  have "cl_call (f_calls calling_client) 0 = Some (fresh_call (replicate 16 1) (Some 30) 64\<lparr>rc_watched := True\<rparr>)"
    using open_run(2) by (simp add: calling_client_def)
  then obtain q where "cl_call (f_calls (client_lost quiet calling_client)) 0 = Some q" using lost by blast
  then show ?thesis using lost by blast
qed

section \<open>The end\<close>


text \<open>A connected client with a KV subscriber.\<close>

definition watch_kv :: "kv_note registry" where
  "watch_kv = snd (subscribe [97] (Replied 5) (new_registry 1024))"

lemma watch_kv: "map_of (by_registration watch_kv) [97] = Some 0" "consumers (wires watch_kv 0) = [1]"
  "by_registration watch_kv = [([97], 0)]" "by_id watch_kv 9 = None"
  by code_simp+

lemma watch_kv_step: "reg_step (new_registry 1024) watch_kv"
  unfolding watch_kv_def by (rule reg_step.subscribes) (simp add: new_registry_def)

definition watching_client :: client where
  "watching_client = live_client\<lparr>f_kv := watch_kv\<rparr>"

lemma watching_client: "client_reach demo_config watching_client" "f_kv watching_client = watch_kv"
proof -
  have "reg_step (f_kv live_client) watch_kv" unfolding live_client_members by (rule watch_kv_step)
  from client_reach.step [OF live_client(1) client_step.kv [OF this]]
  show "client_reach demo_config watching_client" by (simp add: watching_client_def)
qed (simp add: watching_client_def)


section \<open>After a reconnect\<close>

definition exact_ids :: "(ustr \<Rightarrow> (unit, int) io) \<Rightarrow> 'a registry \<Rightarrow> 'a registry \<Rightarrow> bool" where
  "exact_ids wire r r' \<longleftrightarrow>
     (\<forall>i reg. by_id r' i = Some reg \<longleftrightarrow> reg \<in> set (registrations r) \<and> fst (wire reg ()) = Inr i)"

definition fresh_wire :: "(ustr \<Rightarrow> (unit, int) io) \<Rightarrow> 'a registry \<Rightarrow> bool" where
  "fresh_wire wire r \<longleftrightarrow> fresh_answers (by_registration r) (\<lambda>reg. fst (wire reg ())) r"

text \<open>The broker cancels nothing and gives every registration of a domain an id of its own.\<close>

definition fresh_broker :: "unit link \<Rightarrow> client \<Rightarrow> bool" where
  "fresh_broker lk f \<longleftrightarrow>
     fresh_wire (kv_subscribe_wire lk) (f_kv f) \<and> fresh_wire (queue_subscribe_wire lk) (f_queue f) \<and>
     fresh_wire (stream_subscribe_wire lk) (f_stream f) \<and> fresh_wire (sched_subscribe_wire lk) (f_schedule f) \<and>
     fresh_wire (lease_subscribe_wire lk) (f_lease f) \<and> fresh_wire (notice_subscribe_wire lk) (f_notice f) \<and>
     (\<forall>(route, r)\<in>set (sv_table (f_serving f)). fst (rpc_subscribe lk route (rg_max r) ()) \<noteq> Inl CancelledError)"

lemma restore_member_exact:
  assumes "reg_inv r" "fresh_wire wire r" "restore_member d wire r = (stop, errs, r')"
  shows "stop = None \<and> exact_ids wire r r'"
  using registry_restore [OF assms(1) assms(2) [unfolded fresh_wire_def], of d] assms(3)
  by (simp add: restore_member_def exact_ids_def)

lemma notice_restore_exact:
  assumes inv: "reg_inv r" and fresh: "fresh_wire (notice_subscribe_wire lk) r"
    and run: "notice_restore lk (r, ()) = ((stop, errs), r', u)"
  shows "stop = None \<and> exact_ids (notice_subscribe_wire lk) r r'"
proof -
  have d: "distinct (map fst (by_registration r))" using inv by (simp add: reg_inv_def wires_ok_distinct)
  then have look: "\<forall>(pat, w)\<in>set (by_registration r). map_of (by_registration r) pat = Some w"
    by (auto intro: map_of_is_SomeI)
  have same: "same_tables r r" by (simp add: same_tables_def)
  obtain stop' errs' q where q: "restore [] (\<lambda>pat. fst (notice_subscribe_wire lk pat ())) r = (stop', errs', q)"
    by (cases "restore [] (\<lambda>pat. fst (notice_subscribe_wire lk pat ())) r")
  have "stop' = stop \<and> same_tables r' q"
    using renew_loop_tables [OF same d look, where lk = lk and d = "[]"] q run by (simp add: notice_restore_def restore_def)
  then show ?thesis using registry_restore [OF inv fresh [unfolded fresh_wire_def], of "[]"] q
    by (simp add: same_tables_def exact_ids_def)
qed


definition nine_link :: "unit link" where
  "nine_link = ack_link\<lparr>lk_request := (\<lambda>mt p fl s. (Inr [0, 0, 0, 0, 0, 0, 0, 0, 9], s))\<rparr>"

lemma nine_link: "fst (kv_subscribe_wire nine_link [97] ()) = Inr 9"
proof -
  have "run_reader (kv_id_reply ''SUBSCRIBE'') [0, 0, 0, 0, 0, 0, 0, 0, 9] = Inr 9"
    by code_simp
  moreover obtain p where "build_payload [Route [97]] = Inr p"
    by (simp add: build_payload_spec str_field_def utf8_encode_def pack_def bind_r_def guard_r_def scalar_def utf8_char.simps)
  ultimately show ?thesis
    by (simp add: kv_subscribe_wire_def ask_def nine_link_def ack_link_def io_bind_def io_lift_def)
qed

lemma watching_client_rest:
  "f_queue watching_client = new_registry 1024" "f_stream watching_client = new_registry 1024"
  "f_schedule watching_client = new_registry 1024" "f_lease watching_client = new_registry 1024"
  "f_notice watching_client = new_registry 1024" "f_serving watching_client = no_serving"
  by (simp_all add: watching_client_def live_client_def client_up_def new_client_fields demo_config_def
      default_config_def default_limits_def)


section \<open>Connecting by hand\<close>

lemma absorb_lost:
  assumes "all_heard c" "c_state c \<notin> {DISCONNECTED, RECONNECTING, CLOSED}" "\<forall>l. hears l \<noteq> Some CancelledError"
    "c_calls c = c_calls (f_conn f)"
  shows "absorb (connection_lost hears c) f = interrupted_members (f\<lparr>f_conn := connection_lost hears c\<rparr>)"
  using assms(1,4) by (simp add: absorb_def lost_calls [OF assms(2,3)] perform_disconnects all_heard_def
      interrupted_members_def)

lemma set_disconnected_fields:
  "m_handled (set_disconnected m) = m_handled m" "m_version (set_disconnected m) = 0"
proof -
  have "m_handled (settle r x m) = m_handled m" "m_version (settle r x m) = m_version m" for r x m
    by (simp_all add: settle_def)
  then have "m_handled (fold (\<lambda>r. settle r x) rs m) = m_handled m \<and> m_version (fold (\<lambda>r. settle r x) rs m) = m_version m"
    for x rs m by (induction rs arbitrary: m) simp_all
  then show "m_handled (set_disconnected m) = m_handled m" "m_version (set_disconnected m) = 0"
    by (simp_all add: set_disconnected_def cancel_all_def Let_def)
qed

lemma lost_handled: "m_handled (c_mux (connection_lost hears c)) = m_handled (c_mux c)"
  by (simp add: connection_lost_def Let_def listener_simps set_disconnected_fields set_state_def emit_def)

lemma lost_loop: "\<not> rc_enabled (reconnect (c_config c)) \<Longrightarrow> c_loop (connection_lost hears c) = c_loop c"
  by (simp add: connection_lost_def Let_def listener_simps set_state_def emit_def)


definition manual_config :: config where
  "manual_config = demo_config\<lparr>reconnect := (reconnect demo_config)\<lparr>rc_enabled := False\<rparr>\<rparr>"


end
