(* ===== verification/Rpc_Life.thy ===== *)
theory Rpc_Life
  imports Rpc_Calls
begin

unbundle bit_operations_syntax

text \<open>
  The life of an RPC call as its caller sees it, and that the calls of \<open>Rpc_Calls\<close> lead it; and that
  the classifiers of pushes recognise exactly the payloads the handlers can decode.
\<close>

section \<open>The abstract life\<close>

datatype stage = Unborn | Underway | Being_cancelled | Over call_outcome

inductive life_step :: "stage \<Rightarrow> stage \<Rightarrow> bool" where
  "life_step Underway Being_cancelled"
| "life_step Underway (Over out)"
| "life_step Being_cancelled (Over out)"

inductive_simps life_step_Over [simp]: "life_step (Over out) l"

definition life :: "calls \<Rightarrow> nat \<Rightarrow> stage" where
  "life st c =
     (case cl_call st c of
        None \<Rightarrow> Unborn
      | Some r \<Rightarrow> (case rc_outcome r of
            Some out \<Rightarrow> Over out
          | None \<Rightarrow> if rc_closed r then Being_cancelled else Underway))"

section \<open>Every operation moves a call forwards\<close>

declare on_call_Some [simp del]

lemma task_fields [simp]:
  "rc_deadline (set_outcome out r) = rc_deadline r" "rc_watched (set_outcome out r) = rc_watched r"
  "rc_deadline (fail_record e p r) = rc_deadline r" "rc_watched (fail_record e p r) = rc_watched r"
  "rc_deadline (snd (take_entry x r)) = rc_deadline r" "rc_watched (snd (take_entry x r)) = rc_watched r"
  by (simp_all add: set_outcome_def fail_record_def take_entry_def Let_def split: rentry.split option.split)

definition advances :: "rpc_call \<Rightarrow> rpc_call \<Rightarrow> bool" where
  "advances r q \<longleftrightarrow> rc_key q = rc_key r \<and> rc_deadline q = rc_deadline r \<and>
     (rc_watched r \<longrightarrow> rc_watched q \<or> rc_closed q \<or> rc_terminal q) \<and> (rc_outcome r \<noteq> None \<longrightarrow> rc_outcome q = rc_outcome r) \<and>
     (rc_closed r \<longrightarrow> rc_closed q) \<and> (rc_terminal r \<longrightarrow> rc_terminal q)"

definition forwards :: "calls \<Rightarrow> calls \<Rightarrow> bool" where
  "forwards st st' \<longleftrightarrow> cl_opening st' = cl_opening st \<and> dom (cl_call st') = dom (cl_call st) \<and>
     (\<forall>c r. cl_call st c = Some r \<longrightarrow> (\<exists>q. cl_call st' c = Some q \<and> advances r q))"

lemma advances_refl [simp]: "advances r r"
  by (simp add: advances_def)

lemma forwards_refl [simp]: "forwards st st"
  by (simp add: forwards_def)

lemma advances_trans: "advances r q \<Longrightarrow> advances q p \<Longrightarrow> advances r p"
  by (auto simp: advances_def)

lemma forwards_trans: "forwards st st' \<Longrightarrow> forwards st' st'' \<Longrightarrow> forwards st st''"
proof -
  assume a: "forwards st st'" "forwards st' st''"
  have "\<exists>p. cl_call st'' c = Some p \<and> advances r p" if r: "cl_call st c = Some r" for c r
  proof -
    obtain q where q: "cl_call st' c = Some q" "advances r q" using a(1) r unfolding forwards_def by blast
    then obtain p where "cl_call st'' c = Some p" "advances q p" using a(2) unfolding forwards_def by blast
    then show ?thesis using q(2) advances_trans by blast
  qed
  then show ?thesis using a by (simp add: forwards_def)
qed

lemma forwards_tables [simp]:
  "forwards st (st'\<lparr>cl_pending := p\<rparr>) = forwards st st'" "forwards st (st'\<lparr>cl_cancelling := q\<rparr>) = forwards st st'"
  by (simp_all add: forwards_def)

lemma forwards_on_call:
  assumes "forwards st st'" "\<And>r. cl_call st' c = Some r \<Longrightarrow> advances r (f r)"
  shows "forwards st (on_call c f st')"
proof -
  have "forwards st' (on_call c f st')" using assms(2) by (auto simp: forwards_def on_call_def)
  then show ?thesis by (rule forwards_trans [OF assms(1)])
qed

lemma forwards_drop: "forwards st st' \<Longrightarrow> forwards st (drop_pending k c st')"
  by (simp add: drop_pending_def)

lemma advances_outcome [simp]: "advances r (set_outcome out r)"
  by (simp add: advances_def)

lemma forwards_finish: "forwards st st' \<Longrightarrow> forwards st (finish_call c out st')"
  by (auto simp: finish_call_def intro: forwards_on_call forwards_drop split: option.split)

lemma forwards_fail:
  assumes "forwards st st'"
  shows "forwards st (call_fail e preserve c st')"
proof -
  have shut: "advances r (r\<lparr>rc_closed := True, rc_watched := False\<rparr>)" "advances r (fail_record x preserve r)" for r x
    by (simp_all add: advances_def)
  show ?thesis using assms
    by (auto simp: call_fail_def intro!: forwards_on_call forwards_finish shut split: option.split)
qed

lemma forwards_push:
  assumes "forwards st st'"
  shows "forwards st (call_push f fin c st')"
proof -
  have put: "advances r (r\<lparr>rc_queue := q\<rparr>)" "advances r (r\<lparr>rc_terminal := True, rc_watched := False\<rparr>)" for r q
    by (simp_all add: advances_def)
  show ?thesis using assms
    by (auto simp: call_push_def Let_def intro!: forwards_on_call forwards_finish forwards_fail put split: option.split)
qed

lemma forwards_response: "forwards st (snd (on_response data st))"
  by (auto simp: on_response_def Let_def intro: forwards_push forwards_fail split: sum.split option.split)

lemma forwards_settle: "forwards st (settle_cancellation key out st)"
  by (auto simp: settle_cancellation_def intro!: forwards_on_call split: option.split)

lemma forwards_abandon: "forwards st st' \<Longrightarrow> forwards st (snd (abandon_call c st'))"
  by (auto simp: abandon_call_def Let_def intro: forwards_drop split: option.split)

lemma forwards_cancel:
  assumes "forwards st st'"
  shows "forwards st (snd (close_and_cancel c st'))"
proof -
  have shut: "advances r (r\<lparr>rc_closed := True, rc_queue := q, rc_watched := False\<rparr>)" for r q
    by (simp add: advances_def)
  show ?thesis using assms
    by (auto simp: close_and_cancel_def intro!: forwards_abandon forwards_on_call shut split: option.split)
qed

lemma forwards_failure: "forwards st (on_call c (\<lambda>r. r\<lparr>rc_failure := x\<rparr>) st)"
  by (rule forwards_on_call) (simp_all add: advances_def)

lemma forwards_next: "forwards st (snd (call_next now c st))"
proof (cases "cl_call st c")
  case (Some r)
  have take_: "advances r (snd (take_entry x (r\<lparr>rc_queue := q\<rparr>)))" for x q by (simp add: advances_def)
  have "forwards st (on_call c (\<lambda>_. snd (take_entry x (r\<lparr>rc_queue := q\<rparr>))) st)" for x q
    by (rule forwards_on_call) (use Some take_ in simp_all)
  then show ?thesis using forwards_cancel [OF forwards_refl] forwards_failure [of st c None] Some
    by (auto simp: call_next_def Let_def split_beta split: option.split list.split)
qed (simp add: call_next_def)

lemma forwards_expired: "forwards st (snd (deadline_expired c st))"
  using forwards_cancel [OF forwards_failure]
  by (auto simp: deadline_expired_def split: option.split)

lemma forwards_disconnect: "forwards st (calls_disconnect st)"
proof -
  have fails: "forwards st' (fold (call_fail e True) cs st')" for e cs st'
  proof (induction cs arbitrary: st')
    case (Cons c cs)
    show ?case using forwards_trans [OF forwards_fail [OF forwards_refl] Cons.IH] by simp
  qed simp
  have settles: "forwards st' (fold (\<lambda>c. on_call c (set_outcome x)) cs st')" for x cs st'
  proof (induction cs arbitrary: st')
    case (Cons c cs)
    have "forwards st' (on_call c (set_outcome x) st')" by (rule forwards_on_call) simp_all
    from forwards_trans [OF this Cons.IH] show ?case by simp
  qed simp
  have "forwards st (fold (call_fail e True) cs st\<lparr>cl_pending := []\<rparr>)" for e cs using fails by simp
  from forwards_trans [OF this settles] show ?thesis by (simp add: calls_disconnect_def Let_def)
qed

text \<open>The only other steps open a call, finish its opening, or give it up.\<close>

lemma call_step_cases:
  "call_step st st' \<Longrightarrow> forwards st st' \<or>
   (\<exists>c key deadline capacity. cl_call st c = None \<and> st' = open_call c key deadline capacity st) \<or>
   (\<exists>c\<in>cl_opening st. st' = call_opened c st \<or> st' = open_failed_call c st)"
proof (induction rule: call_step.induct)
  case (lifecycle st data)
  then show ?case by (auto simp: caller_lifecycle_def intro: forwards_settle split: option.split)
next
  case (sent st key how)
  then show ?case by (auto simp: cancel_sent_def intro: forwards_settle split: option.split)
qed (auto simp: next_interrupted_def forwards_response forwards_settle forwards_cancel forwards_expired
    forwards_next forwards_disconnect)

lemma opened_advances: "cl_call st c = Some r \<Longrightarrow> \<exists>q. cl_call (call_opened d st) c = Some q \<and> advances r q"
  by (auto simp: call_opened_def on_call_def advances_def)

lemma call_step_forwards:
  assumes "call_step st st'" "cl_call st c = Some r" "c \<notin> cl_opening st"
  shows "\<exists>q. cl_call st' c = Some q \<and> advances r q \<and> c \<notin> cl_opening st'"
  using call_step_cases [OF assms(1)]
proof (elim disjE bexE exE conjE)
  assume "forwards st st'"
  then show ?thesis using assms(2,3) unfolding forwards_def by blast
next
  fix d assume "d \<in> cl_opening st" "st' = call_opened d st"
  then show ?thesis using opened_advances [OF assms(2), of d] assms(3) by (simp add: call_opened_def)
qed (use assms(2,3) in \<open>auto simp: open_call_def open_failed_call_def split: option.split\<close>)

text \<open>A call that is open for its caller has its deadline and parent tasks.\<close>

definition minded :: "calls \<Rightarrow> bool" where
  "minded st \<longleftrightarrow> (\<forall>c r. cl_call st c = Some r \<longrightarrow>
     c \<in> cl_opening st \<or> rc_closed r \<or> rc_terminal r \<or> rc_watched r)"

lemma minded_step:
  assumes "call_step st st'" "minded st"
  shows "minded st'"
  using call_step_cases [OF assms(1)]
proof (elim disjE bexE exE conjE)
  assume f: "forwards st st'"
  have "c \<in> cl_opening st' \<or> rc_closed q \<or> rc_terminal q \<or> rc_watched q" if q: "cl_call st' c = Some q" for c q
  proof -
    obtain r where r: "cl_call st c = Some r" using f q unfolding forwards_def by blast
    then have "advances r q" using f q unfolding forwards_def by fastforce
    then show ?thesis using assms(2) r f unfolding minded_def forwards_def advances_def by blast
  qed
  then show ?thesis unfolding minded_def by blast
next
  fix d assume "d \<in> cl_opening st" "st' = call_opened d st"
  then show ?thesis using assms(2) by (auto simp: minded_def call_opened_def on_call_def split: if_splits)
qed (use assms(2) in \<open>auto simp: minded_def open_call_def open_failed_call_def split: option.split\<close>)

lemma call_reach_minded: "call_reach st \<Longrightarrow> minded st"
proof (induction rule: call_reach.induct)
  case (step st st')
  show ?case by (rule minded_step [OF step.hyps(2) step.IH])
qed (simp add: minded_def no_calls_def)

text \<open>The deadline of a call is never moved.\<close>

lemma call_step_deadline:
  assumes "call_step st st'" "cl_call st c = Some r" "cl_call st' c = Some q"
  shows "rc_deadline q = rc_deadline r"
  using call_step_cases [OF assms(1)]
proof (elim disjE bexE exE conjE)
  assume "forwards st st'"
  then show ?thesis using assms(2,3) unfolding forwards_def advances_def by force
next
  fix d assume "st' = call_opened d st"
  then show ?thesis using opened_advances [OF assms(2), of d] assms(3) by (simp add: advances_def)
next
  fix d assume "st' = open_failed_call d st"
  then show ?thesis using assms(2,3) by (auto simp: open_failed_call_def split: option.splits if_splits)
qed (use assms(2,3) in \<open>auto simp: open_call_def split: if_splits\<close>)

section \<open>Properties\<close>

text \<open>
  C29. Along every run of a client a begun call follows the abstract life underway, being
  cancelled, over with an outcome, in this order; it keeps its key, and an outcome once
  settled never changes.
\<close>

lemma rpc_call_life:
  assumes "call_step\<^sup>*\<^sup>* st st'" "cl_call st c = Some r" "c \<notin> cl_opening st"
  shows "life_step\<^sup>*\<^sup>* (life st c) (life st' c) \<and>
    (\<forall>out. life st c = Over out \<longrightarrow> life st' c = Over out) \<and>
    (\<exists>q. cl_call st' c = Some q \<and> rc_key q = rc_key r)"
proof -
  obtain q where q: "cl_call st' c = Some q" "advances r q"
  proof -
    have "\<exists>q. cl_call st' c = Some q \<and> advances r q \<and> c \<notin> cl_opening st'"
      using assms
    proof (induction rule: rtranclp_induct)
      case (step s s')
      then show ?case using call_step_forwards [OF step.hyps(2)] advances_trans by blast
    qed simp
    then show ?thesis using that by blast
  qed
  have "life_step\<^sup>*\<^sup>* (life st c) (life st' c)"
    using q assms(2) by (auto simp: life_def advances_def intro: life_step.intros split: option.split)
  then show ?thesis using q assms(2) by (auto simp: life_def advances_def split: option.splits)
qed

lemma rpc_call_life_witness:
  "life open_run 0 = Underway \<and> life (snd (close_and_cancel 0 open_run)) 0 = Being_cancelled \<and>
   life_step\<^sup>*\<^sup>* Underway Being_cancelled"
proof -
  have begun: "0 \<notin> cl_opening open_run" by (simp add: open_run_def call_opened_def open_call_def)
  have a: "life open_run 0 = Underway" using open_run(2) by (simp add: life_def fresh_call_def)
  have "\<not> rc_terminal (fresh_call k d n\<lparr>rc_watched := True\<rparr>)" "\<not> rc_closed (fresh_call k d n\<lparr>rc_watched := True\<rparr>)"
    "rc_outcome (fresh_call k d n\<lparr>rc_watched := True\<rparr>) = None" for k d n by (simp_all add: fresh_call_def)
  note c = close_and_cancel_result [OF call_reach_inv [OF open_run(1)] open_run(2) this(1,2)] and out = this(3)
  have b: "life (snd (close_and_cancel 0 open_run)) 0 = Being_cancelled" using c out by (simp add: life_def)
  have "call_step\<^sup>*\<^sup>* open_run (snd (close_and_cancel 0 open_run))"
    using call_step.cancels [OF begun] by (rule r_into_rtranclp)
  from rpc_call_life [OF this open_run(2) begun] show ?thesis using a b by simp
qed

text \<open>
  The classifiers that tell RPC pushes from replies accept exactly the payloads that the
  request and the response handler can decode.
\<close>

lemma rpc_pushes_recognised:
  "(looks_like_request data \<longleftrightarrow> (\<exists>x. decode_request data = Inr x)) \<and>
   (looks_like_response data \<longleftrightarrow> (\<exists>x. decode_response data = Inr x))"
proof -
  have eof: "expect_eof e r = (if is_eof r then Inr ((), r) else Inl e)" for e r
    by (simp add: expect_eof_def rd_bind_def rd_get_def rd_raise_def rd_return_def)
  have "looks_like_request data \<longleftrightarrow>
      run_reader (rd_bind read_request (\<lambda>_. rd_get is_eof)) data = Inr True"
    by (auto simp: looks_like_request_def split: sum.splits)
  moreover have "(\<exists>x. decode_request data = Inr x) \<longleftrightarrow>
      run_reader (rd_bind read_request (\<lambda>_. rd_get is_eof)) data = Inr True"
    unfolding decode_request_def run_reader_Inr_iff rd_bind_Inr_iff
    by (auto simp: eof split: if_splits) blast
  moreover have "looks_like_response data \<longleftrightarrow>
      run_reader (rd_bind (read_bytes 16) (\<lambda>_. rd_bind read_u64_be (\<lambda>_. rd_bind read_u8 (\<lambda>flgs.
        rd_bind read_blob (\<lambda>_. rd_bind (rd_get is_eof) (\<lambda>eof. rd_return (flgs AND NOT 1 = 0 \<and> eof))))))) data = Inr True"
    by (auto simp: looks_like_response_def split: sum.splits)
  moreover have "(\<exists>x. decode_response data = Inr x) \<longleftrightarrow>
      run_reader (rd_bind (read_bytes 16) (\<lambda>_. rd_bind read_u64_be (\<lambda>_. rd_bind read_u8 (\<lambda>flgs.
        rd_bind read_blob (\<lambda>_. rd_bind (rd_get is_eof) (\<lambda>eof. rd_return (flgs AND NOT 1 = 0 \<and> eof))))))) data = Inr True"
    unfolding decode_response_def run_reader_Inr_iff rd_bind_Inr_iff
    by (auto simp: eof rd_bind_Inr_iff split: if_splits) blast
  ultimately show ?thesis by blast
qed

end
