(* ===== verification/Rpc_Relay.thy ===== *)
theory Rpc_Relay
  imports Rpc_Life Rpc_Worker_Proofs
begin

text \<open>
  \<open>call_from_request\<close>: the calls a worker makes downstream for an inbound request, which inherit the
  time the request has left and are cancelled with it.
\<close>

section \<open>State and operations\<close>

text \<open>\<open>rl_parent\<close> tells whose \<open>cancelled\<close> event a call was opened with, by the index of the run.\<close>

record relay =
  rl_serving :: serving
  rl_calls :: calls
  rl_parent :: "nat \<Rightarrow> nat option"

definition no_relay :: relay where
  "no_relay = \<lparr>rl_serving = no_serving, rl_calls = no_calls, rl_parent = Map.empty\<rparr>"

abbreviation inbound :: "relay \<Rightarrow> nat \<Rightarrow> invocation" where
  "inbound st n \<equiv> sv_runs (rl_serving st) ! n"

text \<open>\<open>call\<close>: what is checked before the lazy call is handed out; opening it checks the same again.\<close>

definition lazy_call_args :: "ustr \<Rightarrow> rat \<Rightarrow> exn + unit" where
  "lazy_call_args route timeout = bind_r (rpc_route route False) (\<lambda>_. check_timeout (Some timeout))"

lemma lazy_call_opens:
  assumes "lazy_call_args route timeout = Inr ()"
  shows "open_request route body (Some timeout) key now later =
    bind_r (request_payload key route body (remaining_budget (Some (now + timeout)) later)) (\<lambda>p. Inr (Some (now + timeout), p))"
  using assms by (simp add: lazy_call_args_def open_request_def bind_r_Inr_iff Let_def)

text \<open>
  \<open>now\<close>, \<open>later\<close> and \<open>sent\<close> are the three readings of the clock: for the time left, for the deadline
  of the call, and for the budget in its REQUEST.
\<close>

definition open_downstream ::
  "nat \<Rightarrow> nat \<Rightarrow> bytes \<Rightarrow> ustr \<Rightarrow> bytes \<Rightarrow> rat \<Rightarrow> rat \<Rightarrow> rat \<Rightarrow> int \<Rightarrow> relay \<Rightarrow> exn + bytes \<times> relay" where
  "open_downstream n c key route body now later sent capacity st =
     bind_r (rpc_route route False) (\<lambda>_.
     bind_r (inherited_timeout (in_cancelled (inbound st n)) (in_deadline (inbound st n)) now) (\<lambda>t.
     bind_r (open_request route body t key later sent) (\<lambda>(deadline, p).
       Inr (p, st\<lparr>rl_calls := open_call c key deadline capacity (rl_calls st), rl_parent := (rl_parent st)(c \<mapsto> n)\<rparr>))))"

text \<open>\<open>_cancel_when_parent_cancelled\<close> once the event is set: whether a CANCELLATION is sent.\<close>

definition parent_cancelled :: "nat \<Rightarrow> relay \<Rightarrow> bool \<times> relay" where
  "parent_cancelled c st =
     (let (sends, s) = close_and_cancel c (rl_calls st) in (sends, st\<lparr>rl_calls := s\<rparr>))"

text \<open>Any other step of the client's calls; a call that is gone has no parent any more.\<close>

definition with_calls :: "calls \<Rightarrow> relay \<Rightarrow> relay" where
  "with_calls s st = st\<lparr>rl_calls := s, rl_parent := rl_parent st |` dom (cl_call s)\<rparr>"

text \<open>At most \<open>slack\<close> passes between the first and the last reading of the clock.\<close>

inductive relay_step :: "rat \<Rightarrow> relay \<Rightarrow> relay \<Rightarrow> bool" for slack where
  downstream: "n < length (sv_runs (rl_serving st)) \<Longrightarrow> cl_call (rl_calls st) c = None \<Longrightarrow> key_unused key (rl_calls st) \<Longrightarrow>
    now \<le> later \<Longrightarrow> later \<le> sent \<Longrightarrow> sent \<le> now + slack \<Longrightarrow>
    open_downstream n c key route body now later sent capacity st = Inr (p, st') \<Longrightarrow> relay_step slack st st'"
| cascades: "rl_parent st c = Some n \<Longrightarrow> in_cancelled (inbound st n) \<Longrightarrow> c \<notin> cl_opening (rl_calls st) \<Longrightarrow>
    cl_call (rl_calls st) c = Some r \<Longrightarrow> rc_watched r \<Longrightarrow> relay_step slack st (snd (parent_cancelled c st))"
| serving: "serve_step (rl_serving st) s \<Longrightarrow> relay_step slack st (st\<lparr>rl_serving := s\<rparr>)"
| calls: "call_step (rl_calls st) s \<Longrightarrow> relay_step slack st (with_calls s st)"

inductive relay_reach :: "rat \<Rightarrow> relay \<Rightarrow> bool" for slack where
  start: "relay_reach slack no_relay"
| step: "relay_reach slack st \<Longrightarrow> relay_step slack st st' \<Longrightarrow> relay_reach slack st'"

section \<open>Invocations only move forwards\<close>

definition run_advances :: "invocation \<Rightarrow> invocation \<Rightarrow> bool" where
  "run_advances i j \<longleftrightarrow> in_key j = in_key i \<and> in_deadline j = in_deadline i \<and> (in_cancelled i \<longrightarrow> in_cancelled j)"

definition runs_forward :: "serving \<Rightarrow> serving \<Rightarrow> bool" where
  "runs_forward st st' \<longleftrightarrow> length (sv_runs st) \<le> length (sv_runs st') \<and>
     (\<forall>n<length (sv_runs st). run_advances (sv_runs st ! n) (sv_runs st' ! n))"

lemma runs_forward_refl [simp]: "runs_forward st st"
  by (simp add: runs_forward_def run_advances_def)

lemma runs_forward_trans: "runs_forward st st' \<Longrightarrow> runs_forward st' st'' \<Longrightarrow> runs_forward st st''"
  by (fastforce simp: runs_forward_def run_advances_def)

lemma runs_forward_tables [simp]:
  "runs_forward st (st'\<lparr>sv_table := t\<rparr>) = runs_forward st st'" "runs_forward st (st'\<lparr>sv_free := f\<rparr>) = runs_forward st st'"
  "runs_forward st (st'\<lparr>sv_max := f\<rparr>) = runs_forward st st'" "runs_forward st (st'\<lparr>sv_active := a\<rparr>) = runs_forward st st'"
  by (simp_all add: runs_forward_def)

lemma runs_forward_on_run:
  assumes "runs_forward st st'" "\<And>i. run_advances i (f i)"
  shows "runs_forward st (on_run n f st')"
proof -
  have "runs_forward st' (on_run n f st')"
    using assms(2) by (auto simp: runs_forward_def on_run_def run_advances_def nth_list_update)
  then show ?thesis by (rule runs_forward_trans [OF assms(1)])
qed

lemma runs_forward_forget: "runs_forward st st' \<Longrightarrow> runs_forward st (forget n st')"
  by (auto simp: forget_def intro!: runs_forward_on_run) (simp_all add: run_advances_def)

lemma runs_forward_acknowledge: "runs_forward st st' \<Longrightarrow> runs_forward st (acknowledge n st')"
  unfolding acknowledge_def by (intro runs_forward_on_run runs_forward_forget) (simp_all add: run_advances_def)

lemma runs_forward_finally: "runs_forward st st' \<Longrightarrow> runs_forward st (run_finally n st')"
  unfolding run_finally_def Let_def
  by (auto intro!: runs_forward_acknowledge runs_forward_on_run) (simp_all add: run_advances_def)

lemma runs_forward_release: "runs_forward st st' \<Longrightarrow> runs_forward st (release_run n st')"
  by (simp add: release_run_def Let_def runs_forward_finally)

lemmas runs_forward_intros =
  runs_forward_on_run runs_forward_forget runs_forward_acknowledge runs_forward_finally runs_forward_release

lemma runs_forward_fold: "(\<And>i. run_advances i (f i)) \<Longrightarrow> runs_forward st st' \<Longrightarrow> runs_forward st (fold (\<lambda>n. on_run n f) ns st')"
  by (induction ns arbitrary: st') (simp_all add: runs_forward_on_run)

lemma serve_step_forward: "serve_step st st' \<Longrightarrow> runs_forward st st'"
proof (induction rule: serve_step.induct)
  case (request st data now taken)
  have "runs_forward st (st\<lparr>sv_runs := sv_runs st @ xs\<rparr>)" for xs
    by (simp add: runs_forward_def nth_append run_advances_def)
  then show ?case by (simp add: on_request_def Let_def split: sum.split option.split)
next
  case (slot n st now)
  show ?case unfolding run_slot_def Let_def
    by (auto intro!: runs_forward_intros) (simp_all add: run_advances_def)
next
  case (over n st how)
  show ?case by (auto simp: handler_over_def intro!: runs_forward_intros split: option.split) (simp_all add: run_advances_def)
next
  case (lifecycle st data)
  show ?case by (auto simp: worker_lifecycle_def intro!: runs_forward_on_run split: option.split)
      (simp_all add: run_advances_def)
next
  case (lost st)
  show ?case unfolding serving_disconnect_def by simp (rule runs_forward_fold, simp_all add: run_advances_def)
qed (auto simp: serve_def unserve_def run_begin_def slot_cancelled_def handler_sent_def reported_def refusal_reported_def
    ack_task_def deadline_fires_def run_advances_def intro!: runs_forward_intros)

section \<open>Invariant\<close>

text \<open>The deadline of a downstream call, up to the slack of the clock.\<close>

definition within_budget :: "rat \<Rightarrow> rat option \<Rightarrow> rat option \<Rightarrow> bool" where
  "within_budget slack parent child \<longleftrightarrow>
     (case parent of None \<Rightarrow> child = None | Some D \<Rightarrow> (case child of None \<Rightarrow> False | Some d \<Rightarrow> d \<le> D + slack))"

definition relay_inv :: "rat \<Rightarrow> relay \<Rightarrow> bool" where
  "relay_inv slack st \<longleftrightarrow> serve_reach (rl_serving st) \<and> call_reach (rl_calls st) \<and>
     (\<forall>c n. rl_parent st c = Some n \<longrightarrow> n < length (sv_runs (rl_serving st)) \<and>
       (\<exists>r. cl_call (rl_calls st) c = Some r \<and> within_budget slack (in_deadline (inbound st n)) (rc_deadline r)))"

lemma open_downstream_Inr:
  "open_downstream n c key route body now later sent capacity st = Inr (p, st') \<longleftrightarrow>
   rpc_route route False = Inr () \<and> (\<exists>t. inherited_timeout (in_cancelled (inbound st n)) (in_deadline (inbound st n)) now = Inr t \<and>
     check_timeout t = Inr () \<and>
     request_payload key route body (remaining_budget (map_option (\<lambda>t. later + t) t) sent) = Inr p \<and>
     st' = st\<lparr>rl_calls := open_call c key (map_option (\<lambda>t. later + t) t) capacity (rl_calls st), rl_parent := (rl_parent st)(c \<mapsto> n)\<rparr>)"
  by (auto simp: open_downstream_def open_request_def bind_r_Inr_iff Let_def)

lemma py_int_le: "0 < py_int x \<Longrightarrow> of_int (py_int x) \<le> x"
  using ceiling_le_zero [of x] by (auto simp: py_int_def split: if_splits)

lemma py_int_mono:
  assumes "x \<le> y"
  shows "py_int x \<le> py_int y"
proof (cases "x < 0 \<and> 0 \<le> y")
  case True
  then have "py_int x = \<lceil>x\<rceil>" "py_int y = \<lfloor>y\<rfloor>" "\<lceil>x\<rceil> \<le> 0" "0 \<le> \<lfloor>y\<rfloor>" by (simp_all add: py_int_def)
  then show ?thesis by linarith
next
  case False
  then have "x < 0 \<and> y < 0 \<or> 0 \<le> x \<and> 0 \<le> y" using assms by linarith
  then show ?thesis using floor_mono [OF assms] ceiling_mono [OF assms] by (auto simp: py_int_def)
qed

lemma inherited_within:
  assumes "inherited_timeout cancelled deadline now = Inr t" "later \<le> now + slack"
  shows "within_budget slack deadline (map_option (\<lambda>t. later + t) t)"
proof (cases deadline)
  case (Some D)
  let ?ms = "max 0 (py_int ((D - now) * 1000))"
  have t: "?ms \<noteq> 0" "t = Some (of_int ?ms / 1000)"
    using assms(1) Some by (auto simp: inherited_timeout_def remaining_time_ms_def split: if_splits)
  then have "?ms = py_int ((D - now) * 1000)" "0 < py_int ((D - now) * 1000)" by linarith+
  then have "(of_int ?ms :: rat) \<le> (D - now) * 1000" using py_int_le by metis
  then show ?thesis using Some t(2) assms(2) by (simp add: within_budget_def)
qed (use assms in \<open>auto simp: within_budget_def inherited_timeout_def remaining_time_ms_def split: if_splits\<close>)

lemma relay_inv_step: "relay_step slack st st' \<Longrightarrow> relay_inv slack st \<Longrightarrow> relay_inv slack st'"
proof (induction rule: relay_step.induct)
  case (downstream n st c key now later sent route body capacity p st')
  obtain t where t: "inherited_timeout (in_cancelled (inbound st n)) (in_deadline (inbound st n)) now = Inr t"
    "st' = st\<lparr>rl_calls := open_call c key (map_option (\<lambda>t. later + t) t) capacity (rl_calls st), rl_parent := (rl_parent st)(c \<mapsto> n)\<rparr>"
    using downstream(7) by (auto simp: open_downstream_Inr)
  have "later \<le> now + slack" using downstream(5,6) by simp
  note w = inherited_within [OF t(1) this]
  have "call_reach (rl_calls st')"
    using downstream(8) call_reach.step [OF _ call_step.opens [OF downstream(2,3)]] by (simp add: relay_inv_def t(2))
  then show ?case using downstream(1,8) w by (auto simp: relay_inv_def t(2) open_call_def fresh_call_def)
next
  case (cascades st c n r)
  let ?s = "snd (close_and_cancel c (rl_calls st))"
  have step: "call_step (rl_calls st) ?s" by (rule call_step.cancels [OF cascades(3)])
  have "call_reach ?s" using cascades(6) call_reach.step [OF _ step] by (simp add: relay_inv_def)
  moreover have "\<exists>q. cl_call ?s d = Some q \<and> rc_deadline q = rc_deadline a" if "cl_call (rl_calls st) d = Some a" for d a
    using forwards_cancel [OF forwards_refl, of "rl_calls st" c] that unfolding forwards_def advances_def by blast
  ultimately show ?case using cascades(6) unfolding relay_inv_def parent_cancelled_def by (fastforce simp: split_beta)
next
  case (serving st s)
  have f: "runs_forward (rl_serving st) s" by (rule serve_step_forward [OF serving(1)])
  then show ?case using serving(2) serve_reach.step [OF _ serving(1)]
    by (fastforce simp: relay_inv_def runs_forward_def run_advances_def)
next
  case (calls st s)
  have "\<exists>r. cl_call s c = Some r \<and> within_budget slack (in_deadline (inbound st n)) (rc_deadline r)"
    if "rl_parent st c = Some n" "c \<in> dom (cl_call s)" for c n
  proof -
    obtain r where r: "cl_call (rl_calls st) c = Some r" "within_budget slack (in_deadline (inbound st n)) (rc_deadline r)"
      using calls(2) \<open>rl_parent st c = Some n\<close> unfolding relay_inv_def by blast
    then show ?thesis using that(2) call_step_deadline [OF calls(1) r(1)] by fastforce
  qed
  then show ?case using calls(2) call_reach.step [OF _ calls(1)]
    by (auto simp: relay_inv_def with_calls_def restrict_map_def split: if_splits)
qed

lemma relay_reach_inv: "relay_reach slack st \<Longrightarrow> relay_inv slack st"
proof (induction rule: relay_reach.induct)
  case (step st st')
  show ?case by (rule relay_inv_step [OF step.hyps(2) step.IH])
qed (simp add: relay_inv_def no_relay_def serve_reach.start call_reach.start)

section \<open>Properties\<close>


lemma relay_steps_cancelled:
  assumes "(relay_step slack)\<^sup>*\<^sup>* st st'" "n < length (sv_runs (rl_serving st))" "in_cancelled (inbound st n)"
  shows "n < length (sv_runs (rl_serving st')) \<and> in_cancelled (inbound st' n)"
  using assms
proof (induction rule: rtranclp_induct)
  case (step s s')
  from step.hyps(2) step.IH [OF assms(2,3)] show ?case
  proof (induction rule: relay_step.induct)
    case (serving st s)
    then show ?case using serve_step_forward [OF serving(1)] by (fastforce simp: runs_forward_def run_advances_def)
  qed (auto simp: open_downstream_Inr parent_cancelled_def with_calls_def split_beta)
qed simp

text \<open>
  C27. When an inbound request is cancelled, every open downstream call made for it still has the
  task that waits for this; the task closes the call and sends its CANCELLATION, and from then
  on no further call can be opened for the request.
\<close>

lemma rpc_cancellation_cascades:
  assumes reach: "relay_reach slack st" and parent: "rl_parent st c = Some n" "in_cancelled (inbound st n)"
    and call: "cl_call (rl_calls st) c = Some r" "c \<notin> cl_opening (rl_calls st)" "\<not> rc_closed r" "\<not> rc_terminal r"
  shows "case parent_cancelled c st of (sends, st') \<Rightarrow>
    sends \<and> relay_step slack st st' \<and> life (rl_calls st) c = Underway \<and> life (rl_calls st') c = Being_cancelled \<and>
    map_of (cl_pending (rl_calls st')) (rc_key r) = None \<and> map_of (cl_cancelling (rl_calls st')) (rc_key r) = Some c \<and>
    (\<forall>st''. (relay_step slack)\<^sup>*\<^sup>* st' st'' \<longrightarrow>
      in_cancelled (inbound st'' n) \<and>
      (\<forall>d key route body now later sent capacity.
        \<exists>e. open_downstream n d key route body now later sent capacity st'' = Inl e))"
proof -
  note inv = relay_reach_inv [OF reach, unfolded relay_inv_def]
  have n: "n < length (sv_runs (rl_serving st))" using inv parent(1) by blast
  have calls: "calls_inv (rl_calls st)" using inv call_reach_inv by blast
  have "minded (rl_calls st)" using inv call_reach_minded by blast
  then have "rc_watched r" using call unfolding minded_def by blast
  then have step: "relay_step slack st (snd (parent_cancelled c st))"
    by (rule relay_step.cascades [OF parent call(2,1)])
  note res = close_and_cancel_result [OF calls call(1,4,3)]
  note ok = call_ok_open [OF calls_inv_ok [OF calls call(1)] call(3,4)]
  obtain st' where st': "parent_cancelled c st = (True, st')" "rl_serving st' = rl_serving st"
    "rl_calls st' = snd (close_and_cancel c (rl_calls st))"
    using res by (simp add: parent_cancelled_def)
  have refused: "\<exists>e. open_downstream n d key route body now later sent capacity st'' = Inl e"
    if "in_cancelled (inbound st'' n)" for st'' d key route body now later sent capacity
    using that by (cases "rpc_route route False") (simp_all add: open_downstream_def inherited_timeout_def)
  have "in_cancelled (inbound st'' n)" if "(relay_step slack)\<^sup>*\<^sup>* st' st''" for st''
    using relay_steps_cancelled [OF that] st'(2) n parent(2) by simp
  then show ?thesis using st' step ok call refused
    by (simp add: life_def res drop_pending_def update_conv' delete_conv')
qed

section \<open>A relayed call\<close>

text \<open>A request that arrived at time 0 with thirty seconds, and a call for it at time 10.\<close>

definition timed_run :: serving where
  "timed_run = serving_with 1 [new_invocation (replicate 16 5) 0 (Some 30) True] [(replicate 16 5, 0)]"

lemma timed_run: "serve_reach timed_run"
proof -
  have s: "serve (lit ''rpc://a'') demo_registration no_serving = serving_with 1 [] []"
    by (simp add: serve_def no_serving_def serving_with_def demo_registration_def)
  have "serve_step no_serving (serve (lit ''rpc://a'') demo_registration no_serving)"
    by (rule serve_step.registers) (simp_all add: no_serving_def demo_registration_def)
  then have r: "serve_reach (serving_with 1 [] [])" using s serve_reach.intros by metis
  obtain p where "request_payload (replicate 16 5) (lit ''rpc://a'') [] (Some 30000) = Inr p"
    by (simp add: request_payload_def budget_fields_def build_payload_spec pack_def str_field_ascii lit_def)
  then have d: "decode_request p = Inr (replicate 16 5, lit ''rpc://a'', [], Some 30000)"
    by (rule decode_request_written) simp
  have "best_worker (lit ''rpc://a'') [(lit ''rpc://a'', demo_registration)] = Some demo_registration"
    by (simp add: best_worker_def matches_def rpc_parts_def lit_def star_def dstar_def)
  then have "snd (on_request p 0 True (serving_with 1 [] [])) = timed_run"
    by (simp add: on_request_def d serving_with_def timed_run_def demo_registration_def)
  then show ?thesis using serve_reach.step [OF r serve_step.request] by metis
qed

definition relayed :: relay where
  "relayed = \<lparr>rl_serving = timed_run, rl_calls = call_opened 7 (open_call 7 (replicate 16 9) (Some 30) 64 no_calls),
     rl_parent = [7 \<mapsto> 0]\<rparr>"

lemma relay_serving: "serve_reach s \<Longrightarrow> relay_reach slack (no_relay\<lparr>rl_serving := s\<rparr>)"
proof (induction rule: serve_reach.induct)
  case start
  have "no_relay\<lparr>rl_serving := no_serving\<rparr> = no_relay" by (simp add: no_relay_def)
  then show ?case using relay_reach.start by metis
next
  case (step s s')
  have "relay_step slack (no_relay\<lparr>rl_serving := s\<rparr>) ((no_relay\<lparr>rl_serving := s\<rparr>)\<lparr>rl_serving := s'\<rparr>)"
    by (rule relay_step.serving) (simp add: step.hyps(2))
  then show ?case using relay_reach.step [OF step.IH] by simp
qed

lemma relayed: "relay_reach 0 relayed"
  "cl_call (rl_calls relayed) 7 = Some ((fresh_call (replicate 16 9) (Some 30) 64)\<lparr>rc_watched := True\<rparr>)"
  "7 \<notin> cl_opening (rl_calls relayed)" "rl_parent relayed 7 = Some 0" "in_deadline (inbound relayed 0) = Some 30"
proof -
  let ?st = "no_relay\<lparr>rl_serving := timed_run\<rparr>"
  let ?calls = "open_call 7 (replicate 16 9) (Some 30) 64 no_calls"
  have run: "in_deadline (inbound ?st 0) = Some 30" "\<not> in_cancelled (inbound ?st 0)"
    by (simp_all add: timed_run_def serving_with_def new_invocation_def)
  have t: "inherited_timeout False (Some 30) 10 = Inr (Some 20)"
    by (simp add: inherited_timeout_def remaining_time_ms_def py_int_def)
  have b: "remaining_budget (Some 30) 10 = Some 20000" by (simp add: remaining_budget_def py_int_def)
  obtain p where p: "request_payload (replicate 16 9) (lit ''rpc://b'') [] (Some 20000) = Inr p"
    by (simp add: request_payload_def budget_fields_def build_payload_spec pack_def str_field_ascii lit_def)
  have r: "rpc_route (lit ''rpc://b'') False = Inr ()" by code_simp
  have "open_downstream 0 7 (replicate 16 9) (lit ''rpc://b'') [] 10 10 10 64 ?st =
      Inr (p, ?st\<lparr>rl_calls := ?calls, rl_parent := [7 \<mapsto> 0]\<rparr>)"
    using t b p r run by (simp add: open_downstream_def open_request_def check_timeout_def guard_r_def no_relay_def)
  then have "relay_step 0 ?st (?st\<lparr>rl_calls := ?calls, rl_parent := [7 \<mapsto> 0]\<rparr>)"
    by (intro relay_step.downstream [of 0]) (simp_all add: timed_run_def serving_with_def no_relay_def no_calls_def key_unused_def)
  from relay_reach.step [OF relay_serving [OF timed_run] this]
  have open_: "relay_reach 0 (?st\<lparr>rl_calls := ?calls, rl_parent := [7 \<mapsto> 0]\<rparr>)" .
  have "call_step ?calls (call_opened 7 ?calls)" by (rule call_step.opened) (simp add: open_call_def)
  then have "relay_step 0 (?st\<lparr>rl_calls := ?calls, rl_parent := [7 \<mapsto> 0]\<rparr>)
      (with_calls (call_opened 7 ?calls) (?st\<lparr>rl_calls := ?calls, rl_parent := [7 \<mapsto> 0]\<rparr>))"
    by (intro relay_step.calls) simp
  moreover have "with_calls (call_opened 7 ?calls) (?st\<lparr>rl_calls := ?calls, rl_parent := [7 \<mapsto> 0]\<rparr>) = relayed"
    by (auto simp: with_calls_def relayed_def no_relay_def call_opened_def open_call_def on_call_def no_calls_def
        restrict_map_def fun_eq_iff)
  ultimately show "relay_reach 0 relayed" using relay_reach.step [OF open_] by metis
qed (simp_all add: relayed_def call_opened_def open_call_def on_call_def timed_run_def serving_with_def new_invocation_def)


lemma rpc_cancellation_cascades_witness:
  "let st = relayed\<lparr>rl_serving := deadline_fires 0 timed_run\<rparr> in
     fst (parent_cancelled 7 st) \<and> life (rl_calls st) 7 = Underway \<and>
     life (rl_calls (snd (parent_cancelled 7 st))) 7 = Being_cancelled"
proof -
  let ?st = "relayed\<lparr>rl_serving := deadline_fires 0 timed_run\<rparr>"
  have "serve_step (rl_serving relayed) (deadline_fires 0 timed_run)"
    unfolding relayed_def using serve_step.fires [of 0 timed_run]
    by (simp add: timed_run_def serving_with_def new_invocation_def)
  from relay_reach.step [OF relayed(1) relay_step.serving [OF this]] have reach: "relay_reach 0 ?st" .
  have "in_cancelled (inbound ?st 0)"
    by (simp add: deadline_fires_def timed_run_def serving_with_def on_run_def)
  moreover have "\<not> rc_closed ((fresh_call k d n)\<lparr>rc_watched := True\<rparr>)" "\<not> rc_terminal ((fresh_call k d n)\<lparr>rc_watched := True\<rparr>)"
    for k d n by (simp_all add: fresh_call_def)
  ultimately show ?thesis
    using rpc_cancellation_cascades [OF reach, of 7 0] relayed(2-4) by (auto simp: Let_def split: prod.splits)
qed

end
