(* ===== verification/Spec2Isabelle.thy ===== *)
theory Spec2Isabelle
  imports Gate Dispatcher Registry Mux Response Extensions Routes Config Connection Lifecycle Retry
    Transport Lazy Kv_Proofs Queue_Proofs Stream_Proofs Schedule Notice Answers Slots
    Lease_Acquire Lease_Observer Lease_Proofs Rpc_Proofs Rpc_Worker_Proofs Upkeep
    Client_Properties Rpc_Life Rpc_Relay
begin

text \<open>
  fitz-py, the Python client of the Fitz broker (\<open>src/src/fitz_py\<close>).

  The program. A \<open>Client\<close> owns one \<open>Connection\<close> and seven domain clients. The connection dials a
  transport, negotiates a session (CONNECT, HELLO), reads frames, and reconnects when the session
  is lost. Requests pass an admission gate, get a correlation id and wait for the response that the
  multiplexer finds under that id; frames without an id are pushes and go to the domain that
  registered for their type. The domain clients encode requests and decode replies over this, hand
  out handles (transactions, queue items, stream sessions, leases, response writers) and keep what
  must be restored after a reconnect.

  How code becomes definitions. A coroutine without interleaving is a function from the state to
  its result, an exception or a value, and the state it leaves (\<open>Effects\<close>). Where other tasks may
  run between two awaits and this matters, the coroutine is cut at its awaits, each piece is a
  function on a record of the object's fields, and an inductive relation interleaves the pieces;
  asyncio's cancellation is a step or an outcome of a wait. Exceptions are the datatype
  \<open>Errors.exn\<close>, a result that may be one is a sum with the exception on the left. Integers are
  unbounded as in Python and checked where \<open>struct.pack\<close> checks them; bytes are 8-bit words,
  strings are lists of code points, times are rationals, configured floats also have the infinities
  and NaN. Tasks, futures and listeners are numbers. Random keys, the clock, jitter, the answers of
  sockets and of the broker, callbacks and \<open>json.loads\<close> are arguments.

  Theories and sources.
  \<^item> \<open>Prelude\<close>: result type, big-endian integers, list and map lemmas, the locale \<open>data_refinement\<close>.
  \<^item> \<open>Errors\<close> (\<open>errors.py\<close>), \<open>Messages\<close> (\<open>protocol/messages.py\<close>), \<open>Frame\<close> (\<open>frame.py\<close>),
    \<open>Utf8\<close> and \<open>Buffer\<close> (\<open>buffer.py\<close>), \<open>Codec\<close> (rules that read back what was written),
    \<open>Extensions\<close> (\<open>extensions.py\<close>), \<open>Response\<close> (\<open>response.py\<close>), \<open>Routes\<close> (\<open>domains/_routes.py\<close>).
  \<^item> \<open>Gate\<close>, \<open>Dispatcher\<close>, \<open>Subscription\<close>, \<open>Lazy\<close>: the classes of \<open>_runtime.py\<close>.
  \<^item> \<open>Registry\<close> (\<open>domains/_subscriptions.py\<close>), \<open>Mux\<close> (\<open>multiplexer.py\<close>), \<open>Config\<close> (\<open>types.py\<close>,
    \<open>transport/factory.py\<close>), \<open>Transport\<close> (\<open>transport/tcp.py\<close>, \<open>transport/websocket.py\<close>).
  \<^item> \<open>Connection\<close> (the session's record and steps), \<open>Lifecycle\<close> (its properties), \<open>Upkeep\<close>
    (listeners, restoration, heartbeat), \<open>Requests\<close> (\<open>Connection.request\<close> and \<open>send\<close> over gate and
    multiplexer), \<open>Answers\<close> and \<open>Slots\<close> (their properties): \<open>connection.py\<close>.
  \<^item> \<open>Client\<close>, \<open>Client_Proofs\<close>, \<open>Client_Properties\<close>: the constructors of \<open>Client\<close> (\<open>client.py\<close>) and of
    the domain clients, and what frames, losses, closing and restoration do to all of them.
  \<^item> \<open>Retry\<close>: \<open>run_with_retry\<close> and \<open>connect_when_ready\<close> (\<open>connection.py\<close>, \<open>client.py\<close>).
  \<^item> \<open>Link\<close>: what a domain client uses of a connection (\<open>domains/base.py\<close>); \<open>Handles\<close>: the locale
    of the objects the clients hand out.
  \<^item> \<open>Kv\<close>, \<open>Queue\<close>, \<open>Stream\<close>, \<open>Schedule\<close>, \<open>Notice\<close>, with \<open>Kv_Proofs\<close>, \<open>Queue_Proofs\<close>,
    \<open>Stream_Proofs\<close>: the modules of these names in \<open>domains\<close>.
  \<^item> \<open>Lease\<close> (arguments, replies, handles, managed leases, listing), \<open>Lease_Acquire\<close> (concurrent
    acquisitions), \<open>Lease_Observer\<close> (the inventory observer), \<open>Lease_Proofs\<close>: \<open>domains/lease.py\<close>.
  \<^item> \<open>Rpc\<close> (routes, payloads, writer, worker table), \<open>Rpc_Calls\<close> (open calls and their
    cancellation), \<open>Rpc_Workers\<close> (invocations), \<open>Rpc_Life\<close> (the life of a call), \<open>Rpc_Relay\<close> (calls made for
    an inbound request), \<open>Rpc_Proofs\<close>, \<open>Rpc_Worker_Proofs\<close>:
    \<open>domains/rpc.py\<close>.

  What the lemmas show.
  \<^item> Wire: the frame codec is a bijection between frames and messages, TCP's cutting of the stream
    is invisible, capabilities and pages and payloads are read back as written, \<open>parse_response\<close> is
    total with a known set of exceptions.
  \<^item> Runtime: the gate admits at most its width, the dispatcher is bounded and in order, a
    subscription refines an abstract queue, a lazy resource is never leaked or closed twice.
  \<^item> Multiplexer and requests: a response settles only the request of its id, no caller is lost at
    a disconnect, a request returns the answer to its own frame and gives its slot back on every
    path, whatever the other tasks do meanwhile.
  \<^item> Session: an authenticated connection is negotiated within the configured limits and watched by
    its heartbeat, a closed one stays closed; retries and readiness loops end within their bounds.
  \<^item> Client: a run of the whole client projects to runs of its components and keeps its wiring; a push
    changes only the domain client that owns its handler; a loss leaves no RPC call or queued
    acquisition open; a restoration leaves exactly the accepted registrations under their new ids;
    \<open>aclose\<close> ends every consumer.
  \<^item> Handles: by interpretation of \<open>handle\<close>, every frame carries the handle's own ids in its own
    generation, a closed handle sends nothing, a final operation succeeds at most once.
  \<^item> Subscriptions: notifications reach the consumers of their registration only, also after
    restoration; the notice client keeps its own tables and agrees with the registry.
  \<^item> Leases: one acquisition at a time, a managed lease is released with its current fencing token,
    a ready observer shows a view of its present subscription.
  \<^item> RPC: a caller reads exactly the worker's stream or its error, every call goes through
    its life in one direction and ends with a settled outcome, a call made for an inbound request
    inherits its time and its cancellation, handlers stay within \<open>max_concurrency\<close> and are acknowledged after they ran.
  Some properties state what the code does and should not: a cancelled acquisition blocks all others,
  a connect by hand after a loss keeps the ids of the lost session. So do some lemmas: the gate admits
  one caller too many after a cancellation, \<open>connect_when_ready\<close> never returns on a closed client, an
  observer stays ready with an old view, a cancellation is acknowledged twice, a small message limit
  of one session refuses the CONNECT of the next.

  Bounds and fuel. \<open>Schedule.entry_loop\<close> has fuel, the number of bytes left, and every entry takes
  at least one (\<open>entry_loop_fuel\<close>). \<open>Retry.retry_from\<close> counts the attempts left.
  \<open>Lease.lease_renewals\<close> and the runs of handles take the number or list of calls.
  \<open>Kv.scan_all_loop\<close>, \<open>Lease.list_leases_loop\<close> and \<open>Retry.ready_loop\<close> may not end: they are
  partial functions into \<open>option\<close>, and that they return is proved for broker answers with finitely
  many pages and for a given timeout. The other loops are structural or have a measure.

  Assumptions. Every broker, socket and listener may answer anything; where a property needs more
  it is a named hypothesis with a witness (a broker that hands out unused ids, one that fences a
  lease by its current token). RPC keys are 16 random bytes; a call opens only under a key that no
  other call has (\<open>Rpc_Calls.key_unused\<close>). During one restoration the broker is a
  link without a state, whose answer depends on the frame only. A step of the whole client lets
  the domain clients take any of their own steps (\<open>Client.client_step\<close>); lease
  observers, whose reconnect listeners join the seven of the domain clients, are not part of it.
  The gate's bound needs a cancelled caller to run before the others (\<open>Gate\<close>).

  Not modelled. The tracer, meter and logger, the texts and contexts of exceptions, the protocol
  classes and re-exports of \<open>__init__.py\<close> and \<open>transport/base.py\<close>, getters, URL parsing, TLS and the
  opening of sockets, the websockets package. A connection has one open attempt at a time, and a
  semaphore or lock may wake any of its waiters, which only adds behaviour. The waits for the end of
  cancelled tasks are not steps of their own.
\<close>

end
